(* ===== verification/Raft_Prelude.thy ===== *)
theory Raft_Prelude
  imports Main
begin

text \<open>
  Shared vocabulary of the development: the outcomes that the C++ standard leaves
  undefined, sequencing of computations that may reach one of them, the binary
  search of the standard library's \<open>lower_bound\<close>, and a few facts on lists.
  Nothing here is specific to one component.
\<close>

section \<open>Outcomes of C++ code\<close>

text \<open>
  An operation that reads past a container, follows a null or dangling pointer,
  uses an invalidated iterator or casts to the wrong dynamic type has undefined
  behaviour.  The model keeps every such execution apart: it is \<open>Inl u\<close>, with \<open>u\<close>
  naming the rule that was broken, and a defined execution is \<open>Inr r\<close>.  \<open>Out_of_fuel\<close> is
  not a behaviour of the code: it marks a recursion that the model cuts off, and the
  theorems on those recursions show that it does not occur.
\<close>

datatype ub =
    Front_of_empty
  | Back_of_empty
  | Invalid_iterator
  | Iterator_out_of_range
  | Null_dereference
  | Dangling_pointer
  | Bad_cast
  | Index_out_of_range
  | Uninitialised_read
  | Int_overflow
  | Division_by_zero
  | Out_of_fuel

type_synonym 'a outcome = "ub + 'a"

definition and_then :: "'a outcome \<Rightarrow> ('a \<Rightarrow> 'b outcome) \<Rightarrow> 'b outcome" where
  "and_then r f = (case r of Inl u \<Rightarrow> Inl u | Inr x \<Rightarrow> f x)"

definition defined :: "'a outcome \<Rightarrow> bool" where
  "defined r = (case r of Inl _ \<Rightarrow> False | Inr _ \<Rightarrow> True)"

named_theorems outcome_simps "evaluation of outcomes"

lemma and_then_simps [simp, outcome_simps]:
  "and_then (Inl u) f = Inl u"
  "and_then (Inr x) f = f x"
  by (simp_all add: and_then_def)

lemma defined_simps [simp, outcome_simps]:
  "\<not> defined (Inl u)"
  "defined (Inr x)"
  by (simp_all add: defined_def)

lemma and_then_eq_Inr [outcome_simps]:
  "and_then r f = Inr y \<longleftrightarrow> (\<exists>x. r = Inr x \<and> f x = Inr y)"
  by (cases r) auto

lemma and_then_eq_Inl [outcome_simps]:
  "and_then r f = Inl u \<longleftrightarrow> r = Inl u \<or> (\<exists>x. r = Inr x \<and> f x = Inl u)"
  by (cases r) auto

lemma defined_iff: "defined r \<longleftrightarrow> (\<exists>x. r = Inr x)"
  by (cases r) auto

lemma defined_and_then [outcome_simps]:
  "defined (and_then r f) \<longleftrightarrow> (\<exists>x. r = Inr x \<and> defined (f x))"
  by (cases r) auto


section \<open>Binary search of the standard library\<close>

text \<open>
  \<open>std::lower_bound\<close> halves the range \<open>[first, first + len)\<close> until it is empty.  The
  predicate \<open>P\<close> stands for the comparison of an element with the sought value.
\<close>

function lower_bound_loop :: "('a \<Rightarrow> bool) \<Rightarrow> 'a list \<Rightarrow> nat \<Rightarrow> nat \<Rightarrow> nat" where
  "lower_bound_loop P xs start len =
     (if len = 0 then start
      else let half = len div 2; mid = start + half in
        if P (xs ! mid) then lower_bound_loop P xs (mid + 1) (len - half - 1)
        else lower_bound_loop P xs start half)"
  by pat_completeness auto
termination
  by (relation "measure (\<lambda>(P, xs, start, len). len)") auto

declare lower_bound_loop.simps [simp del]

definition lower_bound :: "('a \<Rightarrow> bool) \<Rightarrow> 'a list \<Rightarrow> nat" where
  "lower_bound P xs = lower_bound_loop P xs 0 (length xs)"

text \<open>
  A range is partitioned at \<open>k\<close> when \<open>P\<close> holds exactly on the elements before \<open>k\<close>.
  On such a range the search finds \<open>k\<close>.
\<close>

lemma lower_bound_loop_partitioned:
  assumes "\<And>i. start \<le> i \<Longrightarrow> i < start + len \<Longrightarrow> P (xs ! i) \<longleftrightarrow> i < k"
    and "start \<le> k" and "k \<le> start + len"
  shows "lower_bound_loop P xs start len = k"
  using assms
proof (induction P xs start len rule: lower_bound_loop.induct)
  case (1 P xs start len)
  define mid where "mid = start + len div 2"
  show ?case
  proof (cases "len = 0")
    case True
    with "1.prems" show ?thesis by (simp add: lower_bound_loop.simps)
  next
    case len: False
    then have mid: "start \<le> mid" "mid < start + len"
      by (auto simp: mid_def)
    show ?thesis
    proof (cases "P (xs ! mid)")
      case True
      with "1.prems"(1) [OF mid] have "mid < k" by simp
      have "lower_bound_loop P xs (mid + 1) (len - len div 2 - 1) = k"
        using "1.IH"(1) [OF len refl mid_def True] "1.prems" \<open>mid < k\<close> mid
        by (auto simp: mid_def)
      with len True show ?thesis
        by (subst lower_bound_loop.simps) (simp add: Let_def mid_def)
    next
      case False
      with "1.prems"(1) [OF mid] have "k \<le> mid" by simp
      have "lower_bound_loop P xs start (len div 2) = k"
        using "1.IH"(2) [OF len refl mid_def False] "1.prems" \<open>k \<le> mid\<close> mid
        by (auto simp: mid_def)
      with len False show ?thesis
        by (subst lower_bound_loop.simps) (simp add: Let_def mid_def)
    qed
  qed
qed

lemma lower_bound_partitioned:
  assumes "\<And>i. i < length xs \<Longrightarrow> P (xs ! i) \<longleftrightarrow> i < k" and "k \<le> length xs"
  shows "lower_bound P xs = k"
  unfolding lower_bound_def
  by (rule lower_bound_loop_partitioned) (use assms in auto)


section \<open>Facts on lists\<close>

text \<open>\<open>find_if\<close> as a position: the first index that satisfies \<open>P\<close>.\<close>

fun find_index :: "('a \<Rightarrow> bool) \<Rightarrow> 'a list \<Rightarrow> nat option" where
  "find_index P [] = None"
| "find_index P (x # xs) = (if P x then Some 0 else map_option Suc (find_index P xs))"

lemma find_index_None [simp]: "find_index P xs = None \<longleftrightarrow> (\<forall>x \<in> set xs. \<not> P x)"
  by (induction xs) auto

lemma find_index_Some:
  "find_index P xs = Some i \<longleftrightarrow> i < length xs \<and> P (xs ! i) \<and> (\<forall>j < i. \<not> P (xs ! j))"
proof (induction xs arbitrary: i)
  case Nil
  then show ?case by simp
next
  case (Cons x xs)
  show ?case
    by (cases i) (auto simp: Cons.IH less_Suc_eq_0_disj)
qed

lemma find_index_SomeD:
  "find_index P xs = Some i \<Longrightarrow> i < length xs \<and> P (xs ! i)"
  by (simp add: find_index_Some)

lemma find_index_unique:
  assumes "i < length xs" "P (xs ! i)" "\<And>j. j < length xs \<Longrightarrow> P (xs ! j) \<Longrightarrow> j = i"
  shows "find_index P xs = Some i"
  unfolding find_index_Some
proof (intro conjI allI impI notI)
  fix j assume "j < i" and "P (xs ! j)"
  with assms(1) assms(3) [of j] show False by simp
qed (fact assms(1), fact assms(2))

lemma take_append_drop_update:
  "i < length xs \<Longrightarrow> take (Suc i) (xs[i := x]) = take i xs @ [x]"
  by (simp add: take_Suc_conv_app_nth)


section \<open>Numbers as text\<close>

definition digit :: "nat \<Rightarrow> char" where
  "digit d = char_of (48 + d)"

fun decimal :: "nat \<Rightarrow> string" where
  "decimal n = (if n < 10 then [digit n] else decimal (n div 10) @ [digit (n mod 10)])"

declare decimal.simps [simp del]

text \<open>An integer on an output stream.\<close>

definition int_text :: "int \<Rightarrow> string" where
  "int_text k = (if k < 0 then CHR ''-'' # decimal (nat (- k)) else decimal (nat k))"

lemma digit_eq_iff: "d < 10 \<Longrightarrow> e < 10 \<Longrightarrow> digit d = digit e \<longleftrightarrow> d = e"
  by (auto simp: digit_def dest: arg_cong [of _ _ "of_char :: char \<Rightarrow> nat"])

end
