(* ===== verification/Raft_Types.thy ===== *)
theory Raft_Types
  imports Raft_Prelude
begin

text \<open>
  The messages and records of \<open>protocol/Raft.thrift\<close>, \<open>protocol/Client.thrift\<close> and
  \<open>protocol/Filesystem.thrift\<close>.  Field names keep the names of the protocol, with a
  short prefix per record because record fields share one name space.

  Thrift's \<open>i64\<close> and \<open>i32\<close> are signed C++ integers.  They are modelled as \<open>int\<close>: a
  signed overflow is undefined behaviour in C++, not a wrap-around, and the code only
  adds one to terms and indices.  An \<open>optional\<close> list that is not set reads as the
  empty vector in the generated class, so \<open>ae_entries\<close> is a plain list; an optional
  number carries its \<open>__isset\<close> flag as an option.
\<close>

datatype meta_op = kMkdir | kRmdir | kCreate | kDelete | kGetFileInfo | kListDir | kNoop

datatype status =
    kOK | kNoLeader | kNotLeader | kNotFound | kTimeout | kExist | kCommError | kPathError

record entry =
  e_term :: int
  e_index :: int
  e_op :: meta_op
  e_value :: string

record rv_request =
  rv_term :: int
  rv_candidate_id :: int
  rv_last_log_index :: int
  rv_last_log_term :: int

record rv_response =
  rvr_term :: int
  rvr_vote_granted :: bool

record ae_request =
  ae_term :: int
  ae_leader_id :: int
  ae_prev_log_index :: int
  ae_prev_log_term :: int
  ae_entries :: "entry list"
  ae_leader_commit_index :: int

record ae_response =
  aer_term :: int
  aer_success :: bool
  aer_last_log_index :: "int option"

text \<open>
  The generated constructors set every number to 0, every flag to false, every
  enumeration to its first constant and every optional field to not set.  These are
  the values the RPC runtime hands to a handler, and the values a caller sees when the
  call was skipped.
\<close>

definition default_rv_response :: rv_response where
  "default_rv_response = \<lparr>rvr_term = 0, rvr_vote_granted = False\<rparr>"

definition default_ae_response :: ae_response where
  "default_ae_response = \<lparr>aer_term = 0, aer_success = False, aer_last_log_index = None\<rparr>"

text \<open>Reading an optional field without looking at its \<open>__isset\<close> flag gives the default 0.\<close>

definition opt_field :: "int option \<Rightarrow> int" where
  "opt_field f = (case f of None \<Rightarrow> 0 | Some v \<Rightarrow> v)"

lemma opt_field_simps [simp]: "opt_field None = 0" "opt_field (Some v) = v"
  by (simp_all add: opt_field_def)


section \<open>Positions in a log, ordered as the code compares them\<close>

text \<open>
  A voter compares the last term and the last index of two logs componentwise
  (\<open>OnRequestVote\<close>).  That is a partial order on pairs and not the lexicographic order
  of the Raft paper; \<open>log_pos\<close> carries it as its \<open>order\<close> instance.
\<close>

datatype log_pos = Log_pos (pos_term: int) (pos_index: int)

instantiation log_pos :: order
begin

definition less_eq_log_pos :: "log_pos \<Rightarrow> log_pos \<Rightarrow> bool" where
  "less_eq_log_pos p q \<longleftrightarrow> pos_index p \<le> pos_index q \<and> pos_term p \<le> pos_term q"

definition less_log_pos :: "log_pos \<Rightarrow> log_pos \<Rightarrow> bool" where
  "less_log_pos p q \<longleftrightarrow> p \<le> q \<and> \<not> q \<le> (p :: log_pos)"

instance
  by standard (auto simp: less_eq_log_pos_def less_log_pos_def log_pos.expand)

end

lemma log_pos_le_iff [simp]:
  "Log_pos t i \<le> Log_pos t' i' \<longleftrightarrow> i \<le> i' \<and> t \<le> t'"
  by (simp add: less_eq_log_pos_def)

lemma log_pos_not_total: "\<not> Log_pos 1 2 \<le> Log_pos 2 1 \<and> \<not> Log_pos 2 1 \<le> Log_pos 1 2"
  by simp

end
