(* ===== verification/Log_Manager.thy ===== *)
theory Log_Manager
  imports Raft_Types
begin

text \<open>
  The in-memory log of \<open>storage/LogManager\<close>: a deque of entries and the last committed
  index.  The deque owns its entries, so the model stores the entries themselves.  Every
  public operation that has a body in \<open>LogManager.cpp\<close> is a definition here; the mutex
  of the class makes each of them atomic and leaves no trace in the model.
\<close>

section \<open>State and operations\<close>

record log_manager =
  memory_log :: "entry list"
  last_commited_index :: int

definition new_log :: log_manager where
  "new_log = \<lparr>memory_log = [], last_commited_index = 0\<rparr>"

definition IsEmpty :: "log_manager \<Rightarrow> bool" where
  "IsEmpty l \<longleftrightarrow> memory_log l = []"

definition Size :: "log_manager \<Rightarrow> int" where
  "Size l = int (length (memory_log l))"

definition GetEntryLoc :: "int \<Rightarrow> log_manager \<Rightarrow> int" where
  "GetEntryLoc lookup_index l =
     (case find_index (\<lambda>e. e_index e = lookup_index) (memory_log l) of
        Some i \<Rightarrow> int i
      | None \<Rightarrow> -1)"

text \<open>
  \<open>Append(Entry *)\<close> numbers the entry by the size of the deque and appends it.  The
  caller keeps a pointer to the entry, so the numbered entry is part of the result.
\<close>

definition Append_entry :: "entry \<Rightarrow> log_manager \<Rightarrow> entry \<times> log_manager" where
  "Append_entry new_entry l =
     (let e = new_entry\<lparr>e_index := int (length (memory_log l)) + 1\<rparr>
      in (e, l\<lparr>memory_log := memory_log l @ [e]\<rparr>))"

text \<open>
  \<open>Append(const std::vector<Entry> *)\<close>.  The overlay loop walks the local log with the
  iterator \<open>first_same_it\<close>.  A \<open>push_back\<close> on a deque invalidates all its iterators, the
  past-the-end iterator included, and the next thing the code does with \<open>first_same_it\<close>
  is to compare it with \<open>memory_log.end()\<close>: in the next round of the loop or in the test
  after it.  \<open>Invalidated\<close> marks that state of the iterator, and using it is undefined.
\<close>

datatype deque_iterator = At nat | Invalidated

definition same_entry :: "entry \<Rightarrow> entry \<Rightarrow> bool" where
  "same_entry a b \<longleftrightarrow> e_index a = e_index b \<and> e_term a = e_term b"

fun overlay_loop ::
  "entry list \<Rightarrow> deque_iterator \<Rightarrow> entry list \<Rightarrow> (entry list \<times> deque_iterator) outcome"
where
  "overlay_loop log first_same_it [] = Inr (log, first_same_it)"
| "overlay_loop log Invalidated (it # its) = Inl Invalid_iterator"
| "overlay_loop log (At p) (it # its) =
     (if p < length log then
        (if same_entry it (log ! p) then overlay_loop log (At (Suc p)) its
         else overlay_loop (log[p := it]) (At (Suc p)) its)
      else overlay_loop (log @ [it]) Invalidated its)"

definition erase_rest :: "entry list \<Rightarrow> deque_iterator \<Rightarrow> entry list outcome" where
  "erase_rest log first_same_it =
     (case first_same_it of
        Invalidated \<Rightarrow> Inl Invalid_iterator
      | At p \<Rightarrow> Inr (if p \<noteq> length log then take p log else log))"

definition Append_entries :: "entry list \<Rightarrow> log_manager \<Rightarrow> (bool \<times> log_manager) outcome" where
  "Append_entries new_entries l =
     (let log = memory_log l in
      if log = [] then Inr (True, l\<lparr>memory_log := log @ new_entries\<rparr>)
      else case new_entries of
        [] \<Rightarrow> Inl Front_of_empty
      | new_front # _ \<Rightarrow>
          if e_index new_front = e_index (last log) + 1
          then Inr (True, l\<lparr>memory_log := log @ new_entries\<rparr>)
          else case find_index (same_entry new_front) log of
            Some p \<Rightarrow>
              and_then (overlay_loop log (At p) new_entries) (\<lambda>(log', it).
              and_then (erase_rest log' it) (\<lambda>log''.
              Inr (True, l\<lparr>memory_log := log''\<rparr>)))
          | None \<Rightarrow> Inr (False, l))"

text \<open>\<open>GetEntry\<close> searches from the back; \<open>None\<close> is the null pointer.\<close>

definition GetEntry :: "int \<Rightarrow> log_manager \<Rightarrow> entry option" where
  "GetEntry index l = find (\<lambda>e. e_index e = index) (rev (memory_log l))"

definition GetEntriesStartAt :: "int \<Rightarrow> log_manager \<Rightarrow> entry list" where
  "GetEntriesStartAt start_index l =
     drop (lower_bound (\<lambda>lhs. e_index lhs \<le> start_index) (memory_log l)) (memory_log l)"

definition GetLastLogIndex :: "log_manager \<Rightarrow> int" where
  "GetLastLogIndex l = (if memory_log l = [] then 0 else e_index (last (memory_log l)))"

definition GetLastCommitIndex :: "log_manager \<Rightarrow> int" where
  "GetLastCommitIndex l = (if memory_log l = [] then 0 else last_commited_index l)"

definition SetLastCommitIndex :: "int \<Rightarrow> log_manager \<Rightarrow> log_manager outcome" where
  "SetLastCommitIndex new_index l =
     (if memory_log l = [] then Inl Back_of_empty
      else if new_index \<le> e_index (last (memory_log l))
      then Inr (l\<lparr>last_commited_index := new_index\<rparr>)
      else Inr l)"

definition GetLogStartIndex :: "log_manager \<Rightarrow> int" where
  "GetLogStartIndex l = (if memory_log l = [] then 0 else e_index (hd (memory_log l)))"

definition GetLastLogTerm :: "log_manager \<Rightarrow> int" where
  "GetLastLogTerm l = (if memory_log l = [] then 0 else e_term (last (memory_log l)))"

definition GetLastLogTermAndIndex :: "log_manager \<Rightarrow> int \<times> int" where
  "GetLastLogTermAndIndex l =
     (if memory_log l = [] then (0, 0)
      else (e_term (last (memory_log l)), e_index (last (memory_log l))))"

definition RemoveEntryAfter :: "int \<Rightarrow> log_manager \<Rightarrow> log_manager" where
  "RemoveEntryAfter firstIndex l =
     (case find_index (\<lambda>e. e_index e = firstIndex) (memory_log l) of
        Some i \<Rightarrow> l\<lparr>memory_log := take i (memory_log l)\<rparr>
      | None \<Rightarrow> l)"

text \<open>
  \<open>operator<<\<close> prints the last ten entries of a long log.  The list is what it prints;
  it reads \<open>back()\<close> without a test for the empty log.
\<close>

definition print_log :: "log_manager \<Rightarrow> entry list outcome" where
  "print_log l =
     (let log = memory_log l in
      if log = [] then Inl Back_of_empty
      else if e_index (last log) > 10
      then (if length log < 10 then Inl Iterator_out_of_range
            else Inr (drop (length log - 10) log))
      else Inr log)"

lemmas log_defs =
  new_log_def IsEmpty_def Size_def GetEntryLoc_def Append_entry_def Append_entries_def
  GetEntry_def GetEntriesStartAt_def GetLastLogIndex_def GetLastCommitIndex_def
  SetLastCommitIndex_def GetLogStartIndex_def GetLastLogTerm_def
  GetLastLogTermAndIndex_def RemoveEntryAfter_def print_log_def


section \<open>Numbered logs\<close>

text \<open>
  The invariant of the log: the entries carry the consecutive indices 1, 2, 3, and so on.
  \<open>numbered_from k\<close> is the same for a list of entries whose first index is \<open>k\<close>.
\<close>

fun numbered_from :: "int \<Rightarrow> entry list \<Rightarrow> bool" where
  "numbered_from k [] \<longleftrightarrow> True"
| "numbered_from k (e # es) \<longleftrightarrow> e_index e = k \<and> numbered_from (k + 1) es"

definition log_wf :: "log_manager \<Rightarrow> bool" where
  "log_wf l \<longleftrightarrow> numbered_from 1 (memory_log l)"

named_theorems numbered "facts on consecutively numbered entries"

lemma numbered_append [simp, numbered]:
  "numbered_from k (xs @ ys) \<longleftrightarrow>
     numbered_from k xs \<and> numbered_from (k + int (length xs)) ys"
  by (induction xs arbitrary: k) (auto simp: algebra_simps)

lemma numbered_nth [numbered]:
  "numbered_from k es \<Longrightarrow> i < length es \<Longrightarrow> e_index (es ! i) = k + int i"
  by (induction es arbitrary: k i) (auto simp: nth_Cons split: nat.splits)

lemma numbered_iff_nth:
  "numbered_from k es \<longleftrightarrow> (\<forall>i < length es. e_index (es ! i) = k + int i)"
proof (induction es arbitrary: k)
  case (Cons e es)
  then show ?case
    by (auto simp: less_Suc_eq_0_disj algebra_simps)
qed simp

lemma numbered_last [numbered]:
  "numbered_from k es \<Longrightarrow> es \<noteq> [] \<Longrightarrow> e_index (last es) = k + int (length es) - 1"
  by (cases es rule: rev_cases) auto

lemma numbered_take [numbered]: "numbered_from k es \<Longrightarrow> numbered_from k (take n es)"
  by (simp add: numbered_iff_nth)

lemma numbered_drop [numbered]:
  "numbered_from k es \<Longrightarrow> n \<le> length es \<Longrightarrow> numbered_from (k + int n) (drop n es)"
  by (simp add: numbered_iff_nth)

lemma numbered_update [numbered]:
  "numbered_from k es \<Longrightarrow> e_index e = k + int p \<Longrightarrow> numbered_from k (es[p := e])"
  unfolding numbered_iff_nth by (metis length_list_update nth_list_update_eq nth_list_update_neq)

lemma numbered_find_index:
  assumes "numbered_from k es" and "k \<le> i" and "i < k + int (length es)"
  shows "find_index (\<lambda>e. e_index e = i) es = Some (nat (i - k))"
  by (rule find_index_unique) (use assms in \<open>auto simp: numbered_nth\<close>)

lemma numbered_distinct_index:
  "numbered_from k es \<Longrightarrow> i < length es \<Longrightarrow> j < length es \<Longrightarrow>
   e_index (es ! i) = e_index (es ! j) \<Longrightarrow> i = j"
  by (simp add: numbered_nth)

lemma numbered_index_in:
  "numbered_from k es \<Longrightarrow> e \<in> set es \<Longrightarrow> k \<le> e_index e \<and> e_index e < k + int (length es)"
  by (auto simp: in_set_conv_nth numbered_nth)

lemma numbered_find_rev:
  assumes "numbered_from k es"
  shows "find (\<lambda>e. e_index e = i) (rev es) =
    (if k \<le> i \<and> i < k + int (length es) then Some (es ! nat (i - k)) else None)"
  using assms
proof (induction es rule: rev_induct)
  case Nil
  then show ?case by simp
next
  case (snoc e es)
  then show ?case by (auto simp: nth_append)
qed


section \<open>What the queries return on a numbered log\<close>

named_theorems log_query "values of the log's queries on a numbered log"

lemma GetLastLogIndex_wf [log_query]:
  "log_wf l \<Longrightarrow> GetLastLogIndex l = int (length (memory_log l))"
  by (auto simp: log_wf_def GetLastLogIndex_def numbered_last)

lemma GetLastLogIndex_Size: "log_wf l \<Longrightarrow> GetLastLogIndex l = Size l"
  by (simp add: log_query Size_def)

lemma GetLogStartIndex_wf [log_query]:
  "log_wf l \<Longrightarrow> GetLogStartIndex l = (if IsEmpty l then 0 else 1)"
  by (cases "memory_log l") (auto simp: log_wf_def log_defs)

lemma GetEntry_wf [log_query]:
  "log_wf l \<Longrightarrow> GetEntry i l =
     (if 1 \<le> i \<and> i \<le> int (length (memory_log l)) then Some (memory_log l ! nat (i - 1))
      else None)"
  by (simp add: log_wf_def GetEntry_def numbered_find_rev)

lemma GetEntryLoc_wf [log_query]:
  assumes "log_wf l" and "1 \<le> i" and "i \<le> int (length (memory_log l))"
  shows "GetEntryLoc i l = i - 1"
  using assms numbered_find_index [of 1 "memory_log l" i]
  by (simp add: log_wf_def GetEntryLoc_def)

text \<open>The binary search of \<open>GetEntriesStartAt\<close> finds the entries above the index.\<close>

lemma numbered_lower_bound:
  assumes "numbered_from 1 es" and "0 \<le> i"
  shows "lower_bound (\<lambda>e. e_index e \<le> i) es = min (nat i) (length es)"
  by (rule lower_bound_partitioned) (use assms in \<open>auto simp: numbered_nth\<close>)

lemma GetEntriesStartAt_wf [log_query]:
  assumes "log_wf l" and "0 \<le> i"
  shows "GetEntriesStartAt i l = drop (nat i) (memory_log l)"
  using assms by (simp add: log_wf_def GetEntriesStartAt_def numbered_lower_bound min_def)

lemma GetEntriesStartAt_numbered:
  assumes "log_wf l" and "0 \<le> i"
  shows "numbered_from (i + 1) (GetEntriesStartAt i l)"
proof (cases "nat i \<le> length (memory_log l)")
  case True
  with assms numbered_drop [of 1 "memory_log l" "nat i"] show ?thesis
    by (simp add: log_query log_wf_def algebra_simps)
qed (use assms in \<open>simp add: log_query\<close>)

lemma numbered_filter_above:
  assumes "numbered_from k es" and "k \<le> i + 1"
  shows "filter (\<lambda>e. i < e_index e) es = drop (nat (i + 1 - k)) es"
  using assms
proof (induction es arbitrary: k)
  case (Cons e es)
  show ?case
  proof (cases "k = i + 1")
    case True
    with Cons.prems have "\<forall>x \<in> set es. i < e_index x"
      using numbered_index_in [of "k + 1" es] by fastforce
    with True Cons.prems show ?thesis by (simp add: filter_id_conv)
  next
    case False
    with Cons.prems have "nat (i + 1 - k) = Suc (nat (i + 1 - (k + 1)))"
      by (simp add: Suc_nat_eq_nat_zadd1)
    with False Cons.IH [of "k + 1"] Cons.prems show ?thesis by simp
  qed
qed simp


section \<open>What the two append operations do\<close>

text \<open>
  The entry that survives at one position of the overlay: the local one when index and
  term agree, the leader's otherwise.
\<close>

definition overlay_entry :: "entry \<Rightarrow> entry \<Rightarrow> entry" where
  "overlay_entry old new = (if same_entry new old then old else new)"

definition overlay :: "entry list \<Rightarrow> entry list \<Rightarrow> entry list" where
  "overlay olds news = map2 overlay_entry olds news"

lemma same_entry_refl [simp]: "same_entry e e"
  by (simp add: same_entry_def)

lemma overlay_entry_same [simp]: "same_entry (overlay_entry old new) new"
  by (simp add: overlay_entry_def same_entry_def)

lemma overlay_entry_index [simp]: "e_index (overlay_entry old new) = e_index new"
  using overlay_entry_same [of old new] by (simp add: same_entry_def)

lemma overlay_Nil [simp]: "overlay [] news = []"
  by (simp add: overlay_def)

lemma length_overlay [simp]: "length (overlay olds news) = min (length olds) (length news)"
  by (simp add: overlay_def)

lemma nth_overlay [simp]:
  "i < length olds \<Longrightarrow> i < length news \<Longrightarrow> overlay olds news ! i = overlay_entry (olds ! i) (news ! i)"
  by (simp add: overlay_def)

lemma overlay_numbered:
  "numbered_from k news \<Longrightarrow> numbered_from k (overlay olds news)"
  by (simp add: numbered_iff_nth)

text \<open>
  If entries with the same index and term are equal, which is what the Raft paper's log
  matching property gives for logs of one run, the overlay is the leader's entries.
\<close>

lemma overlay_matching:
  assumes "\<And>a b. a \<in> set olds \<Longrightarrow> b \<in> set news \<Longrightarrow> same_entry b a \<Longrightarrow> a = b"
  shows "overlay olds news = take (length olds) news"
proof (rule nth_equalityI)
  fix i assume "i < length (overlay olds news)"
  then have i: "i < length olds" "i < length news" by auto
  then have "same_entry (news ! i) (olds ! i) \<Longrightarrow> olds ! i = news ! i"
    using assms nth_mem by metis
  with i show "overlay olds news ! i = take (length olds) news ! i"
    by (auto simp: overlay_entry_def)
qed simp

text \<open>The loop inside the local log: it overlays the entries and stops behind them.\<close>

lemma overlay_loop_within:
  assumes "p + length news \<le> length log"
  shows "overlay_loop log (At p) news =
    Inr (take p log @ overlay (drop p log) news @ drop (p + length news) log,
         At (p + length news))"
  using assms
proof (induction news arbitrary: log p)
  case Nil
  then show ?case by (simp add: overlay_def)
next
  case (Cons e news)
  then have p: "p < length log" by simp
  define log' where "log' = log[p := overlay_entry (log ! p) e]"
  have "overlay_loop log (At p) (e # news) = overlay_loop log' (At (Suc p)) news"
    using p by (simp add: log'_def overlay_entry_def)
  also have "\<dots> = Inr (take (Suc p) log' @ overlay (drop (Suc p) log') news
      @ drop (Suc p + length news) log', At (Suc p + length news))"
    by (rule Cons.IH) (use Cons.prems in \<open>simp add: log'_def\<close>)
  also have "take (Suc p) log' = take p log @ [overlay_entry (log ! p) e]"
    using p by (simp add: log'_def take_append_drop_update)
  also have "drop (Suc p) log' = drop (Suc p) log"
    by (simp add: log'_def)
  also have "drop (Suc p + length news) log' = drop (Suc p + length news) log"
    by (simp add: log'_def)
  finally show ?case
    using p by (simp add: overlay_def Cons_nth_drop_Suc [symmetric])
qed

text \<open>
  The loop past the end of the local log: it appends one entry and its iterator is
  invalid from then on.
\<close>

lemma overlay_loop_beyond:
  assumes "p \<le> length log" and "length log < p + length news"
  shows "overlay_loop log (At p) news = Inl Invalid_iterator \<or>
    (\<exists>log'. overlay_loop log (At p) news = Inr (log', Invalidated))"
  using assms
proof (induction news arbitrary: log p)
  case (Cons e news)
  show ?case
  proof (cases "p < length log")
    case True
    with Cons.prems Cons.IH [of "Suc p"] show ?thesis by simp
  next
    case False
    then show ?thesis by (cases news) auto
  qed
qed simp

lemma Append_entries_empty:
  "memory_log l = [] \<Longrightarrow> Append_entries news l = Inr (True, l\<lparr>memory_log := news\<rparr>)"
  by (simp add: Append_entries_def)

lemma Append_entries_contiguous:
  "memory_log l \<noteq> [] \<Longrightarrow> e_index e = e_index (last (memory_log l)) + 1 \<Longrightarrow>
   Append_entries (e # news) l = Inr (True, l\<lparr>memory_log := memory_log l @ e # news\<rparr>)"
  by (simp add: Append_entries_def)

lemma Append_entries_unknown:
  "memory_log l \<noteq> [] \<Longrightarrow> e_index e \<noteq> e_index (last (memory_log l)) + 1 \<Longrightarrow>
   \<forall>x \<in> set (memory_log l). \<not> same_entry e x \<Longrightarrow>
   Append_entries (e # news) l = Inr (False, l)"
  by (simp add: Append_entries_def option.case_eq_if)

lemma Append_entries_overlay:
  assumes "memory_log l \<noteq> []" and "e_index e \<noteq> e_index (last (memory_log l)) + 1"
    and "find_index (same_entry e) (memory_log l) = Some p"
    and "p + length (e # news) \<le> length (memory_log l)"
  shows "Append_entries (e # news) l =
    Inr (True, l\<lparr>memory_log := take p (memory_log l) @ overlay (drop p (memory_log l)) (e # news)\<rparr>)"
proof -
  define log where "log = memory_log l"
  define merged where "merged = take p log @ overlay (drop p log) (e # news)"
  have p: "p + length (e # news) \<le> length log"
    using assms(4) by (simp add: log_def)
  then have "length merged = p + length (e # news)"
    by (simp add: merged_def)
  moreover have "overlay_loop log (At p) (e # news) =
      Inr (merged @ drop (p + length (e # news)) log, At (p + length (e # news)))"
    using overlay_loop_within [OF p] by (simp add: merged_def del: overlay_loop.simps)
  ultimately show ?thesis
    using assms(1-3)
    by (simp add: Append_entries_def erase_rest_def log_def [symmetric] merged_def [symmetric]
        del: overlay_loop.simps)
qed

lemma Append_entries_overrun:
  assumes "memory_log l \<noteq> []" and "e_index e \<noteq> e_index (last (memory_log l)) + 1"
    and "find_index (same_entry e) (memory_log l) = Some p"
    and "length (memory_log l) < p + length (e # news)"
  shows "Append_entries (e # news) l = Inl Invalid_iterator"
proof -
  have "p \<le> length (memory_log l)"
    using find_index_SomeD [OF assms(3)] by simp
  from overlay_loop_beyond [OF this assms(4)] assms(1-3) show ?thesis
    by (auto simp: Append_entries_def erase_rest_def)
qed

lemmas Append_entries_cases =
  Append_entries_empty Append_entries_contiguous Append_entries_unknown
  Append_entries_overlay Append_entries_overrun


section \<open>Appending to a numbered log\<close>

lemma numbered_find_same:
  assumes "numbered_from 1 log"
  shows "find_index (same_entry e) log =
    (if 1 \<le> e_index e \<and> e_index e \<le> int (length log)
        \<and> e_term (log ! nat (e_index e - 1)) = e_term e
     then Some (nat (e_index e - 1)) else None)"
proof (cases "1 \<le> e_index e \<and> e_index e \<le> int (length log)
        \<and> e_term (log ! nat (e_index e - 1)) = e_term e")
  case True
  with assms have "find_index (same_entry e) log = Some (nat (e_index e - 1))"
    by (intro find_index_unique) (auto simp: same_entry_def numbered_nth)
  with True show ?thesis by simp
next
  case False
  with assms have "\<forall>x \<in> set log. \<not> same_entry e x"
    by (auto simp: in_set_conv_nth same_entry_def numbered_nth)
  then have "find_index (same_entry e) log = None" by simp
  with False show ?thesis by auto
qed

text \<open>
  The positions of a request relative to the local log: it follows the log, it leaves a
  gap, or it starts inside the log.  \<open>agrees_at\<close> is the test that the overlay makes at the
  first entry.
\<close>

definition agrees_at :: "entry list \<Rightarrow> entry \<Rightarrow> bool" where
  "agrees_at log e \<longleftrightarrow> e_term (log ! nat (e_index e - 1)) = e_term e"

lemma Append_wf_follows:
  assumes "log_wf l" and "numbered_from (int (length (memory_log l)) + 1) news" and "news \<noteq> []"
  shows "Append_entries news l = Inr (True, l\<lparr>memory_log := memory_log l @ news\<rparr>)"
proof (cases "memory_log l = []")
  case False
  from assms(3) obtain e es where news: "news = e # es" by (cases news) auto
  from assms False have "e_index e = e_index (last (memory_log l)) + 1"
    by (simp add: news log_wf_def numbered_last)
  with False show ?thesis by (simp add: news Append_entries_contiguous)
qed (simp add: Append_entries_empty)

lemma Append_wf_gap:
  assumes "log_wf l" and "\<not> IsEmpty l" and "e_index e > int (length (memory_log l)) + 1"
  shows "Append_entries (e # es) l = Inr (False, l)"
proof -
  have "find_index (same_entry e) (memory_log l) = None"
    using assms numbered_find_same [of "memory_log l" e] by (simp add: log_wf_def)
  then have "\<forall>x \<in> set (memory_log l). \<not> same_entry e x" by simp
  with assms show ?thesis
    by (intro Append_entries_unknown) (auto simp: log_wf_def numbered_last IsEmpty_def)
qed

lemma Append_wf_conflict:
  assumes "log_wf l" and "1 \<le> e_index e" and "e_index e \<le> int (length (memory_log l))"
    and "\<not> agrees_at (memory_log l) e"
  shows "Append_entries (e # es) l = Inr (False, l)"
proof -
  have "find_index (same_entry e) (memory_log l) = None"
    using assms numbered_find_same [of "memory_log l" e] by (simp add: log_wf_def agrees_at_def)
  then have "\<forall>x \<in> set (memory_log l). \<not> same_entry e x" by simp
  moreover have "memory_log l \<noteq> []" using assms(2,3) by auto
  ultimately show ?thesis
    using assms by (intro Append_entries_unknown) (auto simp: log_wf_def numbered_last)
qed

lemma Append_wf_overlay:
  assumes "log_wf l" and "1 \<le> e_index e" and "e_index e \<le> int (length (memory_log l))"
    and "agrees_at (memory_log l) e"
    and "e_index e - 1 + int (length (e # es)) \<le> int (length (memory_log l))"
  shows "Append_entries (e # es) l =
    Inr (True, l\<lparr>memory_log := take (nat (e_index e - 1)) (memory_log l)
           @ overlay (drop (nat (e_index e - 1)) (memory_log l)) (e # es)\<rparr>)"
proof (rule Append_entries_overlay)
  show "memory_log l \<noteq> []" using assms(2,3) by auto
  then show "e_index e \<noteq> e_index (last (memory_log l)) + 1"
    using assms by (simp add: log_wf_def numbered_last)
  show "find_index (same_entry e) (memory_log l) = Some (nat (e_index e - 1))"
    using assms numbered_find_same [of "memory_log l" e] by (simp add: log_wf_def agrees_at_def)
qed (use assms in auto)

lemma Append_wf_overrun:
  assumes "log_wf l" and "1 \<le> e_index e" and "e_index e \<le> int (length (memory_log l))"
    and "agrees_at (memory_log l) e"
    and "int (length (memory_log l)) < e_index e - 1 + int (length (e # es))"
  shows "Append_entries (e # es) l = Inl Invalid_iterator"
proof (rule Append_entries_overrun)
  show "memory_log l \<noteq> []" using assms(2,3) by auto
  then show "e_index e \<noteq> e_index (last (memory_log l)) + 1"
    using assms by (simp add: log_wf_def numbered_last)
  show "find_index (same_entry e) (memory_log l) = Some (nat (e_index e - 1))"
    using assms numbered_find_same [of "memory_log l" e] by (simp add: log_wf_def agrees_at_def)
qed (use assms in auto)

lemmas Append_wf =
  Append_wf_follows Append_wf_gap Append_wf_conflict Append_wf_overlay Append_wf_overrun

text \<open>A rejected request leaves the log alone; an accepted one ends the log.\<close>

lemma Append_entries_False: "Append_entries news l = Inr (False, l') \<Longrightarrow> l' = l"
  by (auto simp: Append_entries_def and_then_eq_Inr Let_def
      split: if_splits list.splits option.splits prod.splits)

lemma Append_entries_commit:
  "Append_entries news l = Inr (ok, l') \<Longrightarrow> last_commited_index l' = last_commited_index l"
  by (auto simp: Append_entries_def and_then_eq_Inr Let_def
      split: if_splits list.splits option.splits prod.splits)

lemma Append_entries_accepted:
  assumes wf: "log_wf l" and news: "numbered_from k news" "1 \<le> k" "news \<noteq> []"
    and base: "IsEmpty l \<Longrightarrow> k = 1"
    and ok: "Append_entries news l = Inr (True, l')"
  obtains "k \<le> int (length (memory_log l)) + 1"
    and "memory_log l' = take (nat (k - 1)) (memory_log l)
           @ overlay (drop (nat (k - 1)) (memory_log l)) news"
    and "nat (k - 1) + length news \<le> length (memory_log l)"
    and "agrees_at (memory_log l) (hd news)"
  | "k = int (length (memory_log l)) + 1" and "memory_log l' = memory_log l @ news"
proof -
  obtain e es where n: "news = e # es" using news(3) by (cases news) auto
  have k: "e_index e = k" using news(1) by (simp add: n)
  let ?n = "int (length (memory_log l))"
  consider (follows) "k = ?n + 1" | (gap) "k > ?n + 1" | (inside) "k \<le> ?n"
    by linarith
  then show thesis
  proof cases
    case follows
    with wf news ok that(2) show thesis by (auto simp: Append_wf_follows)
  next
    case gap
    with base have "\<not> IsEmpty l" by auto
    with Append_wf_gap [OF wf this, of e es] gap ok show thesis by (simp add: n k)
  next
    case inside
    show thesis
    proof (cases "agrees_at (memory_log l) e")
      case False
      with Append_wf_conflict [OF wf, of e es] inside ok news(2) show thesis by (simp add: n k)
    next
      case True
      show thesis
      proof (cases "k - 1 + int (length news) \<le> ?n")
        case True
        with Append_wf_overlay [OF wf, of e es] \<open>agrees_at _ e\<close> inside ok news(2) that(1)
        show thesis by (auto simp: n k)
      next
        case False
        with Append_wf_overrun [OF wf, of e es] \<open>agrees_at _ e\<close> inside ok news(2)
        show thesis by (simp add: n k)
      qed
    qed
  qed
qed


lemma same_entry_sym: "same_entry a b \<longleftrightarrow> same_entry b a"
  by (auto simp: same_entry_def)

lemma Append_accepted_split:
  assumes "log_wf l" and "numbered_from k news" "1 \<le> k" "news \<noteq> []"
    and "IsEmpty l \<Longrightarrow> k = 1" and "Append_entries news l = Inr (True, l')"
  obtains pre held where "memory_log l' = pre @ held" and "length pre = nat (k - 1)"
    and "length held = length news" and "\<forall>i < length news. same_entry (news ! i) (held ! i)"
proof (rule Append_entries_accepted [OF assms])
  assume "memory_log l' = take (nat (k - 1)) (memory_log l)
           @ overlay (drop (nat (k - 1)) (memory_log l)) news"
    and "nat (k - 1) + length news \<le> length (memory_log l)"
  then show thesis
    by (intro that [of "take (nat (k - 1)) (memory_log l)"
          "overlay (drop (nat (k - 1)) (memory_log l)) news"])
      (auto simp: same_entry_sym [of "news ! _"])
next
  assume "k = int (length (memory_log l)) + 1" and "memory_log l' = memory_log l @ news"
  then show thesis by (intro that [of "memory_log l" news]) auto
qed

lemma Append_entries_wf:
  assumes "log_wf l" and "numbered_from k news" "1 \<le> k" "news \<noteq> []"
    and "IsEmpty l \<Longrightarrow> k = 1" and "Append_entries news l = Inr (ok, l')"
  shows "log_wf l'"
proof (cases ok)
  case False
  with assms(6) have "l' = l" by (auto dest: Append_entries_False)
  with assms(1) show ?thesis by simp
next
  case True
  with assms have ok: "Append_entries news l = Inr (True, l')" by simp
  show ?thesis
  proof (rule Append_entries_accepted [OF assms(1-5) ok])
    assume "memory_log l' = take (nat (k - 1)) (memory_log l)
           @ overlay (drop (nat (k - 1)) (memory_log l)) news"
      and "nat (k - 1) + length news \<le> length (memory_log l)"
    with assms(1-3) show ?thesis
      by (simp add: log_wf_def numbered_take overlay_numbered min_def)
  next
    assume "k = int (length (memory_log l)) + 1" and "memory_log l' = memory_log l @ news"
    with assms(1,2) show ?thesis by (simp add: log_wf_def algebra_simps)
  qed
qed

text \<open>After an accepted request the log ends with the last entry of the request.\<close>

lemma Append_entries_last:
  assumes "log_wf l" and "numbered_from k news" "1 \<le> k" "news \<noteq> []"
    and "IsEmpty l \<Longrightarrow> k = 1" and ok: "Append_entries news l = Inr (True, l')"
  shows "GetLastLogIndex l' = k + int (length news) - 1"
proof -
  have wf: "log_wf l'" by (rule Append_entries_wf [OF assms])
  show ?thesis
    by (rule Append_entries_accepted [OF assms]) (use wf assms(3) in \<open>auto simp: log_query\<close>)
qed

lemma Append_entry_wf: "log_wf l \<Longrightarrow> log_wf (snd (Append_entry e l))"
  by (simp add: log_wf_def Append_entry_def Let_def algebra_simps)

lemma SetLastCommitIndex_log:
  "SetLastCommitIndex c l = Inr l' \<Longrightarrow> memory_log l' = memory_log l"
  by (auto simp: SetLastCommitIndex_def split: if_splits)

lemma SetLastCommitIndex_wf: "SetLastCommitIndex c l = Inr l' \<Longrightarrow> log_wf l \<Longrightarrow> log_wf l'"
  by (simp add: log_wf_def SetLastCommitIndex_log)

lemma RemoveEntryAfter_wf: "log_wf l \<Longrightarrow> log_wf (RemoveEntryAfter i l)"
  by (auto simp: log_wf_def RemoveEntryAfter_def numbered_take split: option.splits)

lemma RemoveEntryAfter_take:
  assumes "log_wf l" and "1 \<le> i" and "i \<le> GetLastLogIndex l"
  shows "memory_log (RemoveEntryAfter i l) = take (nat (i - 1)) (memory_log l)"
  using assms numbered_find_index [of 1 "memory_log l" i]
  by (simp add: log_query RemoveEntryAfter_def log_wf_def)


section \<open>The interface the consensus code uses\<close>

text \<open>
  The consensus code never looks into the deque.  What it relies on is stated once, over
  any log with these operations: \<open>push\<close> is the leader's append, \<open>fetch\<close> finds an entry,
  \<open>suffix\<close> selects the entries a follower lacks.
\<close>

locale log_store =
  fixes entries :: "'l \<Rightarrow> entry list"
    and last_index :: "'l \<Rightarrow> int"
    and push :: "entry \<Rightarrow> 'l \<Rightarrow> entry \<times> 'l"
    and fetch :: "int \<Rightarrow> 'l \<Rightarrow> entry option"
    and suffix :: "int \<Rightarrow> 'l \<Rightarrow> entry list"
    and wf :: "'l \<Rightarrow> bool"
  assumes last_index: "wf l \<Longrightarrow> last_index l = int (length (entries l))"
    and push_entry: "wf l \<Longrightarrow> fst (push e l) = e\<lparr>e_index := last_index l + 1\<rparr>"
    and push_entries: "entries (snd (push e l)) = entries l @ [fst (push e l)]"
    and wf_push: "wf l \<Longrightarrow> wf (snd (push e l))"
    and fetch: "wf l \<Longrightarrow> fetch i l =
      (if 1 \<le> i \<and> i \<le> last_index l then Some (entries l ! nat (i - 1)) else None)"
    and suffix: "wf l \<Longrightarrow> 0 \<le> i \<Longrightarrow> suffix i l = drop (nat i) (entries l)"
    and numbered: "wf l \<Longrightarrow> numbered_from 1 (entries l)"
begin

lemma last_push: "wf l \<Longrightarrow> last_index (snd (push e l)) = last_index l + 1"
  by (simp add: last_index wf_push push_entries)

lemma fetch_push_new:
  assumes "wf l"
  shows "fetch (e_index (fst (push e l))) (snd (push e l)) = Some (fst (push e l))"
  using assms by (simp add: fetch wf_push last_push push_entry push_entries nth_append last_index)

lemma fetch_push_old:
  assumes "wf l" and "i \<le> last_index l"
  shows "fetch i (snd (push e l)) = fetch i l"
  using assms by (auto simp: fetch wf_push last_push push_entries nth_append last_index)

lemma suffix_push:
  assumes "wf l" and "0 \<le> i" and "i \<le> last_index l"
  shows "suffix i (snd (push e l)) = suffix i l @ [fst (push e l)]"
  using assms by (simp add: suffix wf_push push_entries last_index)

lemma suffix_push_new:
  assumes "wf l"
  shows "suffix (last_index l) (snd (push e l)) = [fst (push e l)]"
  using assms by (simp add: suffix wf_push push_entries last_index)

lemma suffix_all: "wf l \<Longrightarrow> 0 \<le> i \<Longrightarrow> last_index l \<le> i \<Longrightarrow> suffix i l = []"
  by (simp add: suffix last_index)

lemma suffix_numbered:
  assumes "wf l" and "0 \<le> i"
  shows "numbered_from (i + 1) (suffix i l)"
proof (cases "i \<le> last_index l")
  case True
  with assms have "numbered_from (1 + int (nat i)) (drop (nat i) (entries l))"
    by (intro numbered_drop numbered) (simp_all add: last_index)
  with assms show ?thesis by (simp add: suffix algebra_simps)
qed (use assms in \<open>simp add: suffix_all\<close>)

lemma fetch_index: "wf l \<Longrightarrow> fetch i l = Some e \<Longrightarrow> e_index e = i"
  using numbered_nth [OF numbered, of l "nat (i - 1)"]
  by (auto simp: fetch last_index split: if_splits)

end

text \<open>A follower's log also takes a leader's entries.\<close>

locale follower_log = log_store +
  fixes extend :: "entry list \<Rightarrow> 'a \<Rightarrow> (bool \<times> 'a) outcome"
  assumes extend_follows: "wf l \<Longrightarrow> news \<noteq> [] \<Longrightarrow> numbered_from (last_index l + 1) news \<Longrightarrow>
      \<exists>l'. extend news l = Inr (True, l') \<and> wf l' \<and> entries l' = entries l @ news"
    and extend_inside: "wf l \<Longrightarrow> news \<noteq> [] \<Longrightarrow> numbered_from k news \<Longrightarrow> 1 \<le> k \<Longrightarrow>
      k + int (length news) \<le> last_index l + 1 \<Longrightarrow> agrees_at (entries l) (hd news) \<Longrightarrow>
      \<exists>l'. extend news l = Inr (True, l') \<and> wf l' \<and>
        entries l' = take (nat (k - 1)) (entries l) @ overlay (drop (nat (k - 1)) (entries l)) news"
begin

text \<open>A follower that holds a prefix of the leader's log catches up in one request.\<close>

lemma catch_up:
  assumes "wf leader" and "wf follower"
    and prefix: "entries follower = take n (entries leader)" and "n < length (entries leader)"
  shows "\<exists>l'. extend (suffix (int n) leader) follower = Inr (True, l') \<and> wf l' \<and>
    entries l' = entries leader"
proof -
  have n: "last_index follower = int n"
    using assms by (simp add: last_index)
  have "suffix (int n) leader \<noteq> []"
    using assms by (simp add: suffix)
  moreover have "numbered_from (last_index follower + 1) (suffix (int n) leader)"
    using assms(1) by (simp add: n suffix_numbered)
  ultimately have "\<exists>l'. extend (suffix (int n) leader) follower = Inr (True, l') \<and> wf l' \<and>
      entries l' = entries follower @ suffix (int n) leader"
    using assms(2) by (intro extend_follows) auto
  with assms(1) prefix show ?thesis by (simp add: suffix)
qed

text \<open>
  A request that repeats the end of the log, as a retransmission does, is accepted and
  changes nothing.
\<close>

lemma re_delivery:
  assumes "wf l" and "news \<noteq> []" and "numbered_from k news" and "1 \<le> k"
    and "entries l = take (nat (k - 1)) (entries l) @ news" and "k \<le> last_index l + 1"
  shows "\<exists>l'. extend news l = Inr (True, l') \<and> wf l' \<and> entries l' = entries l"
proof -
  let ?p = "nat (k - 1)"
  have p: "?p \<le> length (entries l)"
    using assms(1,4,6) by (simp add: last_index)
  have news: "drop ?p (entries l) = news"
    by (subst assms(5)) (use p in simp)
  have len: "k + int (length news) \<le> last_index l + 1"
    using arg_cong [OF assms(5), of length] assms(1,4) p by (simp add: last_index)
  have "hd news = entries l ! ?p"
    using assms(2) news by (metis drop_all hd_drop_conv_nth not_le)
  moreover have "e_index (hd news) = k"
    using assms(2,3) by (cases news) auto
  ultimately have "agrees_at (entries l) (hd news)"
    by (simp add: agrees_at_def)
  from extend_inside [OF assms(1-4) len this] obtain l'
    where l': "extend news l = Inr (True, l')" "wf l'"
      "entries l' = take ?p (entries l) @ overlay (drop ?p (entries l)) news"
    by blast
  have "overlay news news = news"
    by (rule nth_equalityI) (auto simp: overlay_entry_def)
  with l' news assms(5) show ?thesis by simp
qed

end

lemma Append_entry_entries:
  "memory_log (snd (Append_entry e l)) = memory_log l @ [fst (Append_entry e l)]"
  by (simp add: Append_entry_def Let_def)

interpretation raft_log: follower_log
  memory_log GetLastLogIndex Append_entry GetEntry GetEntriesStartAt log_wf Append_entries
proof (unfold_locales, goal_cases)
  case (8 l news)
  then have "Append_entries news l = Inr (True, l\<lparr>memory_log := memory_log l @ news\<rparr>)"
    by (intro Append_wf_follows) (simp_all add: log_query)
  with 8 show ?case by (auto simp: log_wf_def GetLastLogIndex_wf algebra_simps)
next
  case (9 l news k)
  then obtain e es where news: "news = e # es" by (cases news) auto
  from 9 have "Append_entries news l = Inr (True, l\<lparr>memory_log := take (nat (k - 1)) (memory_log l)
           @ overlay (drop (nat (k - 1)) (memory_log l)) news\<rparr>)"
    using Append_wf_overlay [of l e es] by (simp add: news log_query)
  moreover have "log_wf (l\<lparr>memory_log := take (nat (k - 1)) (memory_log l)
           @ overlay (drop (nat (k - 1)) (memory_log l)) news\<rparr>)"
    using 9 by (simp add: log_wf_def log_query numbered_take overlay_numbered min_def)
  ultimately show ?case by auto
qed (auto simp: log_query Append_entry_wf Append_entry_entries log_wf_def Append_entry_def Let_def)


section \<open>Properties of the log\<close>

text \<open>
  What \<open>Append\<close> promises, over plain lists of entries: a request behind the log is
  appended, a request that leaves a gap or contradicts the local entry at its first index
  is refused, and a request inside the log overlays it and becomes its end.  \<open>None\<close>
  stands for the request that starts inside the log and ends beyond it.
\<close>

definition append_spec :: "entry list \<Rightarrow> entry list \<Rightarrow> (bool \<times> entry list) option" where
  "append_spec log news =
     (let p = nat (e_index (hd news) - 1) in
      if log = [] \<or> p = length log then Some (True, log @ news)
      else if length log < p \<or> \<not> agrees_at log (hd news) then Some (False, log)
      else if p + length news \<le> length log then Some (True, take p log @ overlay (drop p log) news)
      else None)"

lemma append_refines:
  assumes "log_wf l" and "numbered_from k news" and "1 \<le> k" and "news \<noteq> []"
  shows "Append_entries news l =
    (case append_spec (memory_log l) news of
       None \<Rightarrow> Inl Invalid_iterator
     | Some (ok, log') \<Rightarrow> Inr (ok, l\<lparr>memory_log := log'\<rparr>))"
proof -
  obtain e es where n: "news = e # es" using assms(4) by (cases news) auto
  then have k: "e_index e = k" using assms(2) by simp
  let ?n = "length (memory_log l)"
  consider "memory_log l = []" | "memory_log l \<noteq> []" "k = int ?n + 1"
    | "memory_log l \<noteq> []" "k > int ?n + 1" | "k \<le> int ?n" "\<not> agrees_at (memory_log l) e"
    | "k \<le> int ?n" "agrees_at (memory_log l) e" "k - 1 + int (length news) \<le> int ?n"
    | "k \<le> int ?n" "agrees_at (memory_log l) e" "int ?n < k - 1 + int (length news)"
    by linarith
  then show ?thesis
  proof cases
    case 1
    then show ?thesis by (simp add: append_spec_def Let_def Append_entries_empty)
  next
    case 2
    with assms show ?thesis
      using Append_wf_follows [of l news] by (simp add: append_spec_def Let_def n k)
  next
    case 3
    with assms have "Append_entries (e # es) l = Inr (False, l)"
      by (intro Append_wf_gap) (simp_all add: k IsEmpty_def)
    moreover from 3 have "length (memory_log l) < nat (k - 1)" by linarith
    ultimately show ?thesis using 3 by (auto simp: append_spec_def Let_def n k)
  next
    case 4
    with assms Append_wf_conflict [of l e es] show ?thesis
      by (auto simp: append_spec_def Let_def n k)
  next
    case 5
    with assms Append_wf_overlay [of l e es] show ?thesis
      by (auto simp: append_spec_def Let_def n k)
  next
    case 6
    with assms Append_wf_overrun [of l e es] show ?thesis
      by (auto simp: append_spec_def Let_def n k)
  qed
qed

text \<open>
  C2. On a numbered log and for a numbered, non-empty request, \<open>LogManager::Append\<close> refines
  \<open>append_spec\<close>: all five outcomes of the C++ code, undefined behaviour included, are those
  of the specification, and nothing but the deque changes.
\<close>

theorem append_refines_spec:
  assumes "log_wf l" and "numbered_from k news" and "1 \<le> k" and "news \<noteq> []"
  shows "Append_entries news l =
    (case append_spec (memory_log l) news of
       None \<Rightarrow> Inl Invalid_iterator
     | Some (ok, log') \<Rightarrow> Inr (ok, l\<lparr>memory_log := log'\<rparr>))"
  by (rule append_refines [OF assms])

definition sample_entry :: "int \<Rightarrow> int \<Rightarrow> entry" where
  "sample_entry t i = \<lparr>e_term = t, e_index = i, e_op = kMkdir, e_value = ''/d''\<rparr>"

definition sample_log :: log_manager where
  "sample_log = \<lparr>memory_log = [sample_entry 1 1, sample_entry 1 2, sample_entry 2 3],
     last_commited_index = 1\<rparr>"

lemma sample_log_wf: "log_wf sample_log"
  by (simp add: log_wf_def sample_log_def sample_entry_def)

theorem append_refines_spec_witness:
  "Append_entries [sample_entry 1 2, sample_entry 3 3] sample_log =
     Inr (True, sample_log\<lparr>memory_log := [sample_entry 1 1, sample_entry 1 2, sample_entry 3 3]\<rparr>)"
proof -
  have "append_spec (memory_log sample_log) [sample_entry 1 2, sample_entry 3 3] =
      Some (True, [sample_entry 1 1, sample_entry 1 2, sample_entry 3 3])"
    by (simp add: append_spec_def sample_log_def sample_entry_def agrees_at_def overlay_def
        overlay_entry_def same_entry_def)
  then show ?thesis
    using append_refines_spec [OF sample_log_wf, of 2 "[sample_entry 1 2, sample_entry 3 3]"]
    by (simp add: sample_entry_def)
qed


text \<open>
  Retransmission is harmless: when \<open>Append\<close> has accepted a request, the same request
  sent again is accepted and leaves the log exactly as it is.
\<close>

theorem append_idempotent:
  assumes "log_wf l" and "numbered_from k news" and "1 \<le> k" and "news \<noteq> []"
    and base: "IsEmpty l \<Longrightarrow> k = 1" and ok: "Append_entries news l = Inr (True, l')"
  shows "Append_entries news l' = Inr (True, l')"
proof -
  obtain e es where n: "news = e # es" using assms(4) by (cases news) auto
  then have k: "e_index e = k" using assms(2) by simp
  have wf: "log_wf l'" by (rule Append_entries_wf [OF assms])
  obtain pre held where l': "memory_log l' = pre @ held" "length pre = nat (k - 1)"
    and held: "length held = length news" "\<forall>i < length news. same_entry (news ! i) (held ! i)"
    by (rule Append_accepted_split [OF assms])
  have "overlay held news = held"
    using held by (intro nth_equalityI) (auto simp: overlay_entry_def)
  moreover have "held ! 0 = memory_log l' ! nat (k - 1)"
    using l' by (simp add: nth_append)
  then have "agrees_at (memory_log l') e"
    using held n by (auto simp: agrees_at_def k same_entry_def)
  ultimately show ?thesis
    using Append_wf_overlay [OF wf, of e es] l' held assms(3) by (simp add: n k)
qed

theorem append_idempotent_witness:
  "Append_entries [sample_entry 3 4] (sample_log\<lparr>memory_log := memory_log sample_log @ [sample_entry 3 4]\<rparr>) =
     Inr (True, sample_log\<lparr>memory_log := memory_log sample_log @ [sample_entry 3 4]\<rparr>)"
  by (rule append_idempotent [OF sample_log_wf, where k = 4])
    (simp_all add: Append_entries_def sample_log_def sample_entry_def IsEmpty_def)

text \<open>
  The binary search of \<open>GetEntriesStartAt\<close> selects exactly the entries with a larger
  index, in order: on a numbered log it agrees with the plain filter, for every start
  index a leader can ask for.
\<close>

theorem entries_start_at_filter:
  assumes "log_wf l" and "0 \<le> i"
  shows "GetEntriesStartAt i l = filter (\<lambda>e. i < e_index e) (memory_log l)"
  using assms numbered_filter_above [of 1 "memory_log l" i]
  by (simp add: log_query log_wf_def)

theorem entries_start_at_filter_witness:
  "GetEntriesStartAt 1 sample_log = [sample_entry 1 2, sample_entry 2 3]"
  using entries_start_at_filter [OF sample_log_wf, of 1]
  by (simp add: sample_log_def sample_entry_def)

text \<open>
  Replication: if a follower's log holds the first \<open>n\<close> entries of the leader's, the
  entries the leader selects above \<open>n\<close> are accepted by the follower's \<open>Append\<close>, and
  then the two logs hold the same entries.
\<close>

theorem follower_catches_up:
  assumes "log_wf leader" and "log_wf follower"
    and "memory_log follower = take n (memory_log leader)" and "n < length (memory_log leader)"
  shows "\<exists>l'. Append_entries (GetEntriesStartAt (int n) leader) follower = Inr (True, l') \<and>
    log_wf l' \<and> memory_log l' = memory_log leader"
  by (rule raft_log.catch_up [OF assms])

theorem follower_catches_up_witness:
  "\<exists>l'. Append_entries (GetEntriesStartAt 1 sample_log)
      (sample_log\<lparr>memory_log := [sample_entry 1 1]\<rparr>) = Inr (True, l') \<and>
    log_wf l' \<and> memory_log l' = memory_log sample_log"
  using follower_catches_up [OF sample_log_wf,
      of "sample_log\<lparr>memory_log := [sample_entry 1 1]\<rparr>" 1]
  by (simp add: sample_log_def sample_entry_def log_wf_def)

text \<open>
  Every operation that changes the log keeps it numbered 1, 2, 3, and so on: the
  leader's append, a follower's append of a numbered request that does not skip the start
  of an empty log, the removal of a suffix and the commit.
\<close>

theorem log_operations_keep_numbering:
  assumes "log_wf l"
  shows "(\<forall>e. log_wf (snd (Append_entry e l))) \<and>
    (\<forall>k news ok l'. numbered_from k news \<and> 1 \<le> k \<and> news \<noteq> [] \<and> (IsEmpty l \<longrightarrow> k = 1) \<and>
       Append_entries news l = Inr (ok, l') \<longrightarrow> log_wf l') \<and>
    (\<forall>i. log_wf (RemoveEntryAfter i l)) \<and>
    (\<forall>c l'. SetLastCommitIndex c l = Inr l' \<longrightarrow> log_wf l')"
  using assms by (auto intro: Append_entry_wf Append_entries_wf RemoveEntryAfter_wf SetLastCommitIndex_wf)

theorem log_operations_keep_numbering_witness:
  "log_wf (snd (Append_entry (sample_entry 2 0) sample_log)) \<and>
   log_wf (RemoveEntryAfter 2 sample_log) \<and>
   log_wf (sample_log\<lparr>memory_log := memory_log sample_log @ [sample_entry 3 4]\<rparr>) \<and>
   log_wf (sample_log\<lparr>last_commited_index := 3\<rparr>)"
proof -
  let ?l = "sample_log\<lparr>memory_log := memory_log sample_log @ [sample_entry 3 4]\<rparr>"
  have "numbered_from 4 [sample_entry 3 4]" and "\<not> IsEmpty sample_log"
    and "Append_entries [sample_entry 3 4] sample_log = Inr (True, ?l)"
    and "SetLastCommitIndex 3 sample_log = Inr (sample_log\<lparr>last_commited_index := 3\<rparr>)"
    by (simp_all add: Append_entries_def SetLastCommitIndex_def sample_log_def sample_entry_def IsEmpty_def)
  with log_operations_keep_numbering [OF sample_log_wf] show ?thesis
    by (metis list.discI one_le_numeral)
qed

lemma SetLastCommitIndex_bounded:
  "SetLastCommitIndex c l =
     (if IsEmpty l then Inl Back_of_empty
      else Inr (l\<lparr>last_commited_index :=
        (if c \<le> GetLastLogIndex l then c else GetLastCommitIndex l)\<rparr>))"
  by (simp add: log_defs)

text \<open>
  The overlay drops entries behind the request that agree with the leader, so an older
  request that arrives late removes entries below the commit index: a numbered log whose
  commit index is in the log accepts a request of entries that it holds already, and ends
  below its commit index.
\<close>

theorem overlay_drops_committed:
  "\<exists>l news l'. log_wf l \<and> last_commited_index l \<le> GetLastLogIndex l \<and>
     numbered_from 1 news \<and> set news \<subseteq> set (memory_log l) \<and>
     Append_entries news l = Inr (True, l') \<and> GetLastLogIndex l' < last_commited_index l'"
proof (intro exI conjI)
  let ?l = "\<lparr>memory_log = [sample_entry 1 1, sample_entry 1 2], last_commited_index = 2\<rparr>"
  show "Append_entries [sample_entry 1 1] ?l = Inr (True, ?l\<lparr>memory_log := [sample_entry 1 1]\<rparr>)"
    by (simp add: Append_entries_def sample_entry_def same_entry_def erase_rest_def)
qed (simp_all add: sample_entry_def log_wf_def GetLastLogIndex_def)

end
