(* ===== verification/Raft_Consensus.thy ===== *)
theory Raft_Consensus
  imports Log_Manager
begin

text \<open>
  The consensus state of one server, \<open>RaftConsensus\<close> of \<open>server/RaftConsensus.h\<close> and
  \<open>.cpp\<close>: its fields, the role changes, the handlers of the two Raft calls and of the
  client's metadata operations.  The loops that run on the threads of the server are in
  theory \<open>Raft_Threads\<close>.

  Every handler runs under the mutex \<open>m\<close>, so it is one function from state to state.
  What it reads from outside is an argument: a \<open>tick\<close> is one reading of the clock with
  one draw from the random distribution.
\<close>

section \<open>State\<close>

datatype role = kFollower | kCandidate | kLeader

record remote_host =
  r_id :: int
  r_host :: string
  r_next_index :: int
  r_match_index :: int

text \<open>
  \<open>remotes\<close> is the \<open>std::map\<close> from host ids to hosts as an association list in key
  order.  \<open>pending_entries\<close> is only accessed with \<open>operator[]\<close>, which inserts an empty set
  for an absent key, so an absent key and an empty set cannot be told apart and the map
  is a total function.  \<open>next_election\<close> is in milliseconds.
\<close>

record raft =
  self_id :: int
  self_name :: string
  remotes :: "(int \<times> remote_host) list"
  current_term :: int
  vote_for :: "int \<rightharpoonup> int"
  vote_pool :: "int set"
  quorum_size :: int
  leader_id :: int
  current_role :: role
  next_election :: int
  raft_log :: log_manager
  pending_entries :: "int \<Rightarrow> int set"

record tick =
  t_now :: int
  t_delay :: int

text \<open>The distribution of \<open>PostponeElection\<close> draws from 500 to 1000 milliseconds.\<close>

definition tick_ok :: "tick \<Rightarrow> bool" where
  "tick_ok t \<longleftrightarrow> 500 \<le> t_delay t \<and> t_delay t \<le> 1000"

definition GetTerm :: "raft \<Rightarrow> int" where
  "GetTerm st = current_term st"

definition GetLeader :: "raft \<Rightarrow> int" where
  "GetLeader st = leader_id st"

definition IsLeader :: "raft \<Rightarrow> bool" where
  "IsLeader st \<longleftrightarrow> current_role st = kLeader"

definition IsFollower :: "raft \<Rightarrow> bool" where
  "IsFollower st \<longleftrightarrow> current_role st = kFollower"

text \<open>The ids of the other servers: the keys of \<open>remotes\<close>.\<close>

definition peer_ids :: "raft \<Rightarrow> int set" where
  "peer_ids st = fst ` set (remotes st)"

lemma finite_peer_ids [simp]: "finite (peer_ids st)"
  by (simp add: peer_ids_def)

lemma peer_ids_eq: "map fst (remotes st') = map fst (remotes st) \<Longrightarrow> peer_ids st' = peer_ids st"
  by (metis peer_ids_def set_map)

text \<open>
  The methods of \<open>RemoteHost\<close> that the consensus code uses.  Its constructor sets
  \<open>match_index\<close> and leaves \<open>next_index\<close> uninitialised: \<open>junk\<close> is whatever value it has.
\<close>

definition new_RemoteHost :: "int \<Rightarrow> string \<Rightarrow> int \<Rightarrow> remote_host" where
  "new_RemoteHost i host_name junk =
     \<lparr>r_id = i, r_host = host_name, r_next_index = junk, r_match_index = -1\<rparr>"

definition GetNextIndex :: "int \<Rightarrow> raft \<Rightarrow> int" where
  "GetNextIndex i st = (case map_of (remotes st) i of None \<Rightarrow> 0 | Some r \<Rightarrow> r_next_index r)"

definition ResetNextIndex :: "int \<Rightarrow> int \<Rightarrow> raft \<Rightarrow> raft" where
  "ResetNextIndex i new_index st =
     st\<lparr>remotes := map (\<lambda>(k, r). (k, if k = i then r\<lparr>r_next_index := new_index\<rparr> else r)) (remotes st)\<rparr>"

section \<open>Role changes\<close>

definition PostponeElection :: "tick \<Rightarrow> raft \<Rightarrow> raft" where
  "PostponeElection t st = st\<lparr>next_election := t_now t + t_delay t\<rparr>"

text \<open>
  The constructor: \<open>hosts\<close> is the map of \<open>Options::GetHosts\<close>, the other servers by id.
\<close>

definition new_raft :: "tick \<Rightarrow> (int \<Rightarrow> int) \<Rightarrow> int \<Rightarrow> string \<Rightarrow> (int \<times> string) list \<Rightarrow> raft" where
  "new_raft t junk self name hosts =
     PostponeElection t
       \<lparr>self_id = self, self_name = name,
        remotes = map (\<lambda>(i, h). (i, new_RemoteHost i h (junk i))) hosts,
        current_term = 0, vote_for = Map.empty, vote_pool = {},
        quorum_size = (int (length hosts) + 1) div 2 + 1,
        leader_id = -1, current_role = kFollower, next_election = t_now t,
        raft_log = new_log, pending_entries = (\<lambda>_. {})\<rparr>"

definition StartLeaderElection :: "raft \<Rightarrow> raft" where
  "StartLeaderElection st =
     (let term' = current_term st + 1;
          st1 = st\<lparr>current_term := term', current_role := kCandidate, leader_id := -1,
                  vote_pool := {}\<rparr>
      in if vote_for st1 term' = None
         then st1\<lparr>vote_for := (vote_for st1)(term' \<mapsto> self_id st1),
                  vote_pool := insert (self_id st1) (vote_pool st1)\<rparr>
         else st1)"

definition ChangeToLeader :: "raft \<Rightarrow> raft" where
  "ChangeToLeader st =
     (let next_index = GetLastLogIndex (raft_log st) + 1
      in st\<lparr>current_role := kLeader, leader_id := self_id st,
            remotes := map (\<lambda>(k, r). (k, r\<lparr>r_next_index := next_index\<rparr>)) (remotes st)\<rparr>)"

definition ChangeToFollower :: "tick \<Rightarrow> int \<Rightarrow> raft \<Rightarrow> raft" where
  "ChangeToFollower t new_term st =
     (let st1 = (if current_role st = kCandidate then st\<lparr>vote_pool := {}\<rparr> else st)
      in PostponeElection t (st1\<lparr>current_role := kFollower, current_term := new_term, leader_id := -1\<rparr>))"


section \<open>The AppendEntries handler\<close>

text \<open>
  \<open>OnAppendEntries\<close> in the order of its source: the term check with the first tick for
  its own \<open>PostponeElection\<close> and the second for the one in \<open>ChangeToFollower\<close>, the work on
  the log, the commit index, and the debug print, which is compiled in
  (\<open>ENABLE_DBG_OUTPUT\<close> is 1) and reads the log's last entry.
\<close>

definition ae_adopt_term :: "tick \<Rightarrow> tick \<Rightarrow> ae_request \<Rightarrow> raft \<Rightarrow> raft" where
  "ae_adopt_term t1 t2 req st =
     (let st1 = PostponeElection t1 st
      in if ae_term req > current_term st1
            \<or> (current_role st1 = kCandidate \<and> ae_term req \<ge> current_term st1)
         then (ChangeToFollower t2 (ae_term req) st1)\<lparr>leader_id := ae_leader_id req\<rparr>
         else st1)"

definition ae_learn_leader :: "ae_request \<Rightarrow> raft \<Rightarrow> raft" where
  "ae_learn_leader req st =
     (if leader_id st = -1 then st\<lparr>leader_id := ae_leader_id req\<rparr> else st)"

text \<open>The log work: the success flag, the optional last log index of the reply, the log.\<close>

definition ae_append ::
  "ae_request \<Rightarrow> log_manager \<Rightarrow> (bool \<times> int option \<times> log_manager) outcome" where
  "ae_append req l =
     (if GetLastLogIndex l \<ge> ae_prev_log_index req
      then (if ae_entries req \<noteq> []
            then and_then (Append_entries (ae_entries req) l) (\<lambda>(ok, l'). Inr (ok, None, l'))
            else Inr (True, None, l))
      else Inr (False, Some (GetLastLogIndex l), l))"

definition ae_commit :: "ae_request \<Rightarrow> log_manager \<Rightarrow> log_manager outcome" where
  "ae_commit req l =
     (if ae_leader_commit_index req > GetLastCommitIndex l
      then SetLastCommitIndex (ae_leader_commit_index req) l
      else Inr l)"

definition ae_debug_print :: "ae_request \<Rightarrow> log_manager \<Rightarrow> entry list outcome" where
  "ae_debug_print req l = (if ae_entries req \<noteq> [] then print_log l else Inr [])"

definition OnAppendEntries ::
  "tick \<Rightarrow> tick \<Rightarrow> ae_request \<Rightarrow> raft \<Rightarrow> (raft \<times> ae_response) outcome" where
  "OnAppendEntries t1 t2 req st =
     (let resp = default_ae_response\<lparr>aer_term := current_term st\<rparr>
      in if current_term st > ae_term req then Inr (st, resp)
         else
           let st2 = ae_learn_leader req (ae_adopt_term t1 t2 req st)
           in and_then (ae_append req (raft_log st2)) (\<lambda>(success, last_index, l).
              and_then (ae_commit req l) (\<lambda>l'.
              and_then (ae_debug_print req l') (\<lambda>_.
              Inr (st2\<lparr>raft_log := l'\<rparr>,
                   resp\<lparr>aer_success := success,
                        aer_last_log_index :=
                          (if success then Some (GetLastLogIndex l') else last_index)\<rparr>)))))"


section \<open>The RequestVote handler\<close>

definition OnRequestVote :: "tick \<Rightarrow> tick \<Rightarrow> rv_request \<Rightarrow> raft \<Rightarrow> raft \<times> rv_response" where
  "OnRequestVote t1 t2 req st =
     (let (last_term, last_index) = GetLastLogTermAndIndex (raft_log st);
          st1 = (if rv_term req > current_term st then ChangeToFollower t1 (rv_term req) st else st);
          grant = (last_index \<le> rv_last_log_index req \<and> last_term \<le> rv_last_log_term req
                   \<and> (vote_for st1 (rv_term req) = None
                      \<or> vote_for st1 (rv_term req) = Some (rv_candidate_id req)));
          st2 = (if grant
                 then (let st' = st1\<lparr>vote_for := (vote_for st1)(rv_term req \<mapsto> rv_candidate_id req)\<rparr>
                       in if rv_term req = current_term st' then PostponeElection t2 st' else st')
                 else st1)
      in (st2, \<lparr>rvr_term = current_term st2, rvr_vote_granted = grant\<rparr>))"


section \<open>Metadata operations of clients\<close>

text \<open>
  \<open>OnMetaOperation\<close> appends an entry to the local log and waits for up to two seconds until
  the commit index has reached it.  While it waits it holds none of the consensus locks:
  \<open>others\<close> gives the states that the other threads bring the object through until the last test
  of the wait, one for each of their operations, in order.  The test reads the index of the
  entry through the pointer that the log shares, and the log frees an entry that it replaces or
  erases: \<open>entry_alive\<close> says that an operation has left the entry in its place.  An operation
  replaces an entry only by one of another term.
\<close>

definition meta_entry :: "meta_op \<Rightarrow> string \<Rightarrow> raft \<Rightarrow> entry" where
  "meta_entry op path st = \<lparr>e_term = current_term st, e_index = 0, e_op = op, e_value = path\<rparr>"

definition meta_append :: "meta_op \<Rightarrow> string \<Rightarrow> raft \<Rightarrow> entry \<times> raft" where
  "meta_append op path st =
     (let (e, l) = Append_entry (meta_entry op path st) (raft_log st)
      in (e, st\<lparr>raft_log := l\<rparr>))"

definition entry_alive :: "entry \<Rightarrow> raft \<Rightarrow> bool" where
  "entry_alive e st \<longleftrightarrow> e_index e \<le> Size (raft_log st) \<and>
     same_entry (memory_log (raft_log st) ! nat (e_index e - 1)) e"

definition OnMetaOperation ::
  "meta_op \<Rightarrow> string \<Rightarrow> (raft \<Rightarrow> raft list) \<Rightarrow> raft \<Rightarrow> (raft \<times> status) outcome" where
  "OnMetaOperation op path others st =
     (if leader_id st = -1 then Inr (st, kNoLeader)
      else
        let (e, st1) = meta_append op path st;
            waits = others st1;
            st2 = last (st1 # waits)
        in if list_all (entry_alive e) waits
           then Inr (st2, if e_index e \<le> GetLastCommitIndex (raft_log st2) then kOK else kTimeout)
           else Inl Dangling_pointer)"

definition ChangeLeaderID :: "int \<Rightarrow> raft \<Rightarrow> raft" where
  "ChangeLeaderID newid st = st\<lparr>leader_id := newid\<rparr>"

definition OnInjectTestCase :: "int \<Rightarrow> raft \<Rightarrow> status" where
  "OnInjectTestCase type st = kOK"

text \<open>\<open>RaftRPCService\<close> forwards the two calls of \<open>Raft.thrift\<close> to the consensus state.\<close>

definition RequestVote :: "tick \<Rightarrow> tick \<Rightarrow> rv_request \<Rightarrow> raft \<Rightarrow> raft \<times> rv_response" where
  "RequestVote = OnRequestVote"

definition AppendEntries ::
  "tick \<Rightarrow> tick \<Rightarrow> ae_request \<Rightarrow> raft \<Rightarrow> (raft \<times> ae_response) outcome" where
  "AppendEntries = OnAppendEntries"


section \<open>What the operations leave alone\<close>

text \<open>
  Frame facts: which fields an operation writes.  Every proof about a handler starts from
  these, so they form one collection of simplification rules.
\<close>

named_theorems raft_frame "fields that an operation leaves unchanged, or what it stores there"

lemma PostponeElection_frame [raft_frame]:
  "self_id (PostponeElection t st) = self_id st"
  "remotes (PostponeElection t st) = remotes st"
  "current_term (PostponeElection t st) = current_term st"
  "vote_for (PostponeElection t st) = vote_for st"
  "vote_pool (PostponeElection t st) = vote_pool st"
  "quorum_size (PostponeElection t st) = quorum_size st"
  "leader_id (PostponeElection t st) = leader_id st"
  "current_role (PostponeElection t st) = current_role st"
  "raft_log (PostponeElection t st) = raft_log st"
  "pending_entries (PostponeElection t st) = pending_entries st"
  "next_election (PostponeElection t st) = t_now t + t_delay t"
  by (simp_all add: PostponeElection_def)

lemma ResetNextIndex_frame [raft_frame]:
  "self_id (ResetNextIndex i n st) = self_id st"
  "map fst (remotes (ResetNextIndex i n st)) = map fst (remotes st)"
  "current_term (ResetNextIndex i n st) = current_term st"
  "vote_for (ResetNextIndex i n st) = vote_for st"
  "vote_pool (ResetNextIndex i n st) = vote_pool st"
  "quorum_size (ResetNextIndex i n st) = quorum_size st"
  "leader_id (ResetNextIndex i n st) = leader_id st"
  "current_role (ResetNextIndex i n st) = current_role st"
  "raft_log (ResetNextIndex i n st) = raft_log st"
  "pending_entries (ResetNextIndex i n st) = pending_entries st"
  "next_election (ResetNextIndex i n st) = next_election st"
  by (auto simp: ResetNextIndex_def)

lemma ChangeToLeader_frame [raft_frame]:
  "self_id (ChangeToLeader st) = self_id st"
  "map fst (remotes (ChangeToLeader st)) = map fst (remotes st)"
  "current_term (ChangeToLeader st) = current_term st"
  "vote_for (ChangeToLeader st) = vote_for st"
  "vote_pool (ChangeToLeader st) = vote_pool st"
  "quorum_size (ChangeToLeader st) = quorum_size st"
  "leader_id (ChangeToLeader st) = self_id st"
  "current_role (ChangeToLeader st) = kLeader"
  "raft_log (ChangeToLeader st) = raft_log st"
  "pending_entries (ChangeToLeader st) = pending_entries st"
  by (auto simp: ChangeToLeader_def Let_def)

lemma ChangeToFollower_frame [raft_frame]:
  "self_id (ChangeToFollower t n st) = self_id st"
  "remotes (ChangeToFollower t n st) = remotes st"
  "current_term (ChangeToFollower t n st) = n"
  "vote_for (ChangeToFollower t n st) = vote_for st"
  "vote_pool (ChangeToFollower t n st) = (if current_role st = kCandidate then {} else vote_pool st)"
  "quorum_size (ChangeToFollower t n st) = quorum_size st"
  "leader_id (ChangeToFollower t n st) = -1"
  "current_role (ChangeToFollower t n st) = kFollower"
  "raft_log (ChangeToFollower t n st) = raft_log st"
  "pending_entries (ChangeToFollower t n st) = pending_entries st"
  by (simp_all add: ChangeToFollower_def Let_def raft_frame)

lemma StartLeaderElection_frame [raft_frame]:
  "self_id (StartLeaderElection st) = self_id st"
  "remotes (StartLeaderElection st) = remotes st"
  "current_term (StartLeaderElection st) = current_term st + 1"
  "quorum_size (StartLeaderElection st) = quorum_size st"
  "leader_id (StartLeaderElection st) = -1"
  "current_role (StartLeaderElection st) = kCandidate"
  "raft_log (StartLeaderElection st) = raft_log st"
  "pending_entries (StartLeaderElection st) = pending_entries st"
  by (simp_all add: StartLeaderElection_def Let_def)

lemma StartLeaderElection_votes:
  "vote_for (StartLeaderElection st) =
     (case vote_for st (current_term st + 1) of
        None \<Rightarrow> (vote_for st)(current_term st + 1 \<mapsto> self_id st) | Some _ \<Rightarrow> vote_for st)"
  "vote_pool (StartLeaderElection st) =
     (case vote_for st (current_term st + 1) of None \<Rightarrow> {self_id st} | Some _ \<Rightarrow> {})"
  by (simp_all add: StartLeaderElection_def Let_def split: option.splits)

text \<open>The stored next index of one host, as a look-up after the update.\<close>

lemma map_of_reset:
  "map_of (map (\<lambda>(k, r). (k, if k = i then f r else r)) rs) j =
     (if j = i then map_option f (map_of rs j) else map_of rs j)"
  by (induction rs) auto

lemma in_keys_iff: "i \<in> fst ` set rs \<longleftrightarrow> map_of rs i \<noteq> None"
  by (simp add: map_of_eq_None_iff)

lemma GetNextIndex_Reset:
  "GetNextIndex j (ResetNextIndex i n st) =
     (if j = i \<and> i \<in> fst ` set (remotes st) then n else GetNextIndex j st)"
  by (auto simp: GetNextIndex_def ResetNextIndex_def map_of_reset in_keys_iff
      split: option.splits)

lemma map_of_reset_all:
  "map_of (map (\<lambda>(k, r). (k, f r)) rs) j = map_option f (map_of rs j)"
  by (induction rs) auto

lemma GetNextIndex_ChangeToLeader:
  "i \<in> fst ` set (remotes st) \<Longrightarrow>
   GetNextIndex i (ChangeToLeader st) = GetLastLogIndex (raft_log st) + 1"
  by (auto simp: GetNextIndex_def ChangeToLeader_def Let_def map_of_reset_all in_keys_iff
      split: option.splits)

lemma ae_adopt_term_frame [raft_frame]:
  "self_id (ae_adopt_term t1 t2 req st) = self_id st"
  "remotes (ae_adopt_term t1 t2 req st) = remotes st"
  "vote_for (ae_adopt_term t1 t2 req st) = vote_for st"
  "quorum_size (ae_adopt_term t1 t2 req st) = quorum_size st"
  "raft_log (ae_adopt_term t1 t2 req st) = raft_log st"
  "pending_entries (ae_adopt_term t1 t2 req st) = pending_entries st"
  by (simp_all add: ae_adopt_term_def Let_def raft_frame)

lemma ae_learn_leader_frame [raft_frame]:
  "self_id (ae_learn_leader req st) = self_id st"
  "remotes (ae_learn_leader req st) = remotes st"
  "current_term (ae_learn_leader req st) = current_term st"
  "vote_for (ae_learn_leader req st) = vote_for st"
  "vote_pool (ae_learn_leader req st) = vote_pool st"
  "quorum_size (ae_learn_leader req st) = quorum_size st"
  "current_role (ae_learn_leader req st) = current_role st"
  "raft_log (ae_learn_leader req st) = raft_log st"
  "pending_entries (ae_learn_leader req st) = pending_entries st"
  "next_election (ae_learn_leader req st) = next_election st"
  by (simp_all add: ae_learn_leader_def)

text \<open>
  The state after the term check of an accepted request: the higher term is adopted, and
  a candidate steps down even for its own term.
\<close>

lemma ae_adopt_term_role:
  "current_role (ae_adopt_term t1 t2 req st) =
     (if ae_term req > current_term st \<or> (current_role st = kCandidate \<and> ae_term req \<ge> current_term st)
      then kFollower else current_role st)"
  by (simp add: ae_adopt_term_def Let_def raft_frame)

lemma ae_adopt_term_term:
  "current_term st \<le> ae_term req \<Longrightarrow> current_term (ae_adopt_term t1 t2 req st) = ae_term req"
  by (auto simp: ae_adopt_term_def Let_def raft_frame)

lemma OnAppendEntries_stale:
  "ae_term req < current_term st \<Longrightarrow>
   OnAppendEntries t1 t2 req st = Inr (st, default_ae_response\<lparr>aer_term := current_term st\<rparr>)"
  by (simp add: OnAppendEntries_def)

lemma OnAppendEntries_cases:
  assumes "OnAppendEntries t1 t2 req st = Inr (st', resp)"
  obtains (stale) "ae_term req < current_term st" "st' = st"
      "resp = default_ae_response\<lparr>aer_term := current_term st\<rparr>"
  | (taken) ok last_index l l' where "current_term st \<le> ae_term req"
      "ae_append req (raft_log st) = Inr (ok, last_index, l)" "ae_commit req l = Inr l'"
      "defined (ae_debug_print req l')"
      "st' = (ae_learn_leader req (ae_adopt_term t1 t2 req st))\<lparr>raft_log := l'\<rparr>"
      "resp = \<lparr>aer_term = current_term st, aer_success = ok,
         aer_last_log_index = (if ok then Some (GetLastLogIndex l') else last_index)\<rparr>"
  using assms
  by (auto simp: OnAppendEntries_def Let_def and_then_eq_Inr raft_frame default_ae_response_def
      defined_iff split: if_splits)

lemma OnRequestVote_frame [raft_frame]:
  "self_id (fst (OnRequestVote t1 t2 req st)) = self_id st"
  "remotes (fst (OnRequestVote t1 t2 req st)) = remotes st"
  "quorum_size (fst (OnRequestVote t1 t2 req st)) = quorum_size st"
  "raft_log (fst (OnRequestVote t1 t2 req st)) = raft_log st"
  "pending_entries (fst (OnRequestVote t1 t2 req st)) = pending_entries st"
  "current_term (fst (OnRequestVote t1 t2 req st)) = max (current_term st) (rv_term req)"
  by (simp_all add: OnRequestVote_def Let_def raft_frame split: prod.splits)

lemma OnRequestVote_role:
  "current_role (fst (OnRequestVote t1 t2 req st)) =
     (if rv_term req > current_term st then kFollower else current_role st)"
  by (simp add: OnRequestVote_def Let_def raft_frame split: prod.splits)

lemma OnRequestVote_leader:
  "leader_id (fst (OnRequestVote t1 t2 req st)) =
     (if rv_term req > current_term st then -1 else leader_id st)"
  by (simp add: OnRequestVote_def Let_def raft_frame split: prod.splits)

lemma OnRequestVote_pool:
  "vote_pool (fst (OnRequestVote t1 t2 req st)) =
     (if rv_term req > current_term st \<and> current_role st = kCandidate then {} else vote_pool st)"
  by (simp add: OnRequestVote_def Let_def raft_frame split: prod.splits)

lemma OnRequestVote_granted:
  "rvr_vote_granted (snd (OnRequestVote t1 t2 req st)) \<longleftrightarrow>
     snd (GetLastLogTermAndIndex (raft_log st)) \<le> rv_last_log_index req \<and>
     fst (GetLastLogTermAndIndex (raft_log st)) \<le> rv_last_log_term req \<and>
     (vote_for st (rv_term req) = None \<or> vote_for st (rv_term req) = Some (rv_candidate_id req))"
  by (auto simp: OnRequestVote_def Let_def raft_frame split: prod.splits)

lemma OnRequestVote_votes:
  "vote_for (fst (OnRequestVote t1 t2 req st)) =
     (if rvr_vote_granted (snd (OnRequestVote t1 t2 req st))
      then (vote_for st)(rv_term req \<mapsto> rv_candidate_id req) else vote_for st)"
  by (auto simp: OnRequestVote_def Let_def raft_frame split: prod.splits)

lemma meta_append_frame [raft_frame]:
  "self_id (snd (meta_append op path st)) = self_id st"
  "remotes (snd (meta_append op path st)) = remotes st"
  "current_term (snd (meta_append op path st)) = current_term st"
  "vote_for (snd (meta_append op path st)) = vote_for st"
  "vote_pool (snd (meta_append op path st)) = vote_pool st"
  "quorum_size (snd (meta_append op path st)) = quorum_size st"
  "leader_id (snd (meta_append op path st)) = leader_id st"
  "current_role (snd (meta_append op path st)) = current_role st"
  "pending_entries (snd (meta_append op path st)) = pending_entries st"
  "raft_log (snd (meta_append op path st)) = snd (Append_entry (meta_entry op path st) (raft_log st))"
  by (simp_all add: meta_append_def split: prod.splits)

end
