(* ===== verification/Raft_Threads.thy ===== *)
theory Raft_Threads
  imports Raft_Consensus
begin

text \<open>
  The threads of \<open>RaftConsensus\<close> that move a server through the protocol:
  \<open>CheckLeaderLoop\<close>, which starts elections, and one \<open>RemoteHostLoop\<close> per other server,
  which sends the requests and handles the replies.  One round of a loop holds the mutex
  \<open>m\<close> except while a remote call is in flight, so a round is a part before the call and a
  part after it, with the other threads in between.
\<close>

section \<open>The election timer\<close>

datatype wait_until = Until int | Forever

definition check_leader_round :: "int \<Rightarrow> tick \<Rightarrow> raft \<Rightarrow> raft \<times> wait_until" where
  "check_leader_round now t st =
     (let st1 = (if current_role st \<noteq> kLeader \<and> now \<ge> next_election st
                 then PostponeElection t (StartLeaderElection st) else st)
      in (st1, if current_role st1 \<noteq> kLeader then Until (next_election st1) else Forever))"


section \<open>The request of one round\<close>

datatype rpc_call = Call_AE ae_request | Call_RV rv_request | No_call

definition make_ae_request :: "int \<Rightarrow> raft \<Rightarrow> ae_request" where
  "make_ae_request i st =
     (let prev = GetNextIndex i st - 1
      in \<lparr>ae_term = current_term st, ae_leader_id = self_id st, ae_prev_log_index = prev,
          ae_prev_log_term = GetLastLogTerm (raft_log st),
          ae_entries = (if prev < GetLastLogIndex (raft_log st)
                        then GetEntriesStartAt prev (raft_log st) else []),
          ae_leader_commit_index = GetLastCommitIndex (raft_log st)\<rparr>)"

definition make_rv_request :: "raft \<Rightarrow> rv_request" where
  "make_rv_request st =
     \<lparr>rv_term = current_term st, rv_candidate_id = self_id st,
      rv_last_log_index = GetLastLogIndex (raft_log st),
      rv_last_log_term = GetLastLogTerm (raft_log st)\<rparr>"

definition remote_call :: "int \<Rightarrow> raft \<Rightarrow> rpc_call" where
  "remote_call i st =
     (case current_role st of
        kLeader \<Rightarrow> Call_AE (make_ae_request i st)
      | kFollower \<Rightarrow> No_call
      | kCandidate \<Rightarrow> Call_RV (make_rv_request st))"


section \<open>The reply of one round\<close>

datatype after_round = Wait_event | Next_round

text \<open>
  Acknowledged entries.  For every entry above the commit index the host is added to the
  entry's set of acknowledgements, and the last entry whose set has reached the quorum
  becomes the new commit index.
\<close>

fun count_acks ::
  "int \<Rightarrow> int \<Rightarrow> int \<Rightarrow> entry list \<Rightarrow> (int \<Rightarrow> int set) \<Rightarrow> int \<Rightarrow> (int \<Rightarrow> int set) \<times> int"
where
  "count_acks i quorum commit_index [] pending new_commit = (pending, new_commit)"
| "count_acks i quorum commit_index (e # es) pending new_commit =
     (if commit_index \<ge> e_index e then count_acks i quorum commit_index es pending new_commit
      else
        let pending' = pending(e_index e := insert i (pending (e_index e)))
        in count_acks i quorum commit_index es pending'
             (if int (card (pending' (e_index e))) \<ge> quorum then e_index e else new_commit))"

definition ae_acknowledged :: "int \<Rightarrow> ae_request \<Rightarrow> ae_response \<Rightarrow> raft \<Rightarrow> raft outcome" where
  "ae_acknowledged i req resp st =
     (let st1 = ResetNextIndex i (opt_field (aer_last_log_index resp) + 1) st;
          commit_index = GetLastCommitIndex (raft_log st1);
          (pending, new_commit) =
            count_acks i (quorum_size st1) commit_index (ae_entries req)
              (pending_entries st1) commit_index;
          st2 = st1\<lparr>pending_entries := pending\<rparr>
      in if commit_index \<noteq> new_commit
         then and_then (SetLastCommitIndex new_commit (raft_log st2)) (\<lambda>l.
              and_then (print_log l) (\<lambda>_. Inr (st2\<lparr>raft_log := l\<rparr>)))
         else Inr st2)"

definition ae_back_off :: "int \<Rightarrow> ae_request \<Rightarrow> raft \<Rightarrow> raft" where
  "ae_back_off i req st =
     (if ae_prev_log_index req > 5 then ResetNextIndex i (ae_prev_log_index req - 5) st
      else ResetNextIndex i 1 st)"

definition on_ae_response ::
  "tick \<Rightarrow> int \<Rightarrow> ae_request \<Rightarrow> ae_response \<Rightarrow> raft \<Rightarrow> (raft \<times> after_round) outcome" where
  "on_ae_response t i req resp st =
     (if aer_term resp = current_term st
      then (if aer_success resp
            then (if ae_entries req \<noteq> []
                  then and_then (ae_acknowledged i req resp st) (\<lambda>st'. Inr (st', Wait_event))
                  else Inr (st, Wait_event))
            else Inr (ae_back_off i req st, Next_round))
      else if aer_term resp > current_term st
      then Inr (ChangeToFollower t (aer_term resp) st, Wait_event)
      else Inr (st, Wait_event))"

definition on_rv_response :: "int \<Rightarrow> rv_response \<Rightarrow> raft \<Rightarrow> raft \<times> after_round" where
  "on_rv_response i resp st =
     (if current_role st \<noteq> kCandidate then (st, Next_round)
      else if rvr_vote_granted resp \<and> rvr_term resp \<le> current_term st
      then (let st1 = st\<lparr>vote_pool := insert i (vote_pool st)\<rparr>
            in if int (card (vote_pool st1)) \<ge> quorum_size st1
               then (ChangeToLeader st1, Next_round)
               else (st1, Wait_event))
      else (st, Wait_event))"


section \<open>A whole round of \<open>RemoteHostLoop\<close>\<close>

text \<open>
  A remote call ends in a transport exception, is skipped because the socket did not open,
  or returns a reply.  A skipped call leaves the default response.  \<open>ae_rpc\<close> and \<open>rv_rpc\<close>
  stand for the remote server and for what the other threads of this server do to the
  state while the lock is released.
\<close>

datatype 'r rpc_result = Comm_lost | Not_connected | Replied 'r

definition remote_host_round ::
  "tick \<Rightarrow> int \<Rightarrow> (ae_request \<Rightarrow> raft \<Rightarrow> raft \<times> ae_response rpc_result) \<Rightarrow>
   (rv_request \<Rightarrow> raft \<Rightarrow> raft \<times> rv_response rpc_result) \<Rightarrow> raft \<Rightarrow> (raft \<times> after_round) outcome"
where
  "remote_host_round t i ae_rpc rv_rpc st =
     (case remote_call i st of
        Call_AE req \<Rightarrow>
          (case ae_rpc req st of
             (st', Comm_lost) \<Rightarrow> Inr (st', Wait_event)
           | (st', Not_connected) \<Rightarrow> on_ae_response t i req default_ae_response st'
           | (st', Replied resp) \<Rightarrow> on_ae_response t i req resp st')
      | No_call \<Rightarrow> Inr (st, Wait_event)
      | Call_RV req \<Rightarrow>
          (case rv_rpc req st of
             (st', Comm_lost) \<Rightarrow> Inr (st', Wait_event)
           | (st', Not_connected) \<Rightarrow> Inr (on_rv_response i default_rv_response st')
           | (st', Replied resp) \<Rightarrow> Inr (on_rv_response i resp st')))"


section \<open>Frame facts of the thread rounds\<close>

lemma count_acks_other:
  "(\<forall>e \<in> set es. e_index e \<noteq> j) \<Longrightarrow> fst (count_acks i q c es pending n) j = pending j"
  by (induction es arbitrary: pending n) (auto simp: Let_def)

lemma count_acks_grows: "pending j \<subseteq> fst (count_acks i q c es pending n) j"
proof (induction es arbitrary: pending n)
  case (Cons e es)
  let ?p = "pending(e_index e := insert i (pending (e_index e)))"
  have "pending j \<subseteq> ?p j" by auto
  also have "?p j \<subseteq> fst (count_acks i q c es ?p
      (if int (card (?p (e_index e))) \<ge> q then e_index e else n)) j"
    by (rule Cons.IH)
  finally show ?case using Cons.IH by (simp add: Let_def)
qed simp

lemma count_acks_only: "fst (count_acks i q c es pending n) j \<subseteq> insert i (pending j)"
proof (induction es arbitrary: pending n)
  case (Cons e es)
  let ?p = "pending(e_index e := insert i (pending (e_index e)))"
  have "insert i (?p j) \<subseteq> insert i (pending j)" by auto
  with Cons.IH [of ?p] have "fst (count_acks i q c es ?p m) j \<subseteq> insert i (pending j)" for m
    by (rule subset_trans)
  then show ?case using Cons.IH by (simp add: Let_def)
qed auto

lemma count_acks_acked:
  "e \<in> set es \<Longrightarrow> c < e_index e \<Longrightarrow> i \<in> fst (count_acks i q c es pending n) (e_index e)"
proof (induction es arbitrary: pending n)
  case (Cons x es)
  let ?p = "pending(e_index x := insert i (pending (e_index x)))"
  show ?case
  proof (cases "e = x")
    case True
    have "?p (e_index x) \<subseteq> fst (count_acks i q c es ?p m) (e_index x)" for m
      by (rule count_acks_grows)
    with True Cons.prems show ?thesis by (auto simp: Let_def)
  next
    case False
    with Cons show ?thesis by (simp add: Let_def)
  qed
qed simp

text \<open>
  The new commit index is the old one, or the index of an entry of the request that lies
  above the old one and has a quorum of acknowledgements.
\<close>

lemma count_acks_commit:
  assumes "snd (count_acks i q c es pending n) \<noteq> n" and "\<And>j. finite (pending j)"
  shows "\<exists>e \<in> set es. e_index e = snd (count_acks i q c es pending n) \<and> c < e_index e \<and>
    q \<le> int (card (fst (count_acks i q c es pending n) (e_index e)))"
  using assms
proof (induction es arbitrary: pending n)
  case (Cons e es)
  show ?case
  proof (cases "c \<ge> e_index e")
    case True
    with Cons show ?thesis by simp
  next
    case False
    define p where "p = pending(e_index e := insert i (pending (e_index e)))"
    define m where "m = (if int (card (p (e_index e))) \<ge> q then e_index e else n)"
    have step: "count_acks i q c (e # es) pending n = count_acks i q c es p m"
      using False by (simp add: Let_def p_def m_def)
    have fin: "finite (p j)" for j
      using Cons.prems(2) by (simp add: p_def)
    show ?thesis
    proof (cases "snd (count_acks i q c es p m) = m")
      case False
      with Cons.IH [OF False fin] show ?thesis by (simp add: step del: count_acks.simps)
    next
      case same: True
      with Cons.prems(1) have "m \<noteq> n" by (simp add: step del: count_acks.simps)
      then have m: "m = e_index e" and "q \<le> int (card (p (e_index e)))"
        by (auto simp: m_def split: if_splits)
      moreover have "card (p (e_index e)) \<le> card (fst (count_acks i q c es p m) (e_index e))"
        by (rule card_mono [OF finite_subset [OF count_acks_only] count_acks_grows])
          (simp add: fin)
      ultimately show ?thesis
        using False same [unfolded m] by (simp add: step m del: count_acks.simps)
    qed
  qed
qed simp

lemma ae_back_off_frame [raft_frame]:
  "self_id (ae_back_off i req st) = self_id st"
  "map fst (remotes (ae_back_off i req st)) = map fst (remotes st)"
  "current_term (ae_back_off i req st) = current_term st"
  "vote_for (ae_back_off i req st) = vote_for st"
  "vote_pool (ae_back_off i req st) = vote_pool st"
  "quorum_size (ae_back_off i req st) = quorum_size st"
  "leader_id (ae_back_off i req st) = leader_id st"
  "current_role (ae_back_off i req st) = current_role st"
  "raft_log (ae_back_off i req st) = raft_log st"
  "pending_entries (ae_back_off i req st) = pending_entries st"
  by (auto simp: ae_back_off_def raft_frame)

lemma raft_log_same: "raft_log st = l \<Longrightarrow> st\<lparr>raft_log := l\<rparr> = st"
  by (cases st) simp

lemma ae_acknowledged_cases:
  assumes "ae_acknowledged i req resp st = Inr st'"
  obtains l where
    "st' = (ResetNextIndex i (opt_field (aer_last_log_index resp) + 1) st)\<lparr>
       pending_entries := fst (count_acks i (quorum_size st) (GetLastCommitIndex (raft_log st))
         (ae_entries req) (pending_entries st) (GetLastCommitIndex (raft_log st))),
       raft_log := l\<rparr>"
    "l = raft_log st \<and> snd (count_acks i (quorum_size st) (GetLastCommitIndex (raft_log st))
         (ae_entries req) (pending_entries st) (GetLastCommitIndex (raft_log st))) =
         GetLastCommitIndex (raft_log st) \<or>
     SetLastCommitIndex (snd (count_acks i (quorum_size st) (GetLastCommitIndex (raft_log st))
         (ae_entries req) (pending_entries st) (GetLastCommitIndex (raft_log st)))) (raft_log st) = Inr l"
proof -
  define st2 where "st2 = (ResetNextIndex i (opt_field (aer_last_log_index resp) + 1) st)\<lparr>
       pending_entries := fst (count_acks i (quorum_size st) (GetLastCommitIndex (raft_log st))
         (ae_entries req) (pending_entries st) (GetLastCommitIndex (raft_log st)))\<rparr>"
  define new_commit where "new_commit = snd (count_acks i (quorum_size st)
      (GetLastCommitIndex (raft_log st)) (ae_entries req) (pending_entries st)
      (GetLastCommitIndex (raft_log st)))"
  have log: "raft_log st2 = raft_log st" by (simp add: st2_def raft_frame)
  have eq: "ae_acknowledged i req resp st =
      (if GetLastCommitIndex (raft_log st) \<noteq> new_commit
       then and_then (SetLastCommitIndex new_commit (raft_log st)) (\<lambda>l.
              and_then (print_log l) (\<lambda>_. Inr (st2\<lparr>raft_log := l\<rparr>)))
       else Inr st2)"
    by (simp add: ae_acknowledged_def Let_def raft_frame st2_def new_commit_def split: prod.splits)
  show thesis
  proof (cases "GetLastCommitIndex (raft_log st) = new_commit")
    case True
    with assms eq have "st' = st2" by simp
    with raft_log_same [OF log] have "st' = st2\<lparr>raft_log := raft_log st\<rparr>" by metis
    with True show thesis
      by (intro that [of "raft_log st"]) (simp_all add: st2_def new_commit_def)
  next
    case False
    with assms eq obtain l where "SetLastCommitIndex new_commit (raft_log st) = Inr l"
      and "st' = st2\<lparr>raft_log := l\<rparr>"
      by (auto simp: and_then_eq_Inr)
    then show thesis
      by (intro that [of l]) (simp_all add: st2_def new_commit_def)
  qed
qed

lemma ae_acknowledged_frame:
  assumes "ae_acknowledged i req resp st = Inr st'"
  shows "self_id st' = self_id st" "map fst (remotes st') = map fst (remotes st)"
    "current_term st' = current_term st" "vote_for st' = vote_for st"
    "vote_pool st' = vote_pool st" "quorum_size st' = quorum_size st"
    "leader_id st' = leader_id st" "current_role st' = current_role st"
    "memory_log (raft_log st') = memory_log (raft_log st)"
  using assms by (auto elim!: ae_acknowledged_cases simp: raft_frame dest: SetLastCommitIndex_log)

lemma on_rv_response_frame [raft_frame]:
  "self_id (fst (on_rv_response i resp st)) = self_id st"
  "map fst (remotes (fst (on_rv_response i resp st))) = map fst (remotes st)"
  "current_term (fst (on_rv_response i resp st)) = current_term st"
  "vote_for (fst (on_rv_response i resp st)) = vote_for st"
  "quorum_size (fst (on_rv_response i resp st)) = quorum_size st"
  "raft_log (fst (on_rv_response i resp st)) = raft_log st"
  "pending_entries (fst (on_rv_response i resp st)) = pending_entries st"
  by (simp_all add: on_rv_response_def Let_def raft_frame)

lemma on_rv_response_pool:
  "vote_pool (fst (on_rv_response i resp st)) =
     (if current_role st = kCandidate \<and> rvr_vote_granted resp \<and> rvr_term resp \<le> current_term st
      then insert i (vote_pool st) else vote_pool st)"
  by (simp add: on_rv_response_def Let_def raft_frame)

lemma on_rv_response_role:
  "current_role (fst (on_rv_response i resp st)) =
     (if current_role st = kCandidate \<and> rvr_vote_granted resp \<and> rvr_term resp \<le> current_term st
         \<and> quorum_size st \<le> int (card (insert i (vote_pool st)))
      then kLeader else current_role st)"
  "leader_id (fst (on_rv_response i resp st)) =
     (if current_role st = kCandidate \<and> rvr_vote_granted resp \<and> rvr_term resp \<le> current_term st
         \<and> quorum_size st \<le> int (card (insert i (vote_pool st)))
      then self_id st else leader_id st)"
  by (simp_all add: on_rv_response_def Let_def raft_frame)


section \<open>The steps of one server\<close>

text \<open>
  Everything that happens to the consensus state of one server, each step under the
  mutex: the election timer, the two handlers with any request from the network, the two
  kinds of replies, and the append of a client's operation.
\<close>

inductive server_step :: "raft \<Rightarrow> raft \<Rightarrow> bool" where
  timer: "server_step st (fst (check_leader_round now t st))"
| vote: "server_step st (fst (OnRequestVote t1 t2 req st))"
| append: "OnAppendEntries t1 t2 areq st = Inr (st', aresp) \<Longrightarrow> server_step st st'"
| vote_reply: "i \<in> peer_ids st \<Longrightarrow> server_step st (fst (on_rv_response i resp st))"
| append_reply: "i \<in> peer_ids st \<Longrightarrow>
    on_ae_response t i areq aresp st = Inr (st', next) \<Longrightarrow> server_step st st'"
| client: "leader_id st \<noteq> -1 \<Longrightarrow> server_step st (snd (meta_append op path st))"

inductive_cases server_stepE: "server_step st st'"

text \<open>What any collection of steps of a server promises to the rest of the cluster.\<close>

locale server_contract =
  fixes step :: "raft \<Rightarrow> raft \<Rightarrow> bool"
  assumes identity: "step s s' \<Longrightarrow>
      self_id s' = self_id s \<and> quorum_size s' = quorum_size s \<and>
      map fst (remotes s') = map fst (remotes s)"
    and term_grows: "step s s' \<Longrightarrow> current_term s \<le> current_term s'"
    and votes_kept: "step s s' \<Longrightarrow> vote_for s \<subseteq>\<^sub>m vote_for s'"
    and leader_of_term: "step s s' \<Longrightarrow> current_role s = kLeader \<Longrightarrow>
      current_term s' = current_term s \<Longrightarrow> current_role s' = kLeader"
begin

lemma run_identity: "rtranclp step s s' \<Longrightarrow>
    self_id s' = self_id s \<and> quorum_size s' = quorum_size s \<and>
    map fst (remotes s') = map fst (remotes s)"
  by (induction rule: rtranclp_induct) (auto dest: identity)

lemma run_term_grows: "rtranclp step s s' \<Longrightarrow> current_term s \<le> current_term s'"
  by (induction rule: rtranclp_induct) (auto dest: term_grows)

lemma run_votes_kept: "rtranclp step s s' \<Longrightarrow> vote_for s \<subseteq>\<^sub>m vote_for s'"
  by (induction rule: rtranclp_induct) (auto dest: votes_kept map_le_trans)

lemma vote_stays:
  assumes "rtranclp step s s'" and "vote_for s t = Some c"
  shows "vote_for s' t = Some c"
  using run_votes_kept [OF assms(1)] assms(2) by (metis domI map_le_def)

lemma vote_stays_step: "step s s' \<Longrightarrow> vote_for s t = Some c \<Longrightarrow> vote_for s' t = Some c"
  by (rule vote_stays [of s s']) auto

text \<open>Two grants by one server for one term name the same candidate.\<close>

lemma vote_of_term_kept:
  assumes "rtranclp step s s'" and "vote_for s t = Some c" and "vote_for s' t = Some c'"
  shows "c = c'"
  using vote_stays [OF assms(1,2)] assms(3) by simp

text \<open>A leader stays leader until its term has grown.\<close>

lemma run_leader_of_term:
  assumes "rtranclp step s s'" and "current_role s = kLeader" and "current_term s' = current_term s"
  shows "current_role s' = kLeader"
  using assms
proof (induction rule: rtranclp_induct)
  case (step u v)
  from run_term_grows [OF step.hyps(1)] term_grows [OF step.hyps(2)] step.prems(2)
  have "current_term u = current_term s" by simp
  with step show ?case using leader_of_term by metis
qed simp

end

lemma check_leader_round_state:
  "fst (check_leader_round now t st) =
     (if current_role st \<noteq> kLeader \<and> now \<ge> next_election st
      then PostponeElection t (StartLeaderElection st) else st)"
  by (simp add: check_leader_round_def Let_def)

lemma on_ae_response_cases:
  assumes "on_ae_response t i req resp st = Inr (st', nxt)"
  obtains (acked) "aer_term resp = current_term st" "aer_success resp" "ae_entries req \<noteq> []"
      "ae_acknowledged i req resp st = Inr st'" "nxt = Wait_event"
  | (heartbeat) "aer_term resp = current_term st" "aer_success resp" "ae_entries req = []"
      "st' = st" "nxt = Wait_event"
  | (refused) "aer_term resp = current_term st" "\<not> aer_success resp"
      "st' = ae_back_off i req st" "nxt = Next_round"
  | (newer) "current_term st < aer_term resp"
      "st' = ChangeToFollower t (aer_term resp) st" "nxt = Wait_event"
  | (older) "aer_term resp < current_term st" "st' = st" "nxt = Wait_event"
  using assms by (auto simp: on_ae_response_def and_then_eq_Inr split: if_splits)

lemma votes_kept_update: "m t = None \<or> m t = Some c \<Longrightarrow> m \<subseteq>\<^sub>m m(t \<mapsto> c)"
  by (auto simp: map_le_def)

interpretation server: server_contract server_step
proof (unfold_locales, goal_cases)
  case (1 s s')
  then show ?case
    by (cases rule: server_step.cases)
      (auto simp: check_leader_round_state raft_frame ae_acknowledged_frame
        elim!: OnAppendEntries_cases on_ae_response_cases split: if_splits)
next
  case (2 s s')
  then show ?case
    by (cases rule: server_step.cases)
      (auto simp: check_leader_round_state raft_frame ae_acknowledged_frame ae_adopt_term_term
        elim!: OnAppendEntries_cases on_ae_response_cases split: if_splits)
next
  case (3 s s')
  then show ?case
  proof (cases rule: server_step.cases)
    case (timer now t)
    then show ?thesis
      by (auto simp: check_leader_round_state raft_frame StartLeaderElection_votes
          intro: votes_kept_update split: option.splits)
  next
    case (vote t1 t2 req)
    then show ?thesis
      by (auto simp: OnRequestVote_votes OnRequestVote_granted intro: votes_kept_update)
  qed (auto simp: raft_frame ae_acknowledged_frame
        elim!: OnAppendEntries_cases on_ae_response_cases)
next
  case (4 s s')
  then show ?case
    by (cases rule: server_step.cases)
      (auto simp: check_leader_round_state raft_frame ae_acknowledged_frame
        OnRequestVote_role on_rv_response_role ae_adopt_term_role ae_adopt_term_term
        elim!: OnAppendEntries_cases on_ae_response_cases split: if_splits)
qed


section \<open>The invariant of one server\<close>

text \<open>
  How role, leader and vote pool belong together: a leader knows itself as leader and
  holds a quorum of votes, a candidate knows no leader, and votes and acknowledgements
  come from servers of the cluster.
\<close>

definition raft_ok :: "raft \<Rightarrow> bool" where
  "raft_ok st \<longleftrightarrow>
     self_id st \<noteq> -1 \<and> self_id st \<notin> peer_ids st \<and>
     vote_pool st \<subseteq> insert (self_id st) (peer_ids st) \<and>
     (current_role st = kLeader \<longrightarrow>
        leader_id st = self_id st \<and> quorum_size st \<le> int (card (vote_pool st))) \<and>
     (current_role st = kCandidate \<longrightarrow> leader_id st = -1) \<and>
     (\<forall>j. pending_entries st j \<subseteq> peer_ids st)"

lemma raft_ok_finite: "raft_ok st \<Longrightarrow> finite (pending_entries st j)"
  unfolding raft_ok_def by (meson finite_peer_ids finite_subset)

lemma PostponeElection_ok: "raft_ok (PostponeElection t st) \<longleftrightarrow> raft_ok st"
  by (simp add: raft_ok_def peer_ids_def raft_frame)

lemma StartLeaderElection_ok: "raft_ok st \<Longrightarrow> raft_ok (StartLeaderElection st)"
  by (auto simp: raft_ok_def peer_ids_def raft_frame StartLeaderElection_votes split: option.splits)

lemma ChangeToFollower_ok: "raft_ok st \<Longrightarrow> raft_ok (ChangeToFollower t n st)"
  by (auto simp: raft_ok_def peer_ids_def raft_frame)

lemma OnRequestVote_ok: "raft_ok st \<Longrightarrow> raft_ok (fst (OnRequestVote t1 t2 req st))"
  by (auto simp: raft_ok_def peer_ids_def raft_frame OnRequestVote_role OnRequestVote_leader
      OnRequestVote_pool)

lemma ae_adopt_term_ok:
  "raft_ok st \<Longrightarrow> current_term st \<le> ae_term req \<Longrightarrow> raft_ok (ae_adopt_term t1 t2 req st)"
  by (auto simp: ae_adopt_term_def Let_def raft_ok_def peer_ids_def raft_frame)

lemma ae_adopt_term_not_candidate:
  "current_term st \<le> ae_term req \<Longrightarrow> current_role (ae_adopt_term t1 t2 req st) \<noteq> kCandidate"
  by (simp add: ae_adopt_term_role)

lemma ae_learn_leader_ok:
  "raft_ok st \<Longrightarrow> current_role st \<noteq> kCandidate \<Longrightarrow> raft_ok (ae_learn_leader req st)"
  by (auto simp: ae_learn_leader_def raft_ok_def peer_ids_def)

lemma raft_ok_log [simp]: "raft_ok (st\<lparr>raft_log := l\<rparr>) \<longleftrightarrow> raft_ok st"
  by (simp add: raft_ok_def peer_ids_def)

lemma OnAppendEntries_ok:
  assumes "OnAppendEntries t1 t2 req st = Inr (st', resp)" and "raft_ok st"
  shows "raft_ok st'"
  using assms(1)
proof (cases rule: OnAppendEntries_cases)
  case taken
  with assms(2) have "raft_ok (ae_learn_leader req (ae_adopt_term t1 t2 req st))"
    by (intro ae_learn_leader_ok ae_adopt_term_ok ae_adopt_term_not_candidate)
  with taken show ?thesis by simp
qed (use assms(2) in simp)

lemma on_rv_response_ok:
  assumes "raft_ok st" and "i \<in> peer_ids st"
  shows "raft_ok (fst (on_rv_response i resp st))"
  using assms
  by (auto simp: raft_ok_def raft_frame on_rv_response_role on_rv_response_pool
      peer_ids_eq [OF on_rv_response_frame(2)])

lemma ae_back_off_ok: "raft_ok st \<Longrightarrow> raft_ok (ae_back_off i req st)"
  by (simp add: raft_ok_def raft_frame peer_ids_eq [OF ae_back_off_frame(2)])

lemma ae_acknowledged_ok:
  assumes "ae_acknowledged i req resp st = Inr st'" and "raft_ok st" and "i \<in> peer_ids st"
  shows "raft_ok st'"
proof -
  note f = ae_acknowledged_frame [OF assms(1)]
  have "pending_entries st' j \<subseteq> insert i (pending_entries st j)" for j
    by (rule ae_acknowledged_cases [OF assms(1)]) (simp add: count_acks_only)
  with assms(2,3) have "pending_entries st' j \<subseteq> peer_ids st" for j
    by (fastforce simp: raft_ok_def)
  with assms(2) f show ?thesis
    by (simp add: raft_ok_def peer_ids_eq [OF f(2)])
qed

lemma on_ae_response_ok:
  assumes "on_ae_response t i req resp st = Inr (st', nxt)" and "raft_ok st" and "i \<in> peer_ids st"
  shows "raft_ok st'"
  using assms(1)
  by (cases rule: on_ae_response_cases)
    (use assms in \<open>auto intro: ae_acknowledged_ok ae_back_off_ok ChangeToFollower_ok\<close>)

lemma meta_append_ok: "raft_ok st \<Longrightarrow> raft_ok (snd (meta_append op path st))"
  by (simp add: raft_ok_def peer_ids_def raft_frame)

lemmas raft_ok_preserved =
  OnRequestVote_ok OnAppendEntries_ok on_rv_response_ok on_ae_response_ok meta_append_ok

lemma server_step_ok:
  assumes "server_step st st'" and "raft_ok st"
  shows "raft_ok st'"
  using assms(1)
proof (cases rule: server_step.cases)
  case (timer now t)
  with assms(2) show ?thesis
    by (simp add: check_leader_round_state PostponeElection_ok StartLeaderElection_ok)
qed (use assms(2) in \<open>auto intro: raft_ok_preserved\<close>)

lemma server_run_ok: "rtranclp server_step st st' \<Longrightarrow> raft_ok st \<Longrightarrow> raft_ok st'"
  by (induction rule: rtranclp_induct) (auto intro: server_step_ok)

lemma new_raft_fields:
  "self_id (new_raft t junk self name hosts) = self"
  "map fst (remotes (new_raft t junk self name hosts)) = map fst hosts"
  "current_term (new_raft t junk self name hosts) = 0"
  "vote_for (new_raft t junk self name hosts) = Map.empty"
  "vote_pool (new_raft t junk self name hosts) = {}"
  "quorum_size (new_raft t junk self name hosts) = (int (length hosts) + 1) div 2 + 1"
  "leader_id (new_raft t junk self name hosts) = -1"
  "current_role (new_raft t junk self name hosts) = kFollower"
  "raft_log (new_raft t junk self name hosts) = new_log"
  "pending_entries (new_raft t junk self name hosts) = (\<lambda>_. {})"
  by (auto simp: new_raft_def raft_frame)

lemma new_raft_ok:
  "self \<noteq> -1 \<Longrightarrow> self \<notin> fst ` set hosts \<Longrightarrow> raft_ok (new_raft t junk self name hosts)"
  by (simp add: raft_ok_def new_raft_fields peer_ids_def flip: set_map)

end
