(* ===== verification/Cluster.thy ===== *)
theory Cluster
  imports Raft_Threads
begin

text \<open>
  A cluster of servers that run \<open>RaftConsensus\<close> and call each other over the network, as
  a labelled step relation.  Each server has one \<open>RemoteHostLoop\<close> thread per peer with at
  most one outstanding call; between the request and its reply the lock is released, so
  any other step may happen.  Messages may be delayed, lost, or handled again.
\<close>

section \<open>Quorums\<close>

text \<open>
  The counting argument of every majority protocol, apart from the protocol: two quorums
  share a member, so two candidates cannot both hold the votes of a quorum.
\<close>

locale quorum_system =
  fixes quorum :: "'a set \<Rightarrow> bool"
  assumes intersect: "quorum Q \<Longrightarrow> quorum R \<Longrightarrow> Q \<inter> R \<noteq> {}"
begin

lemma one_winner:
  assumes "quorum Q" "quorum R"
    and "\<And>v. v \<in> Q \<Longrightarrow> vote v = Some a" "\<And>v. v \<in> R \<Longrightarrow> vote v = Some b"
  shows "a = b"
proof -
  from intersect [OF assms(1,2)] obtain v where "v \<in> Q" "v \<in> R" by blast
  with assms(3,4) show ?thesis by (metis option.inject)
qed

end

text \<open>The quorums of the code: at least \<open>N / 2 + 1\<close> of the \<open>N\<close> servers.\<close>

definition majority :: "int list \<Rightarrow> int set \<Rightarrow> bool" where
  "majority ids Q \<longleftrightarrow> Q \<subseteq> set ids \<and> card (set ids) div 2 + 1 \<le> card Q"

interpretation majority: quorum_system "majority ids" for ids
proof
  fix Q R assume "majority ids Q" and "majority ids R"
  then have sub: "Q \<subseteq> set ids" "R \<subseteq> set ids"
    and big: "card (set ids) < card Q + card R"
    unfolding majority_def by linarith+
  show "Q \<inter> R \<noteq> {}"
  proof
    assume "Q \<inter> R = {}"
    with sub have "card Q + card R = card (Q \<union> R)"
      by (metis List.finite_set card_Un_disjoint finite_subset)
    also have "\<dots> \<le> card (set ids)"
      using sub by (intro card_mono) auto
    finally show False using big by simp
  qed
qed


section \<open>The cluster and its steps\<close>

record cluster =
  node :: "int \<Rightarrow> raft"
  outstanding :: "int \<Rightarrow> int \<Rightarrow> rpc_call"
  rv_net :: "(int \<times> int \<times> rv_request) set"
  rv_back :: "(int \<times> int \<times> rv_request \<times> rv_response) set"
  ae_net :: "(int \<times> int \<times> ae_request) set"
  ae_back :: "(int \<times> int \<times> ae_request \<times> ae_response) set"

datatype label =
    Timer int
  | Send int int
  | Handle int
  | Vote_reply int int rv_request
  | Append_reply int int
  | Lost int int
  | Client int

definition set_node :: "int \<Rightarrow> raft \<Rightarrow> cluster \<Rightarrow> cluster" where
  "set_node n st c = c\<lparr>node := (node c)(n := st)\<rparr>"

definition set_call :: "int \<Rightarrow> int \<Rightarrow> rpc_call \<Rightarrow> cluster \<Rightarrow> cluster" where
  "set_call n i call c =
     c\<lparr>outstanding := (outstanding c)(n := (outstanding c n)(i := call))\<rparr>"

lemma set_node_sel [simp]:
  "node (set_node n st c) = (node c)(n := st)"
  "outstanding (set_node n st c) = outstanding c"
  "rv_net (set_node n st c) = rv_net c" "rv_back (set_node n st c) = rv_back c"
  "ae_net (set_node n st c) = ae_net c" "ae_back (set_node n st c) = ae_back c"
  by (simp_all add: set_node_def)

lemma set_call_sel [simp]:
  "node (set_call n i call c) = node c"
  "outstanding (set_call n i call c) = (outstanding c)(n := (outstanding c n)(i := call))"
  "rv_net (set_call n i call c) = rv_net c" "rv_back (set_call n i call c) = rv_back c"
  "ae_net (set_call n i call c) = ae_net c" "ae_back (set_call n i call c) = ae_back c"
  by (simp_all add: set_call_def)

text \<open>
  A server whose handler would have undefined behaviour takes no step: the rules for the
  AppendEntries handler and its reply apply to defined outcomes only.
\<close>

inductive cluster_step :: "int list \<Rightarrow> cluster \<Rightarrow> label \<Rightarrow> cluster \<Rightarrow> bool" for ids where
  timer: "n \<in> set ids \<Longrightarrow>
    cluster_step ids c (Timer n) (set_node n (fst (check_leader_round now t (node c n))) c)"
| send_rv: "n \<in> set ids \<Longrightarrow> i \<in> peer_ids (node c n) \<Longrightarrow> outstanding c n i = No_call \<Longrightarrow>
    remote_call i (node c n) = Call_RV req \<Longrightarrow>
    cluster_step ids c (Send n i) ((set_call n i (Call_RV req) c)\<lparr>rv_net := insert (n, i, req) (rv_net c)\<rparr>)"
| send_ae: "n \<in> set ids \<Longrightarrow> i \<in> peer_ids (node c n) \<Longrightarrow> outstanding c n i = No_call \<Longrightarrow>
    remote_call i (node c n) = Call_AE req \<Longrightarrow>
    cluster_step ids c (Send n i) ((set_call n i (Call_AE req) c)\<lparr>ae_net := insert (n, i, req) (ae_net c)\<rparr>)"
| handle_rv: "(n, i, req) \<in> rv_net c \<Longrightarrow> OnRequestVote t1 t2 req (node c i) = (st', resp) \<Longrightarrow>
    cluster_step ids c (Handle i) ((set_node i st' c)\<lparr>rv_back := insert (n, i, req, resp) (rv_back c)\<rparr>)"
| handle_ae: "(n, i, req) \<in> ae_net c \<Longrightarrow> OnAppendEntries t1 t2 req (node c i) = Inr (st', resp) \<Longrightarrow>
    cluster_step ids c (Handle i) ((set_node i st' c)\<lparr>ae_back := insert (n, i, req, resp) (ae_back c)\<rparr>)"
| reply_rv: "n \<in> set ids \<Longrightarrow> outstanding c n i = Call_RV req \<Longrightarrow> (n, i, req, resp) \<in> rv_back c \<Longrightarrow>
    cluster_step ids c (Vote_reply n i req)
      (set_node n (fst (on_rv_response i resp (node c n))) (set_call n i No_call c))"
| skip_rv: "n \<in> set ids \<Longrightarrow> outstanding c n i = Call_RV req \<Longrightarrow>
    cluster_step ids c (Vote_reply n i req)
      (set_node n (fst (on_rv_response i default_rv_response (node c n))) (set_call n i No_call c))"
| reply_ae: "n \<in> set ids \<Longrightarrow> outstanding c n i = Call_AE req \<Longrightarrow> (n, i, req, resp) \<in> ae_back c \<Longrightarrow>
    on_ae_response t i req resp (node c n) = Inr (st', nxt) \<Longrightarrow>
    cluster_step ids c (Append_reply n i) (set_node n st' (set_call n i No_call c))"
| skip_ae: "n \<in> set ids \<Longrightarrow> outstanding c n i = Call_AE req \<Longrightarrow>
    on_ae_response t i req default_ae_response (node c n) = Inr (st', nxt) \<Longrightarrow>
    cluster_step ids c (Append_reply n i) (set_node n st' (set_call n i No_call c))"
| lost: "cluster_step ids c (Lost n i) (set_call n i No_call c)"
| client: "n \<in> set ids \<Longrightarrow> leader_id (node c n) \<noteq> -1 \<Longrightarrow>
    cluster_step ids c (Client n) (set_node n (snd (meta_append op path (node c n))) c)"

text \<open>
  At the start every server is freshly constructed with the other servers as its hosts and
  the network is empty.
\<close>

definition fresh_server :: "int list \<Rightarrow> int \<Rightarrow> raft \<Rightarrow> bool" where
  "fresh_server ids n st \<longleftrightarrow>
     (\<exists>t junk name hosts. st = new_raft t junk n name hosts \<and> distinct (map fst hosts) \<and>
        fst ` set hosts = set ids - {n})"

definition initial_cluster :: "int list \<Rightarrow> cluster \<Rightarrow> bool" where
  "initial_cluster ids c \<longleftrightarrow>
     -1 \<notin> set ids \<and> (\<forall>n \<in> set ids. fresh_server ids n (node c n)) \<and>
     outstanding c = (\<lambda>_ _. No_call) \<and>
     rv_net c = {} \<and> rv_back c = {} \<and> ae_net c = {} \<and> ae_back c = {}"

text \<open>
  The states reachable by steps that a filter admits.  \<open>any_step\<close> admits all of them;
  \<open>timely\<close> admits a reply to a vote request only while the candidate is still in the term
  it asked for.  The code does not make that test: it compares the term of the reply with
  its current term, which may have grown since the request.
\<close>

inductive reachable :: "(cluster \<Rightarrow> label \<Rightarrow> bool) \<Rightarrow> int list \<Rightarrow> cluster \<Rightarrow> bool" for P ids where
  start: "initial_cluster ids c \<Longrightarrow> reachable P ids c"
| step: "reachable P ids c \<Longrightarrow> P c l \<Longrightarrow> cluster_step ids c l c' \<Longrightarrow> reachable P ids c'"

definition any_step :: "cluster \<Rightarrow> label \<Rightarrow> bool" where
  "any_step c l \<longleftrightarrow> True"

fun timely :: "cluster \<Rightarrow> label \<Rightarrow> bool" where
  "timely c (Vote_reply n i req) \<longleftrightarrow> rv_term req = current_term (node c n)"
| "timely c (Timer n) \<longleftrightarrow> True"
| "timely c (Send n i) \<longleftrightarrow> True"
| "timely c (Handle n) \<longleftrightarrow> True"
| "timely c (Append_reply n i) \<longleftrightarrow> True"
| "timely c (Lost n i) \<longleftrightarrow> True"
| "timely c (Client n) \<longleftrightarrow> True"

lemma reachable_mono:
  assumes "reachable P ids c" and "\<And>c l. P c l \<Longrightarrow> Q c l"
  shows "reachable Q ids c"
  using assms(1) by induction (auto intro: reachable.intros assms(2))

lemma reachable_any: "reachable P ids c \<Longrightarrow> reachable any_step ids c"
  by (erule reachable_mono) (simp add: any_step_def)

text \<open>A run with the states it goes through.\<close>

fun run_through :: "(cluster \<Rightarrow> label \<Rightarrow> bool) \<Rightarrow> int list \<Rightarrow> cluster \<Rightarrow> cluster list \<Rightarrow> bool" where
  "run_through P ids c [] \<longleftrightarrow> True"
| "run_through P ids c (d # ds) \<longleftrightarrow> (\<exists>l. P c l \<and> cluster_step ids c l d) \<and> run_through P ids d ds"

lemma run_through_mono:
  "run_through P ids c ds \<Longrightarrow> (\<And>c l. P c l \<Longrightarrow> Q c l) \<Longrightarrow> run_through Q ids c ds"
  by (induction ds arbitrary: c) auto

lemma run_through_reachable:
  "reachable P ids c \<Longrightarrow> run_through P ids c ds \<Longrightarrow> reachable P ids (last (c # ds))"
proof (induction ds arbitrary: c)
  case (Cons d ds)
  then have "reachable P ids d" by (auto intro: reachable.step)
  with Cons.IH [of d] Cons.prems(2) show ?case by auto
qed simp

inductive_cases cluster_stepE: "cluster_step ids c l c'"


section \<open>The invariant every run keeps\<close>

text \<open>
  Who the servers are and who sent what: independent of when replies are handled.
\<close>

definition members_ok :: "int list \<Rightarrow> cluster \<Rightarrow> bool" where
  "members_ok ids c \<longleftrightarrow>
     (\<forall>n \<in> set ids. raft_ok (node c n) \<and> self_id (node c n) = n \<and>
        peer_ids (node c n) = set ids - {n} \<and>
        quorum_size (node c n) = int (card (set ids)) div 2 + 1)"

definition messages_ok :: "int list \<Rightarrow> cluster \<Rightarrow> bool" where
  "messages_ok ids c \<longleftrightarrow>
     (\<forall>n i req. (n, i, req) \<in> rv_net c \<longrightarrow> n \<in> set ids \<and> i \<in> set ids \<and> rv_candidate_id req = n) \<and>
     (\<forall>n i req resp. (n, i, req, resp) \<in> rv_back c \<longrightarrow> (n, i, req) \<in> rv_net c) \<and>
     (\<forall>n i req. (n, i, req) \<in> ae_net c \<longrightarrow> n \<in> set ids \<and> i \<in> set ids \<and> ae_leader_id req = n) \<and>
     (\<forall>n i req resp. (n, i, req, resp) \<in> ae_back c \<longrightarrow> (n, i, req) \<in> ae_net c) \<and>
     (\<forall>n i. outstanding c n i \<noteq> No_call \<longrightarrow> n \<in> set ids \<and> i \<in> set ids - {n})"

text \<open>A granted vote in the network is on record at the server that granted it.\<close>

definition grants_ok :: "cluster \<Rightarrow> bool" where
  "grants_ok c \<longleftrightarrow>
     (\<forall>n i req resp. (n, i, req, resp) \<in> rv_back c \<longrightarrow> rvr_vote_granted resp \<longrightarrow>
        vote_for (node c i) (rv_term req) = Some n)"

lemma members_okD:
  assumes "members_ok ids c" and "n \<in> set ids"
  shows "raft_ok (node c n)" "self_id (node c n) = n" "peer_ids (node c n) = set ids - {n}"
    "quorum_size (node c n) = int (card (set ids)) div 2 + 1"
  using assms by (auto simp: members_ok_def)

lemma messages_okD:
  assumes "messages_ok ids c"
  shows "(n, i, rreq) \<in> rv_net c \<Longrightarrow> n \<in> set ids \<and> i \<in> set ids \<and> rv_candidate_id rreq = n"
    and "(n, i, rreq, rresp) \<in> rv_back c \<Longrightarrow> (n, i, rreq) \<in> rv_net c"
    and "(n, i, areq) \<in> ae_net c \<Longrightarrow> n \<in> set ids \<and> i \<in> set ids \<and> ae_leader_id areq = n"
    and "(n, i, areq, aresp) \<in> ae_back c \<Longrightarrow> (n, i, areq) \<in> ae_net c"
    and "outstanding c n i \<noteq> No_call \<Longrightarrow> n \<in> set ids \<and> i \<in> set ids \<and> i \<noteq> n"
  using assms unfolding messages_ok_def by blast+

lemma outstanding_peer:
  assumes "members_ok ids c" and "messages_ok ids c" and "outstanding c n i \<noteq> No_call"
  shows "i \<in> peer_ids (node c n)"
  using messages_okD(5) [OF assms(2,3)] members_okD(3) [OF assms(1), of n] by simp

text \<open>Every step of the cluster is a step of at most one server.\<close>

lemma cluster_step_server:
  assumes "cluster_step ids c l c'" and "members_ok ids c" and "messages_ok ids c"
  obtains (same) "node c' = node c"
  | (moved) k st' where "k \<in> set ids" "server_step (node c k) st'" "node c' = (node c)(k := st')"
  using assms(1)
proof (cases rule: cluster_step.cases)
  case (timer n now t)
  then show thesis
    by (intro moved [of n "fst (check_leader_round now t (node c n))"]) (simp_all add: server_step.timer)
next
  case (send_rv n i req)
  then show thesis by (intro same) simp
next
  case (send_ae n i req)
  then show thesis by (intro same) simp
next
  case (handle_rv n i req t1 t2 st' resp)
  then have "server_step (node c i) st'"
    using server_step.vote [of "node c i" t1 t2 req] by simp
  with handle_rv messages_okD(1) [OF assms(3), of n i req] show thesis
    by (intro moved [of i st']) simp_all
next
  case (handle_ae n i req t1 t2 st' resp)
  with messages_okD(3) [OF assms(3), of n i req] show thesis
    by (intro moved [of i st'] server_step.append [of t1 t2 req _ _ resp]) simp_all
next
  case (reply_rv n i req resp)
  with outstanding_peer [OF assms(2,3), of n i] show thesis
    by (intro moved [of n "fst (on_rv_response i resp (node c n))"])
      (simp_all add: server_step.vote_reply)
next
  case (skip_rv n i req)
  with outstanding_peer [OF assms(2,3), of n i] show thesis
    by (intro moved [of n "fst (on_rv_response i default_rv_response (node c n))"])
      (simp_all add: server_step.vote_reply)
next
  case (reply_ae n i req resp t st' nxt)
  with outstanding_peer [OF assms(2,3), of n i] show thesis
    by (intro moved [of n st'] server_step.append_reply [of i _ t req resp _ nxt]) simp_all
next
  case (skip_ae n i req t st' nxt)
  with outstanding_peer [OF assms(2,3), of n i] show thesis
    by (intro moved [of n st'] server_step.append_reply [of i _ t req default_ae_response _ nxt]) simp_all
next
  case (lost n i)
  then show thesis by (intro same) simp
next
  case (client n op path)
  then show thesis
    by (intro moved [of n "snd (meta_append op path (node c n))"]) (simp_all add: server_step.client)
qed

lemma cluster_step_votes:
  assumes "cluster_step ids c l c'" and "members_ok ids c" and "messages_ok ids c"
    and "vote_for (node c v) t = Some n"
  shows "vote_for (node c' v) t = Some n"
  using assms(1-3)
proof (cases rule: cluster_step_server)
  case (moved k st')
  show ?thesis
  proof (cases "v = k")
    case True
    with assms(4) have "vote_for st' t = Some n"
      using server.vote_stays_step [OF moved(2)] by simp
    with moved(3) True show ?thesis by simp
  qed (use moved(3) assms(4) in simp)
qed (use assms(4) in simp)

lemma members_ok_step:
  assumes "cluster_step ids c l c'" and "members_ok ids c" and "messages_ok ids c"
  shows "members_ok ids c'"
  using assms
proof (cases rule: cluster_step_server)
  case (moved k st')
  from server.identity [OF moved(2)] have id: "self_id st' = self_id (node c k)"
    "quorum_size st' = quorum_size (node c k)" "peer_ids st' = peer_ids (node c k)"
    by (simp, simp, intro peer_ids_eq, simp)
  moreover have "raft_ok st'"
    using moved members_okD(1) [OF assms(2)] by (auto intro: server_step_ok)
  ultimately show ?thesis
    using assms(2) moved(1,3) by (simp add: members_ok_def)
qed (use assms(2) in \<open>simp add: members_ok_def\<close>)

lemma messages_ok_step:
  assumes step: "cluster_step ids c l c'" and m: "members_ok ids c" and "messages_ok ids c"
  shows "messages_ok ids c'"
  using step
proof (cases rule: cluster_step.cases)
  case (send_rv n i req)
  then have "req = make_rv_request (node c n)"
    by (simp add: remote_call_def split: role.splits)
  then have "rv_candidate_id req = n"
    using members_okD(2) [OF m send_rv(3)] by (simp add: make_rv_request_def)
  moreover have "i \<in> set ids - {n}"
    using send_rv(4) members_okD(3) [OF m send_rv(3)] by simp
  ultimately have "rv_candidate_id req = n" "i \<in> set ids - {n}" by simp_all
  with send_rv assms(3) show ?thesis by (simp add: messages_ok_def)
next
  case (send_ae n i req)
  then have "req = make_ae_request i (node c n)"
    by (simp add: remote_call_def split: role.splits)
  then have "ae_leader_id req = n"
    using members_okD(2) [OF m send_ae(3)] by (simp add: make_ae_request_def Let_def)
  moreover have "i \<in> set ids - {n}"
    using send_ae(4) members_okD(3) [OF m send_ae(3)] by simp
  ultimately have "ae_leader_id req = n" "i \<in> set ids - {n}" by simp_all
  with send_ae assms(3) show ?thesis by (simp add: messages_ok_def)
qed (use assms(3) in \<open>simp_all add: messages_ok_def\<close>)

lemma grants_ok_step:
  assumes step: "cluster_step ids c l c'" and "members_ok ids c" and m: "messages_ok ids c"
    and g: "grants_ok c"
  shows "grants_ok c'"
  unfolding grants_ok_def
proof (intro allI impI)
  fix n i req resp
  assume inback: "(n, i, req, resp) \<in> rv_back c'" and granted: "rvr_vote_granted resp"
  show "vote_for (node c' i) (rv_term req) = Some n"
  proof (cases "(n, i, req, resp) \<in> rv_back c")
    case True
    with g granted have "vote_for (node c i) (rv_term req) = Some n"
      by (simp add: grants_ok_def)
    with step assms(2,3) show ?thesis by (rule cluster_step_votes)
  next
    case False
    with step inback obtain t1 t2 where "(n, i, req) \<in> rv_net c"
      and "OnRequestVote t1 t2 req (node c i) = (node c' i, resp)"
      by (cases rule: cluster_step.cases) auto
    with granted messages_okD(1) [OF m] show ?thesis
      using OnRequestVote_votes [of t1 t2 req "node c i"] by force
  qed
qed


section \<open>Elections\<close>

text \<open>
  \<open>elected\<close>: a quorum has server \<open>n\<close> on record as its vote for term \<open>t\<close>.  Votes are never
  withdrawn, so this holds for ever once it holds, and at most one server is elected for
  a term.
\<close>

definition elected :: "int list \<Rightarrow> cluster \<Rightarrow> int \<Rightarrow> int \<Rightarrow> bool" where
  "elected ids c n t \<longleftrightarrow> (\<exists>Q. majority ids Q \<and> (\<forall>v \<in> Q. vote_for (node c v) t = Some n))"

lemma elected_unique:
  assumes "elected ids c n t" and "elected ids c m t"
  shows "n = m"
proof -
  from assms obtain Q R where "majority ids Q" "majority ids R"
    "\<forall>v \<in> Q. vote_for (node c v) t = Some n" "\<forall>v \<in> R. vote_for (node c v) t = Some m"
    unfolding elected_def by blast
  then show ?thesis
    by (intro majority.one_winner [of ids Q R "\<lambda>v. vote_for (node c v) t"]) auto
qed

lemma elected_step:
  assumes "cluster_step ids c l c'" and "members_ok ids c" and "messages_ok ids c"
    and "elected ids c n t"
  shows "elected ids c' n t"
  using assms(4) cluster_step_votes [OF assms(1-3)] unfolding elected_def by blast

text \<open>
  What a step does to a server's candidacy and to its knowledge of a leader, for the
  steps that neither count a vote nor take entries from a leader.
\<close>

definition carries_votes :: "raft \<Rightarrow> raft \<Rightarrow> bool" where
  "carries_votes st st' \<longleftrightarrow> (current_role st' \<noteq> kFollower \<longrightarrow>
     (vote_pool st' \<subseteq> {self_id st'} \<and>
        (vote_pool st' \<noteq> {} \<longrightarrow> vote_for st' (current_term st') = Some (self_id st'))) \<or>
     (current_role st \<noteq> kFollower \<and> vote_pool st' = vote_pool st \<and>
        current_term st' = current_term st))"

definition carries_leader :: "raft \<Rightarrow> raft \<Rightarrow> bool" where
  "carries_leader st st' \<longleftrightarrow>
     leader_id st' = -1 \<or> (leader_id st' = leader_id st \<and> current_term st' = current_term st)"

lemma carries_refl: "carries_votes st st" "carries_leader st st"
  by (simp_all add: carries_votes_def carries_leader_def)

lemma check_leader_carries:
  "carries_votes st (fst (check_leader_round now t st))"
  "carries_leader st (fst (check_leader_round now t st))"
  by (auto simp: check_leader_round_state carries_votes_def carries_leader_def raft_frame
      StartLeaderElection_votes split: option.splits)

lemma OnRequestVote_carries:
  "carries_votes st (fst (OnRequestVote t1 t2 req st))"
  "carries_leader st (fst (OnRequestVote t1 t2 req st))"
  by (auto simp: carries_votes_def carries_leader_def raft_frame OnRequestVote_role
      OnRequestVote_leader OnRequestVote_pool)

lemma OnAppendEntries_carries:
  assumes "OnAppendEntries t1 t2 req st = Inr (st', resp)"
  shows "carries_votes st st'"
    and "carries_leader st st' \<or>
      (leader_id st' = ae_leader_id req \<and> current_term st' = ae_term req)"
  using assms
  by (auto elim!: OnAppendEntries_cases simp: carries_votes_def carries_leader_def raft_frame
      ae_adopt_term_def ae_learn_leader_def Let_def split: if_splits)

lemma on_ae_response_carries:
  assumes "on_ae_response t i req resp st = Inr (st', nxt)"
  shows "carries_votes st st'" "carries_leader st st'"
  using assms
  by (auto elim!: on_ae_response_cases simp: carries_votes_def carries_leader_def raft_frame
      ae_acknowledged_frame)

lemma meta_append_carries:
  "carries_votes st (snd (meta_append op path st))"
  "carries_leader st (snd (meta_append op path st))"
  by (simp_all add: carries_votes_def carries_leader_def raft_frame)

lemma on_rv_response_default:
  "fst (on_rv_response i default_rv_response st) = st"
  by (simp add: on_rv_response_def default_rv_response_def)

text \<open>
  The election invariant: votes that a candidate or leader holds are on record for its
  term, and whoever is named leader, by a server or in a request, is elected.
\<close>

definition votes_backed :: "int list \<Rightarrow> cluster \<Rightarrow> bool" where
  "votes_backed ids c \<longleftrightarrow>
     (\<forall>n \<in> set ids. current_role (node c n) \<noteq> kFollower \<longrightarrow>
        (\<forall>v \<in> vote_pool (node c n). vote_for (node c v) (current_term (node c n)) = Some n))"

definition leaders_elected :: "int list \<Rightarrow> cluster \<Rightarrow> bool" where
  "leaders_elected ids c \<longleftrightarrow>
     (\<forall>n \<in> set ids. leader_id (node c n) \<noteq> -1 \<longrightarrow>
        elected ids c (leader_id (node c n)) (current_term (node c n))) \<and>
     (\<forall>n i req. (n, i, req) \<in> ae_net c \<longrightarrow> elected ids c n (ae_term req))"

definition election_inv :: "int list \<Rightarrow> cluster \<Rightarrow> bool" where
  "election_inv ids c \<longleftrightarrow> members_ok ids c \<and> messages_ok ids c \<and> grants_ok c \<and>
     votes_backed ids c \<and> leaders_elected ids c"

text \<open>A server whose pool of votes is on record and reaches the quorum size is elected.\<close>

lemma pool_elects:
  assumes "members_ok ids c" and "n \<in> set ids" and "Q \<subseteq> set ids"
    and "quorum_size (node c n) \<le> int (card Q)"
    and "\<forall>v \<in> Q. vote_for (node c v) t = Some n"
  shows "elected ids c n t"
proof -
  have "majority ids Q"
    using assms(3,4) members_okD(4) [OF assms(1,2)] unfolding majority_def by linarith
  with assms(5) show ?thesis unfolding elected_def by blast
qed


text \<open>One step, seen from all servers at once.\<close>

lemma cluster_step_carries:
  assumes "cluster_step ids c l c'" and "\<And>n i req. l \<noteq> Vote_reply n i req"
  shows "carries_votes (node c n) (node c' n)"
  using assms(1)
proof (cases rule: cluster_step.cases)
  case (timer k now t)
  then show ?thesis by (simp add: check_leader_carries carries_refl)
next
  case (handle_rv k i req t1 t2 st' resp)
  then show ?thesis
    using OnRequestVote_carries(1) [of "node c i" t1 t2 req] by (simp add: carries_refl)
next
  case (handle_ae k i req t1 t2 st' resp)
  then show ?thesis
    using OnAppendEntries_carries(1) [OF handle_ae(4)] by (simp add: carries_refl)
next
  case (reply_ae k i req resp t st' nxt)
  then show ?thesis
    using on_ae_response_carries(1) [OF reply_ae(6)] by (simp add: carries_refl)
next
  case (skip_ae k i req t st' nxt)
  then show ?thesis
    using on_ae_response_carries(1) [OF skip_ae(5)] by (simp add: carries_refl)
next
  case (client k op path)
  then show ?thesis by (simp add: meta_append_carries carries_refl)
qed (use assms(2) in \<open>simp_all add: carries_refl\<close>)

lemma cluster_step_carries_leader:
  assumes "cluster_step ids c l c'" and "\<And>n i req. l \<noteq> Vote_reply n i req"
  shows "carries_leader (node c n) (node c' n) \<or>
    (\<exists>k i req. (k, i, req) \<in> ae_net c \<and> leader_id (node c' n) = ae_leader_id req \<and>
       current_term (node c' n) = ae_term req)"
  using assms(1)
proof (cases rule: cluster_step.cases)
  case (timer k now t)
  then show ?thesis by (simp add: check_leader_carries carries_refl)
next
  case (handle_rv k i req t1 t2 st' resp)
  then show ?thesis
    using OnRequestVote_carries(2) [of "node c i" t1 t2 req] by (simp add: carries_refl)
next
  case (handle_ae k i req t1 t2 st' resp)
  then show ?thesis
    using OnAppendEntries_carries(2) [OF handle_ae(4)] by (auto simp: carries_refl)
next
  case (reply_ae k i req resp t st' nxt)
  then show ?thesis
    using on_ae_response_carries(2) [OF reply_ae(6)] by (simp add: carries_refl)
next
  case (skip_ae k i req t st' nxt)
  then show ?thesis
    using on_ae_response_carries(2) [OF skip_ae(5)] by (simp add: carries_refl)
next
  case (client k op path)
  then show ?thesis by (simp add: meta_append_carries carries_refl)
qed (use assms(2) in \<open>simp_all add: carries_refl\<close>)

text \<open>The vote that a timely reply adds to a pool is on record.\<close>

lemma vote_reply_backed:
  assumes "election_inv ids c" and "n \<in> set ids" and "(n, i, req, resp) \<in> rv_back c"
    and "rv_term req = current_term (node c n)" and "current_role (node c n) = kCandidate"
    and "rvr_vote_granted resp"
  shows "\<forall>v \<in> insert i (vote_pool (node c n)). vote_for (node c v) (current_term (node c n)) = Some n"
proof -
  have "grants_ok c" and "votes_backed ids c"
    using assms(1) by (simp_all add: election_inv_def)
  then have "vote_for (node c i) (rv_term req) = Some n"
    using assms(3,6) unfolding grants_ok_def by blast
  moreover have "\<forall>v \<in> vote_pool (node c n). vote_for (node c v) (current_term (node c n)) = Some n"
    using \<open>votes_backed ids c\<close> assms(2,5) unfolding votes_backed_def by simp
  ultimately show ?thesis using assms(4) by simp
qed

text \<open>A pool that a step carries over stays on record.\<close>

lemma votes_backed_carry:
  assumes step: "cluster_step ids c l c'" and inv: "election_inv ids c" and n: "n \<in> set ids"
    and carries: "carries_votes (node c n) (node c' n)"
    and "current_role (node c' n) \<noteq> kFollower" and v: "v \<in> vote_pool (node c' n)"
  shows "vote_for (node c' v) (current_term (node c' n)) = Some n"
proof -
  have m: "members_ok ids c" "messages_ok ids c" and vb: "votes_backed ids c"
    using inv by (simp_all add: election_inv_def)
  have self: "self_id (node c' n) = n"
    using members_ok_step [OF step m] n by (rule members_okD(2))
  show ?thesis
  proof (cases "current_role (node c n) \<noteq> kFollower \<and> vote_pool (node c' n) = vote_pool (node c n) \<and>
        current_term (node c' n) = current_term (node c n)")
    case True
    with vb n v have "vote_for (node c v) (current_term (node c n)) = Some n"
      by (simp add: votes_backed_def)
    with True show ?thesis by (simp add: cluster_step_votes [OF step m])
  next
    case False
    with assms self show ?thesis by (auto simp: carries_votes_def)
  qed
qed

lemma votes_backed_step:
  assumes step: "cluster_step ids c l c'" and inv: "election_inv ids c" and "timely c l"
  shows "votes_backed ids c'"
  unfolding votes_backed_def
proof (intro ballI impI)
  fix n v assume n: "n \<in> set ids" and role: "current_role (node c' n) \<noteq> kFollower"
    and v: "v \<in> vote_pool (node c' n)"
  have m: "members_ok ids c" "messages_ok ids c"
    using inv by (simp_all add: election_inv_def)
  note carry = votes_backed_carry [OF step inv n _ role v]
  from step show "vote_for (node c' v) (current_term (node c' n)) = Some n"
  proof (cases "\<exists>k i req. l = Vote_reply k i req")
    case False
    with cluster_step_carries [OF step] show ?thesis by (blast intro: carry)
  next
    case True
    from step True show ?thesis
    proof (cases rule: cluster_step.cases)
      case (reply_rv k i req resp)
      show ?thesis
      proof (cases "k = n \<and> current_role (node c n) = kCandidate \<and> rvr_vote_granted resp")
        case True
        have "v \<in> insert i (vote_pool (node c n))" "current_term (node c' n) = current_term (node c n)"
          using True v reply_rv by (auto simp: on_rv_response_pool raft_frame split: if_splits)
        moreover have "rv_term req = current_term (node c n)"
          using True reply_rv assms(3) by simp
        ultimately have "vote_for (node c v) (current_term (node c n)) = Some n"
          using vote_reply_backed [OF inv n, of i req resp] True reply_rv by blast
        then show ?thesis
          using cluster_step_votes [OF step m] \<open>current_term (node c' n) = _\<close> by simp
      next
        case False
        with reply_rv have "carries_votes (node c n) (node c' n)"
          by (auto simp: carries_votes_def on_rv_response_pool on_rv_response_role raft_frame)
        then show ?thesis by (rule carry)
      qed
    next
      case (skip_rv k i req)
      then have "carries_votes (node c n) (node c' n)"
        by (simp add: on_rv_response_default carries_refl)
      then show ?thesis by (rule carry)
    qed simp_all
  qed
qed

text \<open>A leader is elected for its term.\<close>

lemma leader_elected:
  assumes "election_inv ids c" and "n \<in> set ids" and "current_role (node c n) = kLeader"
  shows "elected ids c n (current_term (node c n))"
proof -
  have "raft_ok (node c n)" "self_id (node c n) = n" and "leaders_elected ids c"
    using assms(1,2) by (auto simp: election_inv_def dest: members_okD)
  then show ?thesis
    using assms(2,3) by (auto simp: raft_ok_def leaders_elected_def)
qed

lemma vote_reply_elects:
  assumes inv: "election_inv ids c" and "cluster_step ids c l c'" and "timely c l"
    and n: "n \<in> set ids" and new: "current_role (node c n) = kCandidate" "current_role (node c' n) = kLeader"
  shows "elected ids c' n (current_term (node c' n))"
proof -
  have m: "members_ok ids c" "messages_ok ids c"
    using inv by (simp_all add: election_inv_def)
  note m' = members_okD [OF members_ok_step [OF assms(2) m] n]
  have "votes_backed ids c'"
    by (rule votes_backed_step [OF assms(2) inv assms(3)])
  then have "\<forall>v \<in> vote_pool (node c' n). vote_for (node c' v) (current_term (node c' n)) = Some n"
    using n new(2) by (simp add: votes_backed_def)
  moreover have "vote_pool (node c' n) \<subseteq> set ids"
    and "quorum_size (node c' n) \<le> int (card (vote_pool (node c' n)))"
    using m' n new(2) by (auto simp: raft_ok_def)
  ultimately show ?thesis
    by (intro pool_elects [OF members_ok_step [OF assms(2) m] n])
qed


lemma vote_reply_leader:
  assumes "cluster_step ids c (Vote_reply k i req) c'"
  shows "leader_id (node c' n) = leader_id (node c n) \<and> current_term (node c' n) = current_term (node c n) \<or>
    current_role (node c n) = kCandidate \<and> current_role (node c' n) = kLeader \<and>
    leader_id (node c' n) = self_id (node c n)"
  using assms
  by (cases rule: cluster_step.cases)
    (auto simp: on_rv_response_role on_rv_response_default raft_frame)

lemma known_leader_step:
  assumes step: "cluster_step ids c l c'" and inv: "election_inv ids c" and "timely c l"
    and n: "n \<in> set ids" and "leader_id (node c' n) \<noteq> -1"
  shows "elected ids c' (leader_id (node c' n)) (current_term (node c' n))"
proof -
  have m: "members_ok ids c" "messages_ok ids c" and le: "leaders_elected ids c"
    using inv by (simp_all add: election_inv_def)
  note stays = elected_step [OF step m]
  have same: ?thesis if "leader_id (node c' n) = leader_id (node c n)"
    "current_term (node c' n) = current_term (node c n)"
    using that le n assms(5) by (intro stays) (simp add: leaders_elected_def)
  show ?thesis
  proof (cases "\<exists>k i req. l = Vote_reply k i req")
    case True
    with step obtain k i req where "cluster_step ids c (Vote_reply k i req) c'" by blast
    from vote_reply_leader [OF this, of n] show ?thesis
      using same vote_reply_elects [OF inv step assms(3) n] members_okD(2) [OF m(1) n] by auto
  next
    case False
    with cluster_step_carries_leader [OF step]
    consider "carries_leader (node c n) (node c' n)"
      | k i req where "(k, i, req) \<in> ae_net c" "leader_id (node c' n) = ae_leader_id req"
          "current_term (node c' n) = ae_term req"
      by blast
    then show ?thesis
    proof cases
      case 1
      with assms(5) same show ?thesis by (auto simp: carries_leader_def)
    next
      case 2
      with le have "elected ids c k (ae_term req)" by (auto simp: leaders_elected_def)
      with 2 messages_okD(3) [OF m(2) 2(1)] show ?thesis by (simp add: stays)
    qed
  qed
qed

lemma request_leader_step:
  assumes step: "cluster_step ids c l c'" and inv: "election_inv ids c"
    and sent: "(n, i, req) \<in> ae_net c'"
  shows "elected ids c' n (ae_term req)"
proof -
  have m: "members_ok ids c" "messages_ok ids c" and le: "leaders_elected ids c"
    using inv by (simp_all add: election_inv_def)
  have "elected ids c n (ae_term req)"
  proof (cases "(n, i, req) \<in> ae_net c")
    case True
    with le show ?thesis by (auto simp: leaders_elected_def)
  next
    case False
    with step sent have "n \<in> set ids" and "remote_call i (node c n) = Call_AE req"
      by (cases rule: cluster_step.cases; auto)+
    then have "current_role (node c n) = kLeader" and "ae_term req = current_term (node c n)"
      by (auto simp: remote_call_def make_ae_request_def Let_def split: role.splits)
    with leader_elected [OF inv \<open>n \<in> set ids\<close>] show ?thesis by simp
  qed
  then show ?thesis by (rule elected_step [OF step m])
qed

lemma election_inv_step:
  assumes "cluster_step ids c l c'" and "election_inv ids c" and "timely c l"
  shows "election_inv ids c'"
proof -
  have inv: "members_ok ids c" "messages_ok ids c" "grants_ok c"
    using assms(2) by (simp_all add: election_inv_def)
  show ?thesis
    unfolding election_inv_def leaders_elected_def
    using members_ok_step [OF assms(1) inv(1,2)] messages_ok_step [OF assms(1) inv(1,2)]
      grants_ok_step [OF assms(1) inv] votes_backed_step [OF assms]
      known_leader_step [OF assms] request_leader_step [OF assms(1,2)]
    by blast
qed

lemma distinct_hosts_quorum:
  assumes "distinct (map fst hosts)" and "fst ` set hosts = set ids - {n}" and "n \<in> set ids"
  shows "int (length hosts) + 1 = int (card (set ids))"
proof -
  have "length hosts = card (fst ` set hosts)"
    using distinct_card [OF assms(1)] by simp
  also have "\<dots> = card (set ids) - 1"
    using assms(2,3) by simp
  finally have "length hosts = card (set ids) - 1" .
  moreover have "0 < card (set ids)"
    using assms(3) by (auto simp: card_gt_0_iff)
  ultimately show ?thesis by linarith
qed

lemma fresh_server_ok:
  assumes "fresh_server ids n st" and "n \<in> set ids" and "-1 \<notin> set ids"
  shows "raft_ok st" "self_id st = n" "peer_ids st = set ids - {n}"
    "quorum_size st = int (card (set ids)) div 2 + 1" "vote_pool st = {}"
    "current_role st = kFollower" "leader_id st = -1" "log_wf (raft_log st)"
proof -
  obtain t junk name hosts where st: "st = new_raft t junk n name hosts"
    and hosts: "distinct (map fst hosts)" "fst ` set hosts = set ids - {n}"
    using assms(1) by (auto simp: fresh_server_def)
  note f = new_raft_fields [of t junk n name hosts]
  show "raft_ok st"
    using assms(2,3) hosts by (auto simp: st intro!: new_raft_ok)
  show "peer_ids st = set ids - {n}"
    using hosts(2) f(2) by (metis peer_ids_def set_map st)
  show "quorum_size st = int (card (set ids)) div 2 + 1"
    using distinct_hosts_quorum [OF hosts assms(2)] f(6) by (simp add: st)
  show "self_id st = n" "vote_pool st = {}" "current_role st = kFollower" "leader_id st = -1"
    by (simp_all add: st new_raft_fields)
  show "log_wf (raft_log st)"
    by (simp add: st new_raft_fields log_wf_def new_log_def)
qed


lemma initial_cluster_inv:
  assumes "initial_cluster ids c"
  shows "election_inv ids c"
proof -
  have fresh: "fresh_server ids n (node c n)" if "n \<in> set ids" for n
    using assms that by (simp add: initial_cluster_def)
  have ids: "-1 \<notin> set ids" using assms by (simp add: initial_cluster_def)
  note f = fresh_server_ok [OF fresh _ ids]
  have "members_ok ids c"
    by (simp add: members_ok_def f(1-4))
  moreover have "messages_ok ids c" "grants_ok c"
    using assms by (simp_all add: initial_cluster_def messages_ok_def grants_ok_def)
  moreover have "votes_backed ids c" "leaders_elected ids c"
    using assms by (simp_all add: votes_backed_def leaders_elected_def f(6,7) initial_cluster_def)
  ultimately show ?thesis by (simp add: election_inv_def)
qed

lemma reachable_election_inv: "reachable timely ids c \<Longrightarrow> election_inv ids c"
  by (induction rule: reachable.induct) (auto intro: initial_cluster_inv election_inv_step)

lemma reachable_base:
  "reachable P ids c \<Longrightarrow> members_ok ids c \<and> messages_ok ids c \<and> grants_ok c"
proof (induction rule: reachable.induct)
  case (start c)
  then show ?case using initial_cluster_inv by (simp add: election_inv_def)
next
  case (step c l c')
  then show ?case
    using members_ok_step [OF step.hyps(3)] messages_ok_step [OF step.hyps(3)]
      grants_ok_step [OF step.hyps(3)] by blast
qed


section \<open>A concrete run\<close>

text \<open>
  Three servers.  Server 1 times out, asks server 3 for its vote in term 1 and gets it.
  From here the run has two continuations: the reply arrives in time, or it arrives after
  server 1 has started its next election.
\<close>

definition demo_tick :: tick where
  "demo_tick = \<lparr>t_now = 0, t_delay = 500\<rparr>"

definition demo_server :: "int \<Rightarrow> raft" where
  "demo_server n = new_raft demo_tick (\<lambda>_. 0) n ''host''
     (filter (\<lambda>(i, h). i \<noteq> n) [(1, ''a''), (2, ''b''), (3, ''c'')])"

definition demo_start :: cluster where
  "demo_start = \<lparr>node = demo_server, outstanding = (\<lambda>_ _. No_call),
     rv_net = {}, rv_back = {}, ae_net = {}, ae_back = {}\<rparr>"

definition demo_timeout :: "raft \<Rightarrow> raft" where
  "demo_timeout st = fst (check_leader_round 600 demo_tick st)"

definition demo_vote :: "rv_request \<Rightarrow> raft \<Rightarrow> raft \<times> rv_response" where
  "demo_vote req st = OnRequestVote demo_tick demo_tick req st"

text \<open>The candidate \<open>n\<close> asks server 3 and server 3 answers.\<close>

definition demo_ask :: "int \<Rightarrow> cluster \<Rightarrow> cluster" where
  "demo_ask n c =
     (let req = make_rv_request (node c n)
      in (set_call n 3 (Call_RV req) c)\<lparr>rv_net := insert (n, 3, req) (rv_net c)\<rparr>)"

definition demo_answer :: "int \<Rightarrow> rv_request \<Rightarrow> cluster \<Rightarrow> cluster" where
  "demo_answer n req c =
     (let (st', resp) = demo_vote req (node c 3)
      in (set_node 3 st' c)\<lparr>rv_back := insert (n, 3, req, resp) (rv_back c)\<rparr>)"

definition demo_count :: "int \<Rightarrow> rv_response \<Rightarrow> cluster \<Rightarrow> cluster" where
  "demo_count n resp c = set_node n (fst (on_rv_response 3 resp (node c n))) (set_call n 3 No_call c)"

definition demo_req1 :: rv_request where
  "demo_req1 = make_rv_request (demo_timeout (demo_server 1))"

definition demo_voted :: cluster where
  "demo_voted = demo_answer 1 demo_req1 (demo_ask 1
     (set_node 1 (demo_timeout (demo_server 1)) demo_start))"

definition demo_elected :: cluster where
  "demo_elected = demo_count 1 (snd (demo_vote demo_req1 (demo_server 3))) demo_voted"

lemma demo_ask_step:
  assumes "reachable P [1, 2, 3] c" and "P c (Send n 3)"
    and "n \<in> {1, 2}" "3 \<in> peer_ids (node c n)" "outstanding c n 3 = No_call"
    "current_role (node c n) = kCandidate"
  shows "reachable P [1, 2, 3] (demo_ask n c)"
  unfolding demo_ask_def Let_def
  by (rule reachable.step [OF assms(1,2) cluster_step.send_rv])
    (use assms in \<open>auto simp: remote_call_def\<close>)

lemma demo_answer_step:
  assumes "reachable P [1, 2, 3] c" and "P c (Handle 3)" and "(n, 3, req) \<in> rv_net c"
  shows "reachable P [1, 2, 3] (demo_answer n req c)"
proof -
  obtain st' resp where v: "demo_vote req (node c 3) = (st', resp)" by fastforce
  show ?thesis
    unfolding demo_answer_def v Let_def prod.case
    by (rule reachable.step [OF assms(1,2) cluster_step.handle_rv [OF assms(3)
          v [unfolded demo_vote_def]]])
qed

lemma demo_timeout_step:
  assumes "reachable P [1, 2, 3] c" and "P c (Timer n)" and "n \<in> {1, 2}"
  shows "reachable P [1, 2, 3] (set_node n (demo_timeout (node c n)) c)"
  unfolding demo_timeout_def
  by (rule reachable.step [OF assms(1,2) cluster_step.timer]) (use assms(3) in auto)

lemma demo_count_step:
  assumes "reachable P [1, 2, 3] c" and "P c (Vote_reply n 3 req)"
    and "n \<in> {1, 2}" "outstanding c n 3 = Call_RV req" "(n, 3, req, resp) \<in> rv_back c"
  shows "reachable P [1, 2, 3] (demo_count n resp c)"
  unfolding demo_count_def
  by (rule reachable.step [OF assms(1,2) cluster_step.reply_rv]) (use assms(3-) in auto)


lemma demo_start_initial: "initial_cluster [1, 2, 3] demo_start"
proof -
  have "fresh_server [1, 2, 3] n (demo_server n)" if "n \<in> {1, 2, 3}" for n
  proof -
    define hosts where "hosts = filter (\<lambda>(i, h). i \<noteq> n) [(1 :: int, ''a''), (2, ''b''), (3, ''c'')]"
    have "distinct (map fst hosts)" and "fst ` set hosts = set [1, 2, 3] - {n}"
      using that by (auto simp: hosts_def)
    then show ?thesis
      unfolding fresh_server_def demo_server_def hosts_def [symmetric] by blast
  qed
  then show ?thesis by (simp add: initial_cluster_def demo_start_def)
qed

lemmas demo_eval =
  demo_timeout_def demo_vote_def demo_server_def demo_tick_def new_raft_def new_RemoteHost_def
  check_leader_round_def StartLeaderElection_def PostponeElection_def Let_def new_log_def
  make_rv_request_def GetLastLogIndex_def GetLastLogTerm_def GetLastLogTermAndIndex_def
  OnRequestVote_def ChangeToFollower_def on_rv_response_def ChangeToLeader_def peer_ids_def

lemma demo_candidate:
  "current_role (demo_timeout (demo_server 1)) = kCandidate"
  "3 \<in> peer_ids (demo_timeout (demo_server 1))"
  by (simp_all add: demo_eval)

lemma demo_leader:
  "current_role (fst (on_rv_response 3 (snd (demo_vote demo_req1 (demo_server 3)))
     (demo_timeout (demo_server 1)))) = kLeader"
  "current_term (fst (on_rv_response 3 (snd (demo_vote demo_req1 (demo_server 3)))
     (demo_timeout (demo_server 1)))) = 1"
  by (simp_all add: demo_req1_def demo_eval)

lemma demo_voted_reachable:
  assumes "\<And>c. P c (Timer 1)" "\<And>c. P c (Send 1 3)" "\<And>c. P c (Handle 3)"
  shows "reachable P [1, 2, 3] demo_voted"
proof -
  have "reachable P [1, 2, 3] demo_start"
    by (rule reachable.start [OF demo_start_initial])
  from demo_timeout_step [OF this assms(1)]
  have "reachable P [1, 2, 3] (set_node 1 (demo_timeout (demo_server 1)) demo_start)"
    by (simp add: demo_start_def)
  then have "reachable P [1, 2, 3] (demo_ask 1 (set_node 1 (demo_timeout (demo_server 1)) demo_start))"
    by (rule demo_ask_step) (simp_all add: assms demo_candidate demo_start_def)
  then show ?thesis
    unfolding demo_voted_def
    by (rule demo_answer_step) (simp_all add: assms demo_ask_def demo_req1_def Let_def)
qed

lemma demo_voted_state:
  "node demo_voted 1 = demo_timeout (demo_server 1)"
  "node demo_voted 2 = demo_server 2"
  "node demo_voted 3 = fst (demo_vote demo_req1 (demo_server 3))"
  "outstanding demo_voted = (\<lambda>n i. if n = 1 \<and> i = 3 then Call_RV demo_req1 else No_call)"
  "rv_net demo_voted = {(1, 3, demo_req1)}"
  "rv_back demo_voted = {(1, 3, demo_req1, snd (demo_vote demo_req1 (demo_server 3)))}"
  by (auto simp: demo_voted_def demo_answer_def demo_ask_def demo_start_def Let_def fun_eq_iff
      demo_req1_def split: prod.splits)

lemma demo_elected_reachable: "reachable timely [1, 2, 3] demo_elected"
  unfolding demo_elected_def
proof (rule demo_count_step)
  show "reachable timely [1, 2, 3] demo_voted" by (rule demo_voted_reachable) simp_all
  show "timely demo_voted (Vote_reply 1 3 demo_req1)"
    by (simp add: demo_voted_state demo_req1_def make_rv_request_def)
qed (simp_all add: demo_voted_state)

lemma demo_elected_leader:
  "current_role (node demo_elected 1) = kLeader" "current_term (node demo_elected 1) = 1"
  using demo_leader by (simp_all add: demo_elected_def demo_count_def demo_voted_state)

text \<open>The new leader sends its first heartbeat to server 3, which learns who leads.\<close>

definition demo_beat_req :: ae_request where
  "demo_beat_req = make_ae_request 3 (node demo_elected 1)"

definition demo_beat_sent :: cluster where
  "demo_beat_sent = (set_call 1 3 (Call_AE demo_beat_req) demo_elected)
     \<lparr>ae_net := {(1, 3, demo_beat_req)}\<rparr>"

definition demo_follower :: raft where
  "demo_follower = (PostponeElection demo_tick (node demo_elected 3))\<lparr>leader_id := 1\<rparr>"

definition demo_beat :: cluster where
  "demo_beat = (set_node 3 demo_follower demo_beat_sent)\<lparr>ae_back :=
     {(1, 3, demo_beat_req, \<lparr>aer_term = 1, aer_success = True, aer_last_log_index = Some 0\<rparr>)}\<rparr>"

lemma demo_elected_state:
  "outstanding demo_elected = (\<lambda>n i. No_call)"
  "ae_net demo_elected = {}" "ae_back demo_elected = {}"
  "node demo_elected 3 = fst (demo_vote demo_req1 (demo_server 3))"
  by (auto simp: demo_elected_def demo_count_def demo_voted_def demo_answer_def demo_ask_def
      demo_start_def Let_def fun_eq_iff split: prod.splits)

lemma demo_beat_handled:
  "OnAppendEntries demo_tick demo_tick demo_beat_req (node demo_elected 3) =
     Inr (demo_follower, \<lparr>aer_term = 1, aer_success = True, aer_last_log_index = Some 0\<rparr>)"
proof -
  have "node demo_elected 1 = fst (on_rv_response 3 (snd (demo_vote demo_req1 (demo_server 3)))
      (demo_timeout (demo_server 1)))"
    by (simp add: demo_elected_def demo_count_def demo_voted_state)
  then have req: "demo_beat_req = \<lparr>ae_term = 1, ae_leader_id = 1, ae_prev_log_index = 0,
      ae_prev_log_term = 0, ae_entries = [], ae_leader_commit_index = 0\<rparr>"
    by (simp add: demo_beat_req_def make_ae_request_def GetNextIndex_def GetLastCommitIndex_def
        demo_req1_def demo_eval)
  show ?thesis
    by (simp add: req OnAppendEntries_def demo_follower_def demo_elected_state demo_req1_def demo_eval
        ae_adopt_term_def ae_learn_leader_def ae_append_def ae_commit_def ae_debug_print_def
        GetLastCommitIndex_def default_ae_response_def)
qed

lemma demo_beat_reachable: "reachable timely [1, 2, 3] demo_beat"
proof -
  have peer: "3 \<in> peer_ids (node demo_elected 1)"
    using reachable_base [OF demo_elected_reachable] by (simp add: members_ok_def)
  have call: "remote_call 3 (node demo_elected 1) = Call_AE demo_beat_req"
    by (simp add: remote_call_def demo_elected_leader demo_beat_req_def)
  have "cluster_step [1, 2, 3] demo_elected (Send 1 3) demo_beat_sent"
    using cluster_step.send_ae [OF _ peer _ call, of "[1, 2, 3]"]
    by (simp add: demo_elected_state demo_beat_sent_def)
  then have sent: "reachable timely [1, 2, 3] demo_beat_sent"
    by (rule reachable.step [OF demo_elected_reachable, rotated]) simp
  have "cluster_step [1, 2, 3] demo_beat_sent (Handle 3) demo_beat"
    using cluster_step.handle_ae [of 1 3 demo_beat_req demo_beat_sent demo_tick demo_tick
        demo_follower _ "[1, 2, 3]"] demo_beat_handled
    by (simp add: demo_beat_sent_def demo_beat_def demo_elected_state)
  then show ?thesis
    by (rule reachable.step [OF sent, rotated]) simp
qed

lemma demo_beat_state:
  "leader_id (node demo_beat 3) = 1" "current_term (node demo_beat 3) = 1"
  "node demo_beat 1 = node demo_elected 1" "ae_net demo_beat = {(1, 3, demo_beat_req)}"
  by (simp_all add: demo_beat_def demo_beat_sent_def demo_follower_def raft_frame
      demo_elected_state demo_req1_def demo_eval)


section \<open>Election safety\<close>

text \<open>
  C1. Election safety: in every state a cluster can reach when replies to vote requests are
  counted in the term they were asked for, two leaders of the same term are the same server.
\<close>

theorem election_safety:
  assumes "reachable timely ids c" and "n \<in> set ids" "m \<in> set ids"
    and "current_role (node c n) = kLeader" "current_role (node c m) = kLeader"
    and "current_term (node c n) = current_term (node c m)"
  shows "n = m"
proof -
  have inv: "election_inv ids c" by (rule reachable_election_inv [OF assms(1)])
  have "elected ids c n (current_term (node c n))"
    by (rule leader_elected [OF inv assms(2,4)])
  moreover have "elected ids c m (current_term (node c n))"
    unfolding assms(6) by (rule leader_elected [OF inv assms(3,5)])
  ultimately show ?thesis by (rule elected_unique)
qed

theorem election_safety_witness:
  "current_role (node demo_elected 1) = kLeader \<and>
   \<not> (current_role (node demo_elected 2) = kLeader \<and> current_term (node demo_elected 2) = 1) \<and>
   \<not> (current_role (node demo_elected 3) = kLeader \<and> current_term (node demo_elected 3) = 1)"
proof -
  have "1 = m" if "m \<in> set [1, 2, 3]" "current_role (node demo_elected m) = kLeader"
    "current_term (node demo_elected m) = 1" for m
    by (rule election_safety [OF demo_elected_reachable])
      (use that demo_elected_leader in auto)
  then show ?thesis using demo_elected_leader(1) by fastforce
qed

text \<open>
  Agreement on the leader: two servers of the same term that both know a leader know
  the same one, under the same condition on replies.
\<close>

theorem leader_agreement:
  assumes "reachable timely ids c" and "n \<in> set ids" "m \<in> set ids"
    and "GetLeader (node c n) \<noteq> -1" "GetLeader (node c m) \<noteq> -1"
    and "current_term (node c n) = current_term (node c m)"
  shows "GetLeader (node c n) = GetLeader (node c m)"
  using reachable_election_inv [OF assms(1)] assms(2-)
  unfolding election_inv_def leaders_elected_def GetLeader_def
  by (metis elected_unique)

theorem leader_agreement_witness:
  "GetLeader (node demo_beat 1) = GetLeader (node demo_beat 3) \<and> GetLeader (node demo_beat 3) = 1"
proof -
  have "members_ok [1, 2, 3] demo_beat"
    using reachable_base [OF demo_beat_reachable] by simp
  then have "GetLeader (node demo_beat 1) = 1"
    using demo_elected_leader(1) members_okD(1,2) [of "[1, 2, 3]" demo_beat 1]
    by (simp add: raft_ok_def GetLeader_def demo_beat_state)
  moreover have "GetLeader (node demo_beat 3) = 1"
    by (simp add: GetLeader_def demo_beat_state)
  ultimately show ?thesis
    using leader_agreement [OF demo_beat_reachable, of 1 3] demo_elected_leader(2)
    by (simp add: demo_beat_state)
qed

text \<open>
  Requests with entries come from one server per term: two AppendEntries requests of the
  same term on the network have the same sender.
\<close>

theorem one_sender_per_term:
  assumes "reachable timely ids c"
    and "(n, i, req) \<in> ae_net c" "(m, j, req') \<in> ae_net c" and "ae_term req = ae_term req'"
  shows "n = m"
  using reachable_election_inv [OF assms(1)] assms(2-)
  unfolding election_inv_def leaders_elected_def by (metis elected_unique)


theorem one_sender_per_term_witness:
  "(1, 3, demo_beat_req) \<in> ae_net demo_beat \<and> (2, 3, demo_beat_req) \<notin> ae_net demo_beat"
proof -
  have sent: "(1, 3, demo_beat_req) \<in> ae_net demo_beat" by (simp add: demo_beat_state)
  have "(1 :: int) = 2" if "(2, 3, demo_beat_req) \<in> ae_net demo_beat"
    by (rule one_sender_per_term [OF demo_beat_reachable sent that]) simp
  with sent show ?thesis by auto
qed

end
