(* ===== verification/Raft_Server.thy ===== *)
theory Raft_Server
  imports Raft_Threads
begin

text \<open>
  Properties of one server: what its handlers answer, what its threads do with the answers,
  and what holds over its whole life.  A request is well formed when its entries are
  numbered from \<open>prev_log_index + 1\<close>; the requests that a leader builds are.
\<close>

section \<open>Well-formed requests\<close>

definition ae_request_ok :: "ae_request \<Rightarrow> bool" where
  "ae_request_ok req \<longleftrightarrow>
     0 \<le> ae_prev_log_index req \<and> numbered_from (ae_prev_log_index req + 1) (ae_entries req)"

text \<open>Where a request meets a numbered log; \<open>runs_over\<close> is the case that breaks the iterator.\<close>

definition runs_over :: "entry list \<Rightarrow> ae_request \<Rightarrow> bool" where
  "runs_over log req \<longleftrightarrow> ae_entries req \<noteq> [] \<and> ae_prev_log_index req < int (length log) \<and>
     agrees_at log (hd (ae_entries req)) \<and>
     int (length log) < ae_prev_log_index req + int (length (ae_entries req))"

lemma make_ae_request_ok:
  assumes "log_wf (raft_log st)" and "1 \<le> GetNextIndex i st"
  shows "ae_request_ok (make_ae_request i st)"
  using assms GetEntriesStartAt_numbered [of "raft_log st" "GetNextIndex i st - 1"]
  by (simp add: ae_request_ok_def make_ae_request_def Let_def)

lemma request_front:
  assumes "ae_request_ok req" and "ae_entries req \<noteq> []"
  obtains e es where "ae_entries req = e # es" "e_index e = ae_prev_log_index req + 1"
    "numbered_from (ae_prev_log_index req + 1) (e # es)"
  using assms by (cases "ae_entries req") (auto simp: ae_request_ok_def)

text \<open>The log part of the handler, over a numbered log.\<close>

definition ae_log_spec :: "entry list \<Rightarrow> ae_request \<Rightarrow> (bool \<times> entry list) option" where
  "ae_log_spec log req =
     (if int (length log) < ae_prev_log_index req then Some (False, log)
      else if ae_entries req = [] then Some (True, log)
      else append_spec log (ae_entries req))"

lemma ae_append_spec:
  assumes "log_wf l" and "ae_request_ok req"
  shows "ae_append req l =
    (case ae_log_spec (memory_log l) req of
       None \<Rightarrow> Inl Invalid_iterator
     | Some (ok, log') \<Rightarrow> Inr (ok,
         if int (length (memory_log l)) < ae_prev_log_index req
         then Some (int (length (memory_log l))) else None, l\<lparr>memory_log := log'\<rparr>))"
proof -
  have "ae_entries req \<noteq> [] \<Longrightarrow> Append_entries (ae_entries req) l =
    (case append_spec (memory_log l) (ae_entries req) of
       None \<Rightarrow> Inl Invalid_iterator
     | Some (ok, log') \<Rightarrow> Inr (ok, l\<lparr>memory_log := log'\<rparr>))"
    using assms by (intro append_refines) (auto simp: ae_request_ok_def)
  then show ?thesis
    using assms(1)
    by (auto simp: ae_append_def ae_log_spec_def GetLastLogIndex_wf split: option.splits prod.splits)
qed


lemma append_spec_None:
  assumes "numbered_from k news" and "news \<noteq> []" and "1 \<le> k"
  shows "append_spec log news = None \<longleftrightarrow>
    log \<noteq> [] \<and> k \<le> int (length log) \<and> agrees_at log (hd news) \<and>
    int (length log) < k - 1 + int (length news)"
proof -
  have "e_index (hd news) = k" using assms(1,2) by (cases news) auto
  then show ?thesis using assms(3) by (auto simp: append_spec_def Let_def)
qed

lemma ae_log_spec_None:
  assumes "ae_request_ok req"
  shows "ae_log_spec log req = None \<longleftrightarrow> log \<noteq> [] \<and> runs_over log req"
  using assms append_spec_None [of "ae_prev_log_index req + 1" "ae_entries req" log]
  by (auto simp: ae_log_spec_def runs_over_def ae_request_ok_def)

lemma append_spec_wf:
  assumes "numbered_from 1 log" and "numbered_from k news" and "news \<noteq> []" and "1 \<le> k"
    and "log = [] \<longrightarrow> k = 1" and "append_spec log news = Some (ok, log')"
  shows "numbered_from 1 log'"
proof -
  define l where "l = \<lparr>memory_log = log, last_commited_index = 0\<rparr>"
  have wf: "log_wf l" using assms(1) by (simp add: log_wf_def l_def)
  have "Append_entries news l = Inr (ok, l\<lparr>memory_log := log'\<rparr>)"
    using append_refines [OF wf assms(2,4,3)] assms(6) by (simp add: l_def)
  then have "log_wf (l\<lparr>memory_log := log'\<rparr>)"
    by (rule Append_entries_wf [OF wf assms(2,4,3), rotated]) (use assms(5) in \<open>simp add: IsEmpty_def l_def\<close>)
  then show ?thesis by (simp add: log_wf_def)
qed

lemma ae_log_spec_wf:
  assumes "ae_request_ok req" and "numbered_from 1 log" and "ae_log_spec log req = Some (ok, log')"
  shows "numbered_from 1 log'"
proof (cases "ae_entries req = [] \<or> int (length log) < ae_prev_log_index req")
  case True
  with assms show ?thesis by (auto simp: ae_log_spec_def split: if_splits)
next
  case False
  with assms show ?thesis
    by (intro append_spec_wf [of log "ae_prev_log_index req + 1" "ae_entries req" ok log'])
      (auto simp: ae_log_spec_def ae_request_ok_def)
qed

lemma append_spec_length:
  assumes "numbered_from k news" and "news \<noteq> []" and "1 \<le> k" and "log = [] \<longrightarrow> k = 1"
    and "append_spec log news = Some (True, log')"
  shows "int (length log') = k - 1 + int (length news)"
proof -
  have "e_index (hd news) = k" using assms(1,2) by (cases news) auto
  with assms show ?thesis
    by (auto simp: append_spec_def Let_def split: if_splits)
qed

lemma ae_log_spec_length:
  assumes "ae_request_ok req" and "ae_entries req \<noteq> []" and "ae_log_spec log req = Some (True, log')"
  shows "int (length log') = ae_prev_log_index req + int (length (ae_entries req))"
proof -
  from assms have "append_spec log (ae_entries req) = Some (True, log')"
    and "\<not> int (length log) < ae_prev_log_index req"
    by (auto simp: ae_log_spec_def split: if_splits)
  moreover from this(2) assms(1) have "log = [] \<longrightarrow> ae_prev_log_index req + 1 = 1"
    by (auto simp: ae_request_ok_def)
  ultimately show ?thesis
    using assms append_spec_length [of "ae_prev_log_index req + 1" "ae_entries req" log log']
    by (simp add: ae_request_ok_def)
qed

text \<open>
  A refused request leaves the log alone, and no request empties a log.
\<close>

lemma ae_log_spec_refused: "ae_log_spec log req = Some (False, log') \<Longrightarrow> log' = log"
  by (auto simp: ae_log_spec_def append_spec_def Let_def split: if_splits)

lemma ae_log_spec_empty:
  assumes "ae_request_ok req" and "ae_log_spec log req = Some (ok, log')"
  shows "log' = [] \<longleftrightarrow> log = [] \<and> (ae_entries req = [] \<or> 0 < ae_prev_log_index req)"
proof (cases ok)
  case True
  with assms(2) have some: "ae_log_spec log req = Some (True, log')" by simp
  show ?thesis
  proof (cases "ae_entries req = []")
    case False
    then have "0 < int (length (ae_entries req))" by simp
    with ae_log_spec_length [OF assms(1) False some] assms(1) have "0 < int (length log')"
      unfolding ae_request_ok_def by linarith
    then have "log' \<noteq> []" by auto
    moreover have "log = [] \<Longrightarrow> ae_prev_log_index req \<le> 0"
      using some by (auto simp: ae_log_spec_def split: if_splits)
    ultimately show ?thesis using False by auto
  qed (use some in \<open>auto simp: ae_log_spec_def split: if_splits\<close>)
next
  case False
  with assms(2) have "log' = log" by (simp add: ae_log_spec_refused)
  moreover have "log = [] \<Longrightarrow> 0 < ae_prev_log_index req"
    using False assms(2) by (auto simp: ae_log_spec_def append_spec_def Let_def split: if_splits)
  ultimately show ?thesis by auto
qed


section \<open>When the handler is defined\<close>

lemma SetLastCommitIndex_defined: "defined (SetLastCommitIndex c l) \<longleftrightarrow> memory_log l \<noteq> []"
  by (simp add: SetLastCommitIndex_def)

lemma ae_commit_defined:
  "defined (ae_commit req l) \<longleftrightarrow> memory_log l \<noteq> [] \<or> ae_leader_commit_index req \<le> 0"
  by (auto simp: ae_commit_def SetLastCommitIndex_defined GetLastCommitIndex_def)

lemma ae_commit_log: "ae_commit req l = Inr l' \<Longrightarrow> memory_log l' = memory_log l"
  by (auto simp: ae_commit_def SetLastCommitIndex_log split: if_splits)

lemma print_log_wf: "log_wf l \<Longrightarrow> defined (print_log l) \<longleftrightarrow> memory_log l \<noteq> []"
  by (auto simp: print_log_def Let_def log_wf_def numbered_last)

lemma ae_debug_print_defined:
  "log_wf l \<Longrightarrow> defined (ae_debug_print req l) \<longleftrightarrow> memory_log l \<noteq> [] \<or> ae_entries req = []"
  by (auto simp: ae_debug_print_def print_log_wf)

lemma OnAppendEntries_defined:
  assumes "log_wf (raft_log st)" and "ae_request_ok req" and "current_term st \<le> ae_term req"
  shows "defined (OnAppendEntries t1 t2 req st) \<longleftrightarrow>
    (case ae_log_spec (memory_log (raft_log st)) req of
       None \<Rightarrow> False
     | Some (ok, log') \<Rightarrow>
         log' \<noteq> [] \<or> (ae_leader_commit_index req \<le> 0 \<and> ae_entries req = []))"
proof -
  define st2 where "st2 = ae_learn_leader req (ae_adopt_term t1 t2 req st)"
  have log: "raft_log st2 = raft_log st" by (simp add: st2_def raft_frame)
  show ?thesis
  proof (cases "ae_log_spec (memory_log (raft_log st)) req")
    case None
    with assms log show ?thesis
      by (simp add: OnAppendEntries_def Let_def st2_def [symmetric] ae_append_spec)
  next
    case (Some r)
    obtain ok log' where r: "r = (ok, log')" by fastforce
    define l where "l = (raft_log st)\<lparr>memory_log := log'\<rparr>"
    have wf: "log_wf l"
      using ae_log_spec_wf [OF assms(2)] assms(1) Some r by (auto simp: log_wf_def l_def)
    have "defined (OnAppendEntries t1 t2 req st) \<longleftrightarrow>
        (\<exists>l'. ae_commit req l = Inr l' \<and> (\<exists>es. ae_debug_print req l' = Inr es))"
      using assms log Some r
      by (simp add: OnAppendEntries_def Let_def st2_def [symmetric] ae_append_spec l_def
          defined_and_then)
    also have "\<dots> \<longleftrightarrow> defined (ae_commit req l) \<and> (memory_log l \<noteq> [] \<or> ae_entries req = [])"
    proof -
      have "defined (ae_debug_print req l') \<longleftrightarrow> memory_log l \<noteq> [] \<or> ae_entries req = []"
        if "ae_commit req l = Inr l'" for l'
        using that wf ae_commit_log [OF that] by (simp add: ae_debug_print_defined log_wf_def)
      then show ?thesis by (metis defined_iff)
    qed
    also have "\<dots> \<longleftrightarrow> log' \<noteq> [] \<or> (ae_leader_commit_index req \<le> 0 \<and> ae_entries req = [])"
      by (auto simp: ae_commit_defined l_def)
    finally show ?thesis using Some r by simp
  qed
qed

lemma append_entries_defined_iff:
  assumes "log_wf (raft_log st)" and "ae_request_ok req"
  shows "defined (OnAppendEntries t1 t2 req st) \<longleftrightarrow>
    ae_term req < current_term st \<or>
    (if IsEmpty (raft_log st)
     then ae_entries req \<noteq> [] \<and> ae_prev_log_index req = 0 \<or>
          ae_entries req = [] \<and> ae_leader_commit_index req \<le> 0
     else \<not> runs_over (memory_log (raft_log st)) req)"
proof (cases "ae_term req < current_term st")
  case True
  then show ?thesis by (simp add: OnAppendEntries_stale)
next
  case False
  note d = OnAppendEntries_defined [OF assms, of t1 t2] ae_log_spec_None [OF assms(2)]
    ae_log_spec_empty [OF assms(2)]
  have prev: "0 \<le> ae_prev_log_index req" using assms(2) by (simp add: ae_request_ok_def)
  show ?thesis
  proof (cases "ae_log_spec (memory_log (raft_log st)) req")
    case None
    with False d show ?thesis by (simp add: IsEmpty_def)
  next
    case (Some r)
    obtain ok log' where r: "r = (ok, log')" by fastforce
    from d(3) [of "memory_log (raft_log st)" ok log'] Some r
    have empty: "log' = [] \<longleftrightarrow> memory_log (raft_log st) = [] \<and>
        (ae_entries req = [] \<or> 0 < ae_prev_log_index req)" by simp
    have "defined (OnAppendEntries t1 t2 req st) \<longleftrightarrow>
        log' \<noteq> [] \<or> (ae_leader_commit_index req \<le> 0 \<and> ae_entries req = [])"
      using d(1) False Some r by simp
    moreover have "memory_log (raft_log st) \<noteq> [] \<Longrightarrow> \<not> runs_over (memory_log (raft_log st)) req"
      using d(2) [of "memory_log (raft_log st)"] Some by (metis option.distinct(1))
    moreover have "\<not> 0 < ae_prev_log_index req \<longleftrightarrow> ae_prev_log_index req = 0"
      using prev by linarith
    ultimately have "defined (OnAppendEntries t1 t2 req st) \<longleftrightarrow>
        (if IsEmpty (raft_log st)
         then ae_entries req \<noteq> [] \<and> ae_prev_log_index req = 0 \<or>
              ae_entries req = [] \<and> ae_leader_commit_index req \<le> 0
         else \<not> runs_over (memory_log (raft_log st)) req)"
      unfolding IsEmpty_def using empty
      by (cases "memory_log (raft_log st) = []") auto
    then show ?thesis by (simp only: False simp_thms)
  qed
qed


section \<open>What the handler does\<close>

text \<open>Which leader a server knows after the term check.\<close>

definition follows_after :: "ae_request \<Rightarrow> raft \<Rightarrow> int" where
  "follows_after req st =
     (if current_term st < ae_term req \<or> current_role st = kCandidate \<or> leader_id st = -1
      then ae_leader_id req else leader_id st)"

lemma ae_learn_adopt_leader:
  "current_term st \<le> ae_term req \<Longrightarrow>
   leader_id (ae_learn_leader req (ae_adopt_term t1 t2 req st)) = follows_after req st"
  by (auto simp: follows_after_def ae_learn_leader_def ae_adopt_term_def Let_def raft_frame)

definition commit_after :: "int \<Rightarrow> log_manager \<Rightarrow> int" where
  "commit_after c l =
     (if GetLastCommitIndex l < c \<and> c \<le> GetLastLogIndex l then c else last_commited_index l)"

lemma ae_commit_value:
  assumes "ae_commit req l = Inr l'"
  shows "last_commited_index l' = commit_after (ae_leader_commit_index req) l"
  using assms
  by (auto simp: ae_commit_def commit_after_def SetLastCommitIndex_def GetLastLogIndex_def split: if_splits)

lemma OnAppendEntries_effect:
  assumes wf: "log_wf (raft_log st)" and req: "ae_request_ok req"
    and "current_term st \<le> ae_term req" and run: "OnAppendEntries t1 t2 req st = Inr (st', resp)"
  shows "ae_log_spec (memory_log (raft_log st)) req =
      Some (aer_success resp, memory_log (raft_log st'))" (is ?log)
    and "log_wf (raft_log st')" (is ?wf)
    and "last_commited_index (raft_log st') = commit_after (ae_leader_commit_index req)
      ((raft_log st)\<lparr>memory_log := memory_log (raft_log st')\<rparr>)" (is ?commit)
    and "aer_term resp = current_term st" (is ?reply)
    and "aer_last_log_index resp =
      (if aer_success resp then Some (int (length (memory_log (raft_log st'))))
       else if int (length (memory_log (raft_log st))) < ae_prev_log_index req
       then Some (int (length (memory_log (raft_log st)))) else None)" (is ?index)
    and "current_term st' = ae_term req \<and> leader_id st' = follows_after req st" (is ?state)
proof -
  have "?log \<and> ?wf \<and> ?commit \<and> ?reply \<and> ?index \<and> ?state"
    using run
  proof (cases rule: OnAppendEntries_cases)
    case stale
    with assms(3) show ?thesis by simp
  next
    case (taken ok last_index l l')
    have l': "raft_log st' = l'" and ml: "memory_log l' = memory_log l"
      using taken ae_commit_log by auto
    obtain log' where spec: "ae_log_spec (memory_log (raft_log st)) req = Some (ok, log')"
      and l: "l = (raft_log st)\<lparr>memory_log := log'\<rparr>"
      and li: "last_index = (if int (length (memory_log (raft_log st))) < ae_prev_log_index req
         then Some (int (length (memory_log (raft_log st)))) else None)"
      using taken(2) ae_append_spec [OF wf req] by (auto split: option.splits)
    have log': "memory_log l' = log'" by (simp add: ml l)
    have ok: "aer_success resp = ok" using taken(6) by simp
    have ?log using spec ok l' log' by simp
    moreover have wf': ?wf
      using ae_log_spec_wf [OF req _ spec] wf l' log' by (simp add: log_wf_def)
    moreover have ?commit
      using ae_commit_value [OF taken(3)] l l' log' by simp
    moreover have ?reply ?index
      using taken(6) li wf' l' log' ok by (simp_all add: log_query)
    moreover have ?state
      using taken(1,5) by (simp add: raft_frame ae_adopt_term_term ae_learn_adopt_leader)
    ultimately show ?thesis by simp
  qed
  then show ?log ?wf ?commit ?reply ?index ?state by simp_all
qed

text \<open>
  The rest of the state.  A request of a later term makes any server a follower, one of the
  current term only a candidate; the deadline of the election is drawn anew in either case.
\<close>

definition steps_down :: "ae_request \<Rightarrow> raft \<Rightarrow> bool" where
  "steps_down req st \<longleftrightarrow> current_term st < ae_term req \<or> current_role st = kCandidate"

lemma OnAppendEntries_role:
  assumes "current_term st \<le> ae_term req" and "OnAppendEntries t1 t2 req st = Inr (st', resp)"
  shows "current_role st' = (if steps_down req st then kFollower else current_role st)"
    and "next_election st' = (if steps_down req st then t_now t2 + t_delay t2 else t_now t1 + t_delay t1)"
    and "vote_pool st' = (if current_role st = kCandidate then {} else vote_pool st)"
    and "vote_for st' = vote_for st" "remotes st' = remotes st" "pending_entries st' = pending_entries st"
  using assms(2)
  by (cases rule: OnAppendEntries_cases;
      use assms(1) in \<open>auto simp: steps_down_def ae_learn_leader_def ae_adopt_term_def ChangeToFollower_def
        PostponeElection_def Let_def\<close>)+


section \<open>Properties of the handlers\<close>

text \<open>A follower of term 2 with three entries, and a request of the leader of term 3.\<close>

definition sample_tick :: tick where
  "sample_tick = \<lparr>t_now = 0, t_delay = 700\<rparr>"

definition sample_server :: raft where
  "sample_server = (new_raft sample_tick (\<lambda>_. 0) 2 ''b'' [(1, ''a''), (3, ''c'')])
     \<lparr>raft_log := sample_log, current_term := 2\<rparr>"

definition sample_request :: ae_request where
  "sample_request = \<lparr>ae_term = 3, ae_leader_id = 1, ae_prev_log_index = 3, ae_prev_log_term = 2,
     ae_entries = [sample_entry 3 4], ae_leader_commit_index = 2\<rparr>"

lemma sample_server_fields [simp]:
  "raft_log sample_server = sample_log" "current_term sample_server = 2"
  "self_id sample_server = 2" "vote_for sample_server = Map.empty"
  "current_role sample_server = kFollower" "leader_id sample_server = -1"
  by (simp_all add: sample_server_def new_raft_fields)

lemma sample_request_ok: "ae_request_ok sample_request"
  by (simp add: ae_request_ok_def sample_request_def sample_entry_def)

lemma sample_request_spec:
  "ae_log_spec (memory_log sample_log) sample_request =
     Some (True, memory_log sample_log @ [sample_entry 3 4])"
  by (simp add: ae_log_spec_def append_spec_def sample_log_def sample_request_def sample_entry_def)

lemma not_runs_over_sample: "\<not> runs_over (memory_log sample_log) sample_request"
  by (simp add: runs_over_def sample_log_def sample_request_def)

text \<open>
  C13. \<open>OnAppendEntries\<close> does what its specification says: on a numbered log and for a
  well-formed request of the current or a later term, the success flag and the log are those
  of \<open>ae_log_spec\<close>, the log stays numbered, the commit index moves to the leader's when the
  log reaches it, the reply carries the term from before the call and the last index, and the
  server is in the leader's term and knows a leader.  A request of a later term makes it a
  follower, one of its own term only a candidate, whose votes are dropped; the deadline of the
  election is put off in any case, and votes given, hosts and acknowledgements stay.
\<close>

theorem append_entries_handler:
  assumes "log_wf (raft_log st)" and "ae_request_ok req" and "current_term st \<le> ae_term req"
    and "OnAppendEntries t1 t2 req st = Inr (st', resp)"
  shows "ae_log_spec (memory_log (raft_log st)) req =
      Some (aer_success resp, memory_log (raft_log st')) \<and>
    log_wf (raft_log st') \<and>
    last_commited_index (raft_log st') = commit_after (ae_leader_commit_index req)
      ((raft_log st)\<lparr>memory_log := memory_log (raft_log st')\<rparr>) \<and>
    aer_term resp = current_term st \<and>
    (aer_success resp \<longrightarrow> aer_last_log_index resp = Some (GetLastLogIndex (raft_log st'))) \<and>
    current_term st' = ae_term req \<and> leader_id st' = follows_after req st \<and>
    current_role st' = (if steps_down req st then kFollower else current_role st) \<and>
    next_election st' = (if steps_down req st then t_now t2 + t_delay t2 else t_now t1 + t_delay t1) \<and>
    vote_pool st' = (if current_role st = kCandidate then {} else vote_pool st) \<and>
    vote_for st' = vote_for st \<and> remotes st' = remotes st \<and> pending_entries st' = pending_entries st"
  using OnAppendEntries_effect [OF assms] OnAppendEntries_role [OF assms(3,4)] by (simp add: log_query)

theorem append_entries_handler_witness:
  "\<exists>st' resp. OnAppendEntries sample_tick sample_tick sample_request sample_server = Inr (st', resp) \<and>
     aer_success resp \<and> memory_log (raft_log st') = memory_log sample_log @ [sample_entry 3 4] \<and>
     last_commited_index (raft_log st') = 2 \<and> aer_term resp = 2 \<and> current_term st' = 3 \<and>
     leader_id st' = 1 \<and> current_role st' = kFollower \<and> next_election st' = 700"
proof -
  have "defined (OnAppendEntries sample_tick sample_tick sample_request sample_server)"
    using OnAppendEntries_defined [of sample_server sample_request sample_tick sample_tick]
    by (simp add: sample_log_wf sample_request_ok sample_request_spec)
      (simp add: sample_request_def)
  then obtain st' resp where run:
    "OnAppendEntries sample_tick sample_tick sample_request sample_server = Inr (st', resp)"
    by (auto simp: defined_iff)
  have "current_term sample_server \<le> ae_term sample_request" by (simp add: sample_request_def)
  note h = append_entries_handler [OF _ sample_request_ok this run]
  have "memory_log (raft_log st') = memory_log sample_log @ [sample_entry 3 4]"
    using h by (simp add: sample_log_wf sample_request_spec)
  with h run show ?thesis
    by (simp add: sample_log_wf sample_request_spec)
      (simp add: commit_after_def follows_after_def steps_down_def GetLastCommitIndex_def GetLastLogIndex_def
        sample_log_def sample_request_def sample_entry_def sample_tick_def)
qed

text \<open>
  C32. Exactly when \<open>OnAppendEntries\<close> has defined behaviour, on a numbered log and for a
  well-formed request.  A stale request is always answered.  Otherwise an empty log needs a
  request that fills it from the start or a heartbeat that commits nothing, because the
  commit and the debug print read the last entry, and a non-empty log needs a request that
  does not start inside the log and end beyond it, because the overlay then uses an
  invalidated iterator.
\<close>

theorem append_entries_defined:
  assumes "log_wf (raft_log st)" and "ae_request_ok req"
  shows "defined (OnAppendEntries t1 t2 req st) \<longleftrightarrow>
    ae_term req < current_term st \<or>
    (if IsEmpty (raft_log st)
     then ae_entries req \<noteq> [] \<and> ae_prev_log_index req = 0 \<or>
          ae_entries req = [] \<and> ae_leader_commit_index req \<le> 0
     else \<not> runs_over (memory_log (raft_log st)) req)"
  by (rule append_entries_defined_iff [OF assms])

theorem append_entries_defined_witness:
  "defined (OnAppendEntries sample_tick sample_tick sample_request sample_server) \<and>
   \<not> defined (OnAppendEntries sample_tick sample_tick
     (sample_request\<lparr>ae_entries := []\<rparr>) (sample_server\<lparr>raft_log := new_log\<rparr>))"
proof
  have "\<not> IsEmpty sample_log" by (simp add: IsEmpty_def sample_log_def)
  then show "defined (OnAppendEntries sample_tick sample_tick sample_request sample_server)"
    using append_entries_defined [OF _ sample_request_ok, of sample_server]
    by (simp add: sample_log_wf not_runs_over_sample)
  have "ae_request_ok (sample_request\<lparr>ae_entries := []\<rparr>)"
    by (simp add: ae_request_ok_def sample_request_def)
  then show "\<not> defined (OnAppendEntries sample_tick sample_tick
      (sample_request\<lparr>ae_entries := []\<rparr>) (sample_server\<lparr>raft_log := new_log\<rparr>))"
    using append_entries_defined [of "sample_server\<lparr>raft_log := new_log\<rparr>"
        "sample_request\<lparr>ae_entries := []\<rparr>" sample_tick sample_tick]
    by (simp add: log_wf_def new_log_def IsEmpty_def sample_request_def)
qed

lemma OnRequestVote_effect:
  assumes "OnRequestVote t1 t2 req st = (st', resp)"
  shows "rvr_vote_granted resp \<longleftrightarrow>
      Log_pos (GetLastLogTerm (raft_log st)) (GetLastLogIndex (raft_log st))
        \<le> Log_pos (rv_last_log_term req) (rv_last_log_index req) \<and>
      vote_for st (rv_term req) \<in> {None, Some (rv_candidate_id req)}"
    and "rvr_term resp = current_term st' \<and> current_term st' = max (current_term st) (rv_term req)"
    and "vote_for st' = (if rvr_vote_granted resp
      then (vote_for st)(rv_term req \<mapsto> rv_candidate_id req) else vote_for st)"
    and "(if current_term st < rv_term req then current_role st' = kFollower \<and> leader_id st' = -1
      else current_role st' = current_role st \<and> leader_id st' = leader_id st)"
    and "raft_log st' = raft_log st"
proof -
  have st': "st' = fst (OnRequestVote t1 t2 req st)" and resp: "resp = snd (OnRequestVote t1 t2 req st)"
    using assms by simp_all
  show "rvr_vote_granted resp \<longleftrightarrow>
      Log_pos (GetLastLogTerm (raft_log st)) (GetLastLogIndex (raft_log st))
        \<le> Log_pos (rv_last_log_term req) (rv_last_log_index req) \<and>
      vote_for st (rv_term req) \<in> {None, Some (rv_candidate_id req)}"
    unfolding resp OnRequestVote_granted
    by (simp add: GetLastLogTermAndIndex_def GetLastLogTerm_def GetLastLogIndex_def)
  show "rvr_term resp = current_term st' \<and> current_term st' = max (current_term st) (rv_term req)"
    unfolding st' resp by (simp add: raft_frame) (simp add: OnRequestVote_def Let_def raft_frame split: prod.splits)
  show "vote_for st' = (if rvr_vote_granted resp
      then (vote_for st)(rv_term req \<mapsto> rv_candidate_id req) else vote_for st)"
    unfolding st' resp by (rule OnRequestVote_votes)
  show "(if current_term st < rv_term req then current_role st' = kFollower \<and> leader_id st' = -1
      else current_role st' = current_role st \<and> leader_id st' = leader_id st)"
    unfolding st' by (simp add: OnRequestVote_role OnRequestVote_leader)
  show "raft_log st' = raft_log st" unfolding st' by (simp add: raft_frame)
qed

text \<open>A vote given in the current term puts the election off, and so does a request of a later term.\<close>

lemma OnRequestVote_timing:
  assumes "OnRequestVote t1 t2 req st = (st', resp)"
  shows "next_election st' =
      (if rvr_vote_granted resp \<and> current_term st \<le> rv_term req then t_now t2 + t_delay t2
       else if current_term st < rv_term req then t_now t1 + t_delay t1 else next_election st)"
    and "vote_pool st' = (if current_term st < rv_term req \<and> current_role st = kCandidate then {} else vote_pool st)"
    and "remotes st' = remotes st" "pending_entries st' = pending_entries st"
  using assms by (auto simp: OnRequestVote_def ChangeToFollower_def PostponeElection_def Let_def split: prod.splits if_splits)

text \<open>
  C14. \<open>OnRequestVote\<close>: the vote is granted exactly when the voter's last term and last index
  are both at most the candidate's and the voter has given no vote in that term to anybody
  else; the vote is recorded exactly when it is granted, and the reply carries the term after
  the call, the larger of the two.  A higher term turns the server into a follower that knows
  no leader and drops the votes it has collected.  The election is put off by a vote in the
  term the server is then in, and by a higher term; log, hosts and acknowledgements stay.
\<close>

theorem request_vote_handler:
  assumes "OnRequestVote t1 t2 req st = (st', resp)"
  shows "(rvr_vote_granted resp \<longleftrightarrow>
      Log_pos (GetLastLogTerm (raft_log st)) (GetLastLogIndex (raft_log st))
        \<le> Log_pos (rv_last_log_term req) (rv_last_log_index req) \<and>
      vote_for st (rv_term req) \<in> {None, Some (rv_candidate_id req)}) \<and>
    rvr_term resp = current_term st' \<and> current_term st' = max (current_term st) (rv_term req) \<and>
    vote_for st' = (if rvr_vote_granted resp
      then (vote_for st)(rv_term req \<mapsto> rv_candidate_id req) else vote_for st) \<and>
    (if current_term st < rv_term req then current_role st' = kFollower \<and> leader_id st' = -1
      else current_role st' = current_role st \<and> leader_id st' = leader_id st) \<and>
    next_election st' =
      (if rvr_vote_granted resp \<and> current_term st \<le> rv_term req then t_now t2 + t_delay t2
       else if current_term st < rv_term req then t_now t1 + t_delay t1 else next_election st) \<and>
    vote_pool st' = (if current_term st < rv_term req \<and> current_role st = kCandidate then {} else vote_pool st) \<and>
    raft_log st' = raft_log st \<and> remotes st' = remotes st \<and> pending_entries st' = pending_entries st"
  using OnRequestVote_effect [OF assms] OnRequestVote_timing [OF assms] by simp

definition sample_ballot :: rv_request where
  "sample_ballot = \<lparr>rv_term = 3, rv_candidate_id = 1, rv_last_log_index = 3, rv_last_log_term = 2\<rparr>"

theorem request_vote_handler_witness:
  "rvr_vote_granted (snd (OnRequestVote sample_tick sample_tick sample_ballot sample_server)) \<and>
   vote_for (fst (OnRequestVote sample_tick sample_tick sample_ballot sample_server)) 3 = Some 1"
proof -
  obtain st' resp where "OnRequestVote sample_tick sample_tick sample_ballot sample_server = (st', resp)"
    by fastforce
  with request_vote_handler [OF this] show ?thesis
    by (simp add: sample_ballot_def GetLastLogTerm_def GetLastLogIndex_def sample_log_def sample_entry_def)
qed


section \<open>The life of one server\<close>



text \<open>
  What every run of a server keeps, whatever messages arrive: its identity, its peers and
  its quorum, the order of its terms and every vote it has given.
\<close>

theorem server_history:
  assumes "rtranclp server_step st st'"
  shows "self_id st' = self_id st \<and> peer_ids st' = peer_ids st \<and> quorum_size st' = quorum_size st \<and>
    current_term st \<le> current_term st' \<and> vote_for st \<subseteq>\<^sub>m vote_for st' \<and>
    (current_role st = kLeader \<and> current_term st' = current_term st \<longrightarrow> current_role st' = kLeader)"
  using server.run_identity [OF assms] server.run_term_grows [OF assms]
    server.run_votes_kept [OF assms] server.run_leader_of_term [OF assms] peer_ids_eq
  by blast

lemma sample_timeout: "server_step sample_server (fst (check_leader_round 900 sample_tick sample_server))"
  by (rule server_step.timer)

theorem server_history_witness:
  "current_term sample_server \<le> current_term (fst (check_leader_round 900 sample_tick sample_server))"
  using server_history [OF r_into_rtranclp [of server_step, OF sample_timeout]] by blast

text \<open>
  The invariant of a server: from construction on, a leader names itself and holds the
  votes of a quorum, a candidate names no leader, and all votes and acknowledgements come
  from servers of the cluster.
\<close>

theorem server_invariant:
  assumes "self \<noteq> -1" and "self \<notin> fst ` set hosts"
    and "rtranclp server_step (new_raft t junk self name hosts) st"
  shows "raft_ok st"
  using server_run_ok [OF assms(3)] new_raft_ok [OF assms(1,2)] by blast

theorem server_invariant_witness:
  "raft_ok (fst (check_leader_round 900 sample_tick
     (new_raft sample_tick (\<lambda>_. 0) 2 ''b'' [(1, ''a''), (3, ''c'')])))"
  by (rule server_invariant [OF _ _ r_into_rtranclp [of server_step, OF server_step.timer]]) simp_all


section \<open>The election timer\<close>

text \<open>
  One round of \<open>CheckLeaderLoop\<close>: a server that is not leader and whose deadline has
  passed becomes a candidate of the next term with its own vote, unless it has already voted
  in that term, and its next deadline lies 500 to 1000 milliseconds after the clock reading;
  in all other cases nothing changes.  The loop then sleeps until the deadline, or for ever
  while the server leads.
\<close>

theorem check_leader_starts_election:
  assumes "tick_ok t" and "now \<le> t_now t" and "check_leader_round now t st = (st', wait)"
  shows "if current_role st \<noteq> kLeader \<and> next_election st \<le> now
    then current_role st' = kCandidate \<and> current_term st' = current_term st + 1 \<and>
      leader_id st' = -1 \<and> wait = Until (next_election st') \<and>
      now + 500 \<le> next_election st' \<and> next_election st' \<le> t_now t + 1000 \<and>
      (vote_for st (current_term st + 1) = None \<longrightarrow>
        vote_pool st' = {self_id st} \<and> vote_for st' (current_term st + 1) = Some (self_id st)) \<and>
      (vote_for st (current_term st + 1) \<noteq> None \<longrightarrow> vote_pool st' = {} \<and> vote_for st' = vote_for st)
    else st' = st \<and>
      wait = (if current_role st = kLeader then Forever else Until (next_election st))"
  using assms
  by (auto simp: check_leader_round_def Let_def raft_frame StartLeaderElection_votes tick_ok_def
      split: if_splits option.splits)

theorem check_leader_starts_election_witness:
  "current_role (fst (check_leader_round 900 \<lparr>t_now = 900, t_delay = 700\<rparr> sample_server)) = kCandidate \<and>
   next_election (fst (check_leader_round 900 \<lparr>t_now = 900, t_delay = 700\<rparr> sample_server)) = 1600 \<and>
   vote_pool (fst (check_leader_round 900 \<lparr>t_now = 900, t_delay = 700\<rparr> sample_server)) = {2}"
proof -
  let ?t = "\<lparr>t_now = 900, t_delay = 700\<rparr>"
  have "tick_ok ?t" and "900 \<le> t_now ?t" by (simp_all add: tick_ok_def)
  moreover have "next_election sample_server = 700"
    by (simp add: sample_server_def new_raft_def raft_frame sample_tick_def)
  moreover have "next_election (fst (check_leader_round 900 ?t sample_server)) = 1600"
    using calculation(3) by (simp add: check_leader_round_state raft_frame)
  ultimately show ?thesis
    using check_leader_starts_election [of ?t 900 sample_server, OF _ _ prod.collapse [symmetric]]
    by simp
qed


section \<open>Backing off\<close>

lemma GetNextIndex_back_off:
  assumes "i \<in> peer_ids st"
  shows "GetNextIndex i (ae_back_off i req st) = max 1 (ae_prev_log_index req - 5)"
  using assms by (simp add: ae_back_off_def GetNextIndex_Reset peer_ids_def)

lemma make_ae_request_prev: "ae_prev_log_index (make_ae_request i st) = GetNextIndex i st - 1"
  by (simp add: make_ae_request_def Let_def)

text \<open>
  \<open>k\<close> rounds in which the host refuses the request of the leader, each request built from
  the state that the previous refusal left.
\<close>

definition refusal :: "raft \<Rightarrow> ae_response" where
  "refusal st = \<lparr>aer_term = current_term st, aer_success = False, aer_last_log_index = None\<rparr>"

fun refused_rounds :: "tick \<Rightarrow> int \<Rightarrow> nat \<Rightarrow> raft \<Rightarrow> raft outcome" where
  "refused_rounds t i 0 st = Inr st"
| "refused_rounds t i (Suc k) st =
     and_then (on_ae_response t i (make_ae_request i st) (refusal st) st) (\<lambda>(st', _).
     refused_rounds t i k st')"

lemma refused_round:
  "on_ae_response t i (make_ae_request i st) (refusal st) st =
     Inr (ae_back_off i (make_ae_request i st) st, Next_round)"
  by (simp add: on_ae_response_def refusal_def)

lemma refused_rounds_value:
  assumes "i \<in> peer_ids st" and "1 \<le> GetNextIndex i st"
  shows "\<exists>st'. refused_rounds t i k st = Inr st' \<and>
    GetNextIndex i st' = max 1 (GetNextIndex i st - 6 * int k) \<and>
    raft_log st' = raft_log st \<and> current_role st' = current_role st \<and> current_term st' = current_term st"
  using assms
proof (induction k arbitrary: st)
  case (Suc k)
  let ?st = "ae_back_off i (make_ae_request i st) st"
  have next_index: "GetNextIndex i ?st = max 1 (GetNextIndex i st - 6)"
    using Suc.prems(1) by (simp add: GetNextIndex_back_off make_ae_request_prev)
  have peer: "i \<in> peer_ids ?st"
    using Suc.prems(1) by (simp add: peer_ids_eq [OF ae_back_off_frame(2)])
  have "1 \<le> GetNextIndex i ?st" by (simp add: next_index)
  from Suc.IH [OF peer this] show ?case
    by (auto simp: refused_round next_index raft_frame)
qed simp

text \<open>
  Backing off terminates: every refusal moves the next index of the host back by six, and
  after \<open>(next - 1) / 6\<close> refusals, rounded up, it is 1, where the leader sends its whole log.
  Nothing else of the leader changes.
\<close>

theorem back_off_reaches_start:
  assumes "i \<in> peer_ids st" and "1 \<le> GetNextIndex i st" and "GetNextIndex i st \<le> 6 * int k + 1"
  shows "\<exists>st'. refused_rounds t i k st = Inr st' \<and> GetNextIndex i st' = 1 \<and>
    ae_prev_log_index (make_ae_request i st') = 0 \<and> raft_log st' = raft_log st \<and>
    current_role st' = current_role st \<and> current_term st' = current_term st"
  using refused_rounds_value [OF assms(1,2), of t k] assms(3)
  by (auto simp: make_ae_request_prev max_def)

definition sample_leader :: raft where
  "sample_leader = (ChangeToLeader sample_server)\<lparr>vote_pool := {1, 2}\<rparr>"

lemma sample_leader_fields [simp]:
  "raft_log sample_leader = sample_log" "current_term sample_leader = 2"
  "self_id sample_leader = 2" "current_role sample_leader = kLeader" "leader_id sample_leader = 2"
  "GetNextIndex 1 sample_leader = 4" "peer_ids sample_leader = {1, 3}"
  "pending_entries sample_leader = (\<lambda>_. {})" "quorum_size sample_leader = 2"
proof -
  have keys: "fst ` set (remotes sample_server) = {1, 3}"
    by (simp add: sample_server_def new_raft_def PostponeElection_def)
  show "GetNextIndex 1 sample_leader = 4"
    using GetNextIndex_ChangeToLeader [of 1 sample_server] keys
    by (simp add: sample_leader_def GetNextIndex_def GetLastLogIndex_def sample_log_def sample_entry_def)
  show "peer_ids sample_leader = {1, 3}"
    using peer_ids_eq [OF ChangeToLeader_frame(2), of sample_server] keys
    by (simp add: sample_leader_def peer_ids_def)
qed (simp_all add: sample_leader_def raft_frame, simp_all add: sample_server_def new_raft_fields)

theorem back_off_reaches_start_witness:
  "\<exists>st'. refused_rounds sample_tick 1 1 sample_leader = Inr st' \<and> GetNextIndex 1 st' = 1 \<and>
     ae_prev_log_index (make_ae_request 1 st') = 0 \<and> raft_log st' = sample_log"
  using back_off_reaches_start [of 1 sample_leader 1 sample_tick] by auto


section \<open>Committing\<close>

lemma SetLastCommitIndex_value:
  assumes "SetLastCommitIndex c l = Inr l'"
  shows "GetLastCommitIndex l' = (if c \<le> GetLastLogIndex l then c else GetLastCommitIndex l)"
  using assms
  by (auto simp: SetLastCommitIndex_def GetLastCommitIndex_def GetLastLogIndex_def split: if_splits)

lemma ae_acknowledged_commit:
  assumes run: "ae_acknowledged i req resp st = Inr st'" and ok: "raft_ok st" and "i \<in> peer_ids st"
    and moved: "GetLastCommitIndex (raft_log st') \<noteq> GetLastCommitIndex (raft_log st)"
  shows "GetLastCommitIndex (raft_log st) < GetLastCommitIndex (raft_log st')"
    and "GetLastCommitIndex (raft_log st') \<le> GetLastLogIndex (raft_log st')"
    and "\<exists>e \<in> set (ae_entries req). e_index e = GetLastCommitIndex (raft_log st')"
    and "quorum_size st \<le> int (card (pending_entries st' (GetLastCommitIndex (raft_log st'))))"
    and "pending_entries st' (GetLastCommitIndex (raft_log st')) \<subseteq> peer_ids st"
proof -
  define c where "c = GetLastCommitIndex (raft_log st)"
  define acks where "acks = count_acks i (quorum_size st) c (ae_entries req) (pending_entries st) c"
  obtain l where st': "raft_log st' = l" "pending_entries st' = fst acks"
    and l: "l = raft_log st \<and> snd acks = c \<or> SetLastCommitIndex (snd acks) (raft_log st) = Inr l"
    by (rule ae_acknowledged_cases [OF run]) (simp add: acks_def c_def)
  from l moved have set: "SetLastCommitIndex (snd acks) (raft_log st) = Inr l"
    by (auto simp: st' c_def)
  with moved have new: "GetLastCommitIndex (raft_log st') = snd acks"
    and le: "snd acks \<le> GetLastLogIndex (raft_log st)"
    using SetLastCommitIndex_value [OF set] by (auto simp: st' split: if_splits)
  have "snd acks \<noteq> c" using moved new by (simp add: c_def)
  then obtain e where e: "e \<in> set (ae_entries req)" "e_index e = snd acks" "c < e_index e"
    "quorum_size st \<le> int (card (fst acks (e_index e)))"
    using count_acks_commit [of i "quorum_size st" c "ae_entries req" "pending_entries st" c]
      raft_ok_finite [OF ok] unfolding acks_def by blast
  show "GetLastCommitIndex (raft_log st) < GetLastCommitIndex (raft_log st')"
    using e(2,3) new by (simp add: c_def)
  have "GetLastLogIndex l = GetLastLogIndex (raft_log st)"
    by (simp add: GetLastLogIndex_def SetLastCommitIndex_log [OF set])
  with le new show "GetLastCommitIndex (raft_log st') \<le> GetLastLogIndex (raft_log st')"
    by (simp add: st')
  show "\<exists>e \<in> set (ae_entries req). e_index e = GetLastCommitIndex (raft_log st')"
    using e(1,2) new by auto
  show "quorum_size st \<le> int (card (pending_entries st' (GetLastCommitIndex (raft_log st'))))"
    using e(2,4) new st' by simp
  have "raft_ok st'" by (rule ae_acknowledged_ok [OF run ok assms(3)])
  moreover have "peer_ids st' = peer_ids st"
    by (rule peer_ids_eq) (rule ae_acknowledged_frame(2) [OF run])
  ultimately show "pending_entries st' (GetLastCommitIndex (raft_log st')) \<subseteq> peer_ids st"
    by (simp add: raft_ok_def)
qed


lemma on_ae_response_commit:
  assumes "on_ae_response t i req resp st = Inr (st', nxt)"
    and "GetLastCommitIndex (raft_log st') \<noteq> GetLastCommitIndex (raft_log st)"
  shows "ae_acknowledged i req resp st = Inr st' \<and> aer_success resp \<and> aer_term resp = current_term st"
  using assms by (auto elim!: on_ae_response_cases simp: raft_frame)

text \<open>
  Committing: when a reply moves the commit index of a server, it moves forward, to an
  index of the log that the answered request carried, on a positive reply of the server's
  term, and a quorum of other servers has acknowledged that index.
\<close>

theorem commit_needs_quorum:
  assumes "on_ae_response t i req resp st = Inr (st', nxt)" and "raft_ok st" and "i \<in> peer_ids st"
    and "GetLastCommitIndex (raft_log st') \<noteq> GetLastCommitIndex (raft_log st)"
  shows "let c = GetLastCommitIndex (raft_log st') in
    GetLastCommitIndex (raft_log st) < c \<and> c \<le> GetLastLogIndex (raft_log st') \<and>
    (\<exists>e \<in> set (ae_entries req). e_index e = c) \<and> aer_success resp \<and>
    aer_term resp = current_term st \<and>
    pending_entries st' c \<subseteq> peer_ids st \<and> quorum_size st \<le> int (card (pending_entries st' c))"
proof -
  have "ae_acknowledged i req resp st = Inr st'" "aer_success resp" "aer_term resp = current_term st"
    using on_ae_response_commit [OF assms(1,4)] by auto
  with ae_acknowledged_commit [OF _ assms(2,3,4)] show ?thesis by (simp add: Let_def)
qed

text \<open>
  The set that counts towards the quorum holds other servers only, so a cluster with fewer
  than \<open>quorum_size\<close> other servers never commits: two servers need two acknowledgements and
  have one peer each.
\<close>

lemma too_few_peers_never_commit:
  assumes "on_ae_response t i req resp st = Inr (st', nxt)" and "raft_ok st" and "i \<in> peer_ids st"
    and "int (card (peer_ids st)) < quorum_size st"
  shows "GetLastCommitIndex (raft_log st') = GetLastCommitIndex (raft_log st)"
proof (rule ccontr)
  assume moved: "GetLastCommitIndex (raft_log st') \<noteq> GetLastCommitIndex (raft_log st)"
  have "ae_acknowledged i req resp st = Inr st'"
    using on_ae_response_commit [OF assms(1) moved] by simp
  note c = ae_acknowledged_commit(4,5) [OF this assms(2,3) moved]
  have "card (pending_entries st' (GetLastCommitIndex (raft_log st'))) \<le> card (peer_ids st)"
    by (rule card_mono) (use c in simp_all)
  with c assms(4) show False by linarith
qed

definition sample_reply :: ae_response where
  "sample_reply = \<lparr>aer_term = 2, aer_success = True, aer_last_log_index = Some 3\<rparr>"

definition sample_waiting :: raft where
  "sample_waiting = sample_leader\<lparr>pending_entries := (\<lambda>_. {})(3 := {3})\<rparr>"

lemma sample_waiting_ok: "raft_ok sample_waiting"
proof -
  have "peer_ids sample_waiting = {1, 3}" "vote_pool sample_waiting = {1, 2}"
    using sample_leader_fields(7) by (simp_all add: sample_waiting_def peer_ids_def sample_leader_def)
  then show ?thesis
    by (simp add: raft_ok_def sample_waiting_def)
qed

lemma sample_commits:
  "\<exists>st'. on_ae_response sample_tick 1 (sample_request\<lparr>ae_entries := [sample_entry 2 3]\<rparr>) sample_reply
     sample_waiting = Inr (st', Wait_event) \<and> GetLastCommitIndex (raft_log st') = 3"
  by (simp add: on_ae_response_def sample_reply_def sample_waiting_def ae_acknowledged_def raft_frame
      GetLastCommitIndex_def sample_log_def sample_entry_def Let_def SetLastCommitIndex_def print_log_def)

theorem commit_needs_quorum_witness:
  "\<exists>st'. on_ae_response sample_tick 1 (sample_request\<lparr>ae_entries := [sample_entry 2 3]\<rparr>) sample_reply
     sample_waiting = Inr (st', Wait_event) \<and> quorum_size sample_waiting \<le> int (card (pending_entries st' 3))"
proof -
  obtain st' where run: "on_ae_response sample_tick 1 (sample_request\<lparr>ae_entries := [sample_entry 2 3]\<rparr>)
      sample_reply sample_waiting = Inr (st', Wait_event)"
    and c: "GetLastCommitIndex (raft_log st') = 3"
    using sample_commits by blast
  have "1 \<in> peer_ids sample_waiting"
    using sample_leader_fields(7) by (simp add: sample_waiting_def peer_ids_def)
  moreover have "GetLastCommitIndex (raft_log sample_waiting) = 1"
    by (simp add: sample_waiting_def GetLastCommitIndex_def sample_log_def)
  ultimately show ?thesis
    using commit_needs_quorum [OF run sample_waiting_ok] run c by (simp add: Let_def)
qed


section \<open>One round of replication\<close>

lemma leader_acknowledged_defined:
  assumes "log_wf (raft_log st)" and "\<not> IsEmpty (raft_log st)"
  shows "\<exists>st'. ae_acknowledged i req resp st = Inr st' \<and>
    remotes st' = remotes (ResetNextIndex i (opt_field (aer_last_log_index resp) + 1) st)"
proof -
  obtain pending c where acks: "count_acks i (quorum_size st) (GetLastCommitIndex (raft_log st))
      (ae_entries req) (pending_entries st) (GetLastCommitIndex (raft_log st)) = (pending, c)"
    by fastforce
  obtain l where set: "SetLastCommitIndex c (raft_log st) = Inr l"
    using assms(2) SetLastCommitIndex_defined [of c "raft_log st"] by (auto simp: defined_iff IsEmpty_def)
  then have "log_wf l" "memory_log l \<noteq> []"
    using assms SetLastCommitIndex_wf SetLastCommitIndex_log by (auto simp: IsEmpty_def)
  then obtain es where "print_log l = Inr es"
    using print_log_wf by (auto simp: defined_iff)
  with set acks show ?thesis
    by (simp add: ae_acknowledged_def raft_frame Let_def)
qed

lemma GetNextIndex_cong: "remotes st' = remotes st \<Longrightarrow> GetNextIndex i st' = GetNextIndex i st"
  by (simp add: GetNextIndex_def)

text \<open>A request with everything behind the first \<open>n\<close> entries completes a log that holds those.\<close>

lemma request_completes_prefix:
  assumes req: "ae_request_ok req" and entries: "ae_entries req = drop n full"
    and prev: "ae_prev_log_index req = int n" and log: "log = take n full" and n: "n < length full"
  shows "ae_log_spec log req = Some (True, full)"
proof -
  have len: "length log = n" using log n by simp
  obtain e es where es: "drop n full = e # es"
    using n by (cases "drop n full") auto
  with req entries prev have "e_index e = int n + 1" by (simp add: ae_request_ok_def)
  with es have "append_spec log (drop n full) = Some (True, log @ drop n full)"
    using len by (simp add: append_spec_def)
  also have "log @ drop n full = full" by (simp add: log)
  finally show ?thesis using es prev entries len by (simp add: ae_log_spec_def)
qed

text \<open>
  C29. A round of replication succeeds: when a follower of the leader's term holds exactly the
  first \<open>n\<close> entries of the leader's longer log and the leader's next index for it is \<open>n + 1\<close>, the request
  that the leader builds is accepted without undefined behaviour, the follower's log then
  holds the leader's entries, and the leader takes the reply, moves the next index behind its
  log, and has only heartbeats left to send.
\<close>

theorem replication_round:
  assumes leader: "log_wf (raft_log L)" "i \<in> peer_ids L"
    and follower: "log_wf (raft_log F)" "current_term F = current_term L"
    and prefix: "memory_log (raft_log F) = take n (memory_log (raft_log L))"
      "n < length (memory_log (raft_log L))" "GetNextIndex i L = int n + 1"
  shows "\<exists>F' resp L'.
    OnAppendEntries t1 t2 (make_ae_request i L) F = Inr (F', resp) \<and>
    memory_log (raft_log F') = memory_log (raft_log L) \<and>
    on_ae_response t i (make_ae_request i L) resp L = Inr (L', Wait_event) \<and>
    GetNextIndex i L' = GetLastLogIndex (raft_log L) + 1 \<and>
    ae_entries (make_ae_request i L') = []"
proof -
  define req where "req = make_ae_request i L"
  let ?log = "memory_log (raft_log L)"
  have req: "ae_request_ok req" and entries: "ae_entries req = drop n ?log"
    and prev: "ae_prev_log_index req = int n" and tm: "ae_term req = current_term L"
    using leader prefix make_ae_request_ok [of L i]
    by (simp_all add: req_def make_ae_request_def Let_def log_query)
  have spec: "ae_log_spec (memory_log (raft_log F)) req = Some (True, ?log)"
    using request_completes_prefix [OF req entries prev prefix(1,2)] .
  have "defined (OnAppendEntries t1 t2 req F)"
    using OnAppendEntries_defined [OF follower(1) req] spec tm follower(2) prefix(2) by auto
  then obtain F' resp where run: "OnAppendEntries t1 t2 req F = Inr (F', resp)"
    by (auto simp: defined_iff)
  have "current_term F \<le> ae_term req" using tm follower(2) by simp
  note eff = OnAppendEntries_effect [OF follower(1) req this run]
  have log: "memory_log (raft_log F') = ?log" and ok: "aer_success resp"
    using eff(1) spec by simp_all
  obtain L' where ack: "ae_acknowledged i req resp L = Inr L'"
    and rem: "remotes L' = remotes (ResetNextIndex i (opt_field (aer_last_log_index resp) + 1) L)"
    using leader_acknowledged_defined [OF leader(1)] prefix(2) by (force simp: IsEmpty_def)
  have taken: "on_ae_response t i req resp L = Inr (L', Wait_event)"
    using ack ok eff(4) follower(2) entries prefix(2) by (simp add: on_ae_response_def)
  have nxt: "GetNextIndex i L' = GetLastLogIndex (raft_log L) + 1"
    using GetNextIndex_cong [OF rem] leader eff(5) ok log
    by (simp add: GetNextIndex_Reset peer_ids_def log_query)
  have "memory_log (raft_log L') = ?log" by (rule ae_acknowledged_frame(9) [OF ack])
  then have "GetLastLogIndex (raft_log L') = GetLastLogIndex (raft_log L)"
    by (simp add: GetLastLogIndex_def)
  with nxt have "ae_entries (make_ae_request i L') = []"
    by (simp add: make_ae_request_def Let_def)
  with run log taken nxt show ?thesis unfolding req_def by blast
qed


definition sample_follower :: raft where
  "sample_follower = sample_server\<lparr>raft_log := sample_log\<lparr>memory_log := [sample_entry 1 1]\<rparr>\<rparr>"

theorem replication_round_witness:
  "\<exists>F' resp. OnAppendEntries sample_tick sample_tick
     (make_ae_request 1 (ResetNextIndex 1 2 sample_leader)) sample_follower = Inr (F', resp) \<and>
     memory_log (raft_log F') = memory_log sample_log"
proof -
  let ?L = "ResetNextIndex 1 2 sample_leader"
  have "1 \<in> fst ` set (remotes sample_leader)"
    using sample_leader_fields(7) by (simp add: peer_ids_def)
  then have "GetNextIndex 1 ?L = int 1 + 1" "1 \<in> peer_ids ?L"
    by (simp_all add: GetNextIndex_Reset peer_ids_eq [OF ResetNextIndex_frame(2)])
  moreover have "log_wf (sample_log\<lparr>memory_log := [sample_entry 1 1]\<rparr>)"
    by (simp add: log_wf_def sample_entry_def)
  moreover have "log_wf (raft_log ?L)" by (simp add: raft_frame sample_log_wf)
  moreover have "raft_log ?L = sample_log" "current_term ?L = 2" by (simp_all add: raft_frame)
  moreover have "memory_log (raft_log sample_follower) = take 1 (memory_log sample_log)"
    and "current_term sample_follower = 2"
    and "raft_log sample_follower = sample_log\<lparr>memory_log := [sample_entry 1 1]\<rparr>"
    by (simp_all add: sample_follower_def sample_log_def)
  moreover have "1 < length (memory_log sample_log)" by (simp add: sample_log_def)
  ultimately show ?thesis
    using replication_round [of ?L 1 sample_follower 1 sample_tick sample_tick sample_tick] by metis
qed

text \<open>
  A conflict at the first entry is never repaired.  The request that carries the whole log
  starts at index 1; a follower whose entry 1 has another term refuses it and keeps its log,
  and the leader, told to back off, builds a request from index 1 again.
\<close>

lemma conflict_at_start_refused:
  assumes "log_wf (raft_log L)" and "log_wf (raft_log F)" and "current_term F \<le> current_term L"
    and "\<not> IsEmpty (raft_log L)" and "\<not> IsEmpty (raft_log F)" and "GetNextIndex i L = 1"
    and "e_term (hd (memory_log (raft_log F))) \<noteq> e_term (hd (memory_log (raft_log L)))"
    and run: "OnAppendEntries t1 t2 (make_ae_request i L) F = Inr (F', resp)"
  shows "\<not> aer_success resp" and "memory_log (raft_log F') = memory_log (raft_log F)"
    and "i \<in> peer_ids L \<Longrightarrow> GetNextIndex i (ae_back_off i (make_ae_request i L) L) = 1"
proof -
  define req where "req = make_ae_request i L"
  have req: "ae_request_ok req" "ae_prev_log_index req = 0" "ae_term req = current_term L"
    "ae_entries req = memory_log (raft_log L)"
    using assms(1,4,6) make_ae_request_ok [of L i]
    by (auto simp: req_def make_ae_request_def Let_def log_query IsEmpty_def)
  obtain e es where L: "memory_log (raft_log L) = e # es" and "e_index e = 1"
    using assms(1,4) by (cases "memory_log (raft_log L)") (auto simp: IsEmpty_def log_wf_def)
  then have "append_spec (memory_log (raft_log F)) (e # es) = Some (False, memory_log (raft_log F))"
    using assms(5,7) by (auto simp: append_spec_def IsEmpty_def agrees_at_def hd_conv_nth)
  with req L have spec: "ae_log_spec (memory_log (raft_log F)) req = Some (False, memory_log (raft_log F))"
    by (simp add: ae_log_spec_def)
  note eff = OnAppendEntries_effect(1) [OF assms(2) req(1) _ run [folded req_def]]
  show "\<not> aer_success resp" "memory_log (raft_log F') = memory_log (raft_log F)"
    using eff spec assms(3) req(3) by simp_all
  show "GetNextIndex i (ae_back_off i (make_ae_request i L) L) = 1" if "i \<in> peer_ids L"
    using that req(2) by (simp add: GetNextIndex_back_off req_def)
qed


section \<open>Operations of clients\<close>

lemma OnMetaOperation_eq:
  "OnMetaOperation op path others st =
    (let e = fst (meta_append op path st); st1 = snd (meta_append op path st); st' = last (st1 # others st1) in
     if leader_id st = -1 then Inr (st, kNoLeader)
     else if list_all (entry_alive e) (others st1)
     then Inr (st', if e_index e \<le> GetLastCommitIndex (raft_log st') then kOK else kTimeout)
     else Inl Dangling_pointer)"
  by (simp add: OnMetaOperation_def Let_def split_def)

lemma meta_append_eq:
  assumes "log_wf (raft_log st)"
  shows "fst (meta_append op path st) =
      \<lparr>e_term = current_term st, e_index = GetLastLogIndex (raft_log st) + 1, e_op = op, e_value = path\<rparr>"
    and "memory_log (raft_log (snd (meta_append op path st))) =
      memory_log (raft_log st) @ [fst (meta_append op path st)]"
    and "log_wf (raft_log (snd (meta_append op path st)))"
    and "entry_alive (fst (meta_append op path st)) (snd (meta_append op path st))"
  using assms Append_entry_wf [OF assms, of "meta_entry op path st"]
  by (simp_all add: meta_append_def split_def Append_entry_def Let_def meta_entry_def log_query entry_alive_def Size_def)

text \<open>
  A client's operation: without a leader nothing changes.  Otherwise it is logged before the
  wait as the next entry, in the server's term.  If an operation of another thread replaces or
  erases the entry during the wait, the test reads freed memory; if none does, the entry is
  still in its place at the end, and the answer is \<open>kOK\<close> exactly when the commit index has
  reached it, \<open>kTimeout\<close> when not.
\<close>

theorem meta_operation_logged:
  assumes "log_wf (raft_log st)"
  shows "if leader_id st = -1 then OnMetaOperation op path others st = Inr (st, kNoLeader)
    else \<exists>e st1. e = \<lparr>e_term = current_term st, e_index = GetLastLogIndex (raft_log st) + 1, e_op = op, e_value = path\<rparr> \<and>
      memory_log (raft_log st1) = memory_log (raft_log st) @ [e] \<and> log_wf (raft_log st1) \<and>
      GetEntry (e_index e) (raft_log st1) = Some e \<and>
      (case OnMetaOperation op path others st of
         Inl u \<Rightarrow> u = Dangling_pointer \<and> (\<exists>s \<in> set (others st1). \<not> entry_alive e s)
       | Inr (st', answer) \<Rightarrow> st' = last (st1 # others st1) \<and> entry_alive e st' \<and>
           answer = (if e_index e \<le> GetLastCommitIndex (raft_log st') then kOK else kTimeout))"
proof (cases "leader_id st = -1")
  case False
  define e where "e = fst (meta_append op path st)"
  define st1 where "st1 = snd (meta_append op path st)"
  note m = meta_append_eq [OF assms, of op path, folded e_def st1_def]
  have "GetEntry (e_index e) (raft_log st1) = Some e"
    using assms m by (simp add: log_query)
  moreover have "case OnMetaOperation op path others st of
         Inl u \<Rightarrow> u = Dangling_pointer \<and> (\<exists>s \<in> set (others st1). \<not> entry_alive e s)
       | Inr (st', answer) \<Rightarrow> st' = last (st1 # others st1) \<and> entry_alive e st' \<and>
           answer = (if e_index e \<le> GetLastCommitIndex (raft_log st') then kOK else kTimeout)"
    using False m(4) by (auto simp: OnMetaOperation_eq Let_def list_all_iff simp flip: e_def st1_def)
  ultimately show ?thesis unfolding if_not_P [OF False] using m by blast
qed (simp add: OnMetaOperation_def)

theorem meta_operation_logged_witness:
  "\<exists>st'. OnMetaOperation kMkdir ''/d'' (\<lambda>s. [s\<lparr>raft_log := (raft_log s)\<lparr>last_commited_index := 4\<rparr>\<rparr>]) sample_leader =
     Inr (st', kOK)"
proof -
  let ?others = "\<lambda>s :: raft. [s\<lparr>raft_log := (raft_log s)\<lparr>last_commited_index := 4\<rparr>\<rparr>]"
  have "log_wf (raft_log sample_leader)" by (simp add: sample_log_wf)
  note h = meta_operation_logged [OF this, of kMkdir "''/d''" ?others]
  have n: "GetLastLogIndex sample_log = 3" "length (memory_log sample_log) = 3"
    by (simp_all add: GetLastLogIndex_def sample_log_def sample_entry_def)
  from h n show ?thesis
    by (cases "OnMetaOperation kMkdir ''/d'' ?others sample_leader") (auto simp: entry_alive_def Size_def nth_append GetLastCommitIndex_def split: sum.splits)
qed

text \<open>
  The freed entry: while the operation of a leader waits, a request of the next term replaces
  its entry.
\<close>

definition next_term_request :: ae_request where
  "next_term_request = \<lparr>ae_term = 3, ae_leader_id = 1, ae_prev_log_index = 2, ae_prev_log_term = 3,
     ae_entries = [last (memory_log sample_log), \<lparr>e_term = 3, e_index = 4, e_op = kMkdir, e_value = ''/e''\<rparr>],
     ae_leader_commit_index = 0\<rparr>"

lemma overwritten_while_waiting:
  "case OnMetaOperation kMkdir ''/d'' (\<lambda>s. case OnAppendEntries sample_tick sample_tick next_term_request s of
       Inl u \<Rightarrow> [] | Inr (s', resp) \<Rightarrow> [s']) sample_leader of
     Inl u \<Rightarrow> u = Dangling_pointer | Inr _ \<Rightarrow> False"
  by code_simp

end
