(* ===== verification/Cluster_Logs.thy ===== *)
theory Cluster_Logs
  imports Cluster Raft_Server
begin

text \<open>
  What every run of a cluster keeps of the logs, whenever replies are handled: each log is
  numbered and each request on the network is well formed.  And the run in which a late
  vote reply gives one term two leaders.
\<close>

section \<open>Logs and next indices of one server\<close>

definition server_logs_ok :: "raft \<Rightarrow> bool" where
  "server_logs_ok st \<longleftrightarrow> log_wf (raft_log st) \<and>
     (current_role st = kLeader \<longrightarrow> (\<forall>i \<in> peer_ids st. 1 \<le> GetNextIndex i st))"

lemma server_logs_ok_cong:
  assumes "server_logs_ok st" and "remotes st' = remotes st" and "raft_log st' = raft_log st"
    and "current_role st' = kLeader \<Longrightarrow> current_role st = kLeader"
  shows "server_logs_ok st'"
  using assms by (auto simp: server_logs_ok_def peer_ids_def GetNextIndex_def)

lemma check_leader_logs_ok:
  "server_logs_ok st \<Longrightarrow> server_logs_ok (fst (check_leader_round now t st))"
  by (erule server_logs_ok_cong) (auto simp: check_leader_round_state raft_frame split: if_splits)

lemma OnRequestVote_logs_ok:
  "server_logs_ok st \<Longrightarrow> server_logs_ok (fst (OnRequestVote t1 t2 req st))"
  by (erule server_logs_ok_cong) (auto simp: raft_frame OnRequestVote_role split: if_splits)

lemma OnAppendEntries_logs_ok:
  assumes "OnAppendEntries t1 t2 req st = Inr (st', resp)"
    and "server_logs_ok st" and "ae_request_ok req"
  shows "server_logs_ok st'"
proof (cases "ae_term req < current_term st")
  case True
  with assms show ?thesis by (simp add: OnAppendEntries_stale)
next
  case False
  have "log_wf (raft_log st')"
    using OnAppendEntries_effect(2) [OF _ assms(3) _ assms(1)] assms(2) False
    by (simp add: server_logs_ok_def)
  moreover have "remotes st' = remotes st"
    using assms(1) by (auto elim!: OnAppendEntries_cases simp: raft_frame)
  moreover have "current_role st' = kLeader \<longrightarrow> current_role st = kLeader"
    using assms(1) by (auto elim!: OnAppendEntries_cases simp: raft_frame ae_adopt_term_role split: if_splits)
  ultimately show ?thesis
    using assms(2) by (auto simp: server_logs_ok_def peer_ids_def GetNextIndex_def)
qed

lemma OnAppendEntries_reply_index:
  assumes "OnAppendEntries t1 t2 req st = Inr (st', resp)"
    and "log_wf (raft_log st)" and "ae_request_ok req" and "aer_success resp"
  shows "0 \<le> opt_field (aer_last_log_index resp)"
proof (cases "ae_term req < current_term st")
  case True
  with assms(1,4) show ?thesis by (auto simp: OnAppendEntries_stale default_ae_response_def)
next
  case False
  then show ?thesis
    using OnAppendEntries_effect(5) [OF assms(2,3) _ assms(1)] assms(4) by simp
qed

lemma on_rv_response_logs_ok:
  assumes "server_logs_ok st"
  shows "server_logs_ok (fst (on_rv_response i resp st))"
proof (cases "current_role st = kCandidate \<and> rvr_vote_granted resp \<and> rvr_term resp \<le> current_term st
         \<and> quorum_size st \<le> int (card (insert i (vote_pool st)))")
  case True
  then have st': "fst (on_rv_response i resp st) = ChangeToLeader (st\<lparr>vote_pool := insert i (vote_pool st)\<rparr>)"
    by (simp add: on_rv_response_def Let_def)
  have wf: "log_wf (raft_log st)" using assms by (simp add: server_logs_ok_def)
  have "1 \<le> GetNextIndex j (fst (on_rv_response i resp st))"
    if "j \<in> peer_ids (fst (on_rv_response i resp st))" for j
  proof -
    have "j \<in> fst ` set (remotes (st\<lparr>vote_pool := insert i (vote_pool st)\<rparr>))"
      using that peer_ids_eq [OF on_rv_response_frame(2)] by (simp add: peer_ids_def)
    then show ?thesis using wf by (simp add: st' GetNextIndex_ChangeToLeader log_query)
  qed
  with wf show ?thesis by (simp add: server_logs_ok_def raft_frame)
next
  case False
  then show ?thesis
    by (intro server_logs_ok_cong [OF assms])
      (auto simp: on_rv_response_def Let_def raft_frame split: if_splits)
qed

lemma ResetNextIndex_logs_ok:
  assumes "server_logs_ok st" and "1 \<le> m"
  shows "server_logs_ok (ResetNextIndex i m st)"
  using assms by (auto simp: server_logs_ok_def raft_frame GetNextIndex_Reset
      peer_ids_eq [OF ResetNextIndex_frame(2)])

lemma ae_back_off_logs_ok: "server_logs_ok st \<Longrightarrow> server_logs_ok (ae_back_off i req st)"
  by (simp add: ae_back_off_def ResetNextIndex_logs_ok)

lemma ae_acknowledged_logs_ok:
  assumes "ae_acknowledged i req resp st = Inr st'" and "server_logs_ok st"
    and "0 \<le> opt_field (aer_last_log_index resp)"
  shows "server_logs_ok st'"
proof -
  have "server_logs_ok (ResetNextIndex i (opt_field (aer_last_log_index resp) + 1) st)" (is "server_logs_ok ?st")
    using assms(2,3) by (intro ResetNextIndex_logs_ok) simp_all
  moreover have "remotes st' = remotes ?st"
    by (rule ae_acknowledged_cases [OF assms(1)]) simp
  moreover have "memory_log (raft_log st') = memory_log (raft_log st)"
    by (rule ae_acknowledged_frame(9) [OF assms(1)])
  moreover have "current_role st' = current_role st"
    by (rule ae_acknowledged_frame(8) [OF assms(1)])
  ultimately show ?thesis
    by (auto simp: server_logs_ok_def log_wf_def raft_frame peer_ids_def GetNextIndex_def)
qed

lemma on_ae_response_logs_ok:
  assumes "on_ae_response t i req resp st = Inr (st', nxt)" and "server_logs_ok st"
    and "aer_success resp \<Longrightarrow> 0 \<le> opt_field (aer_last_log_index resp)"
  shows "server_logs_ok st'"
  using assms(1)
proof (cases rule: on_ae_response_cases)
  case acked
  with assms show ?thesis by (auto intro: ae_acknowledged_logs_ok)
next
  case newer
  then show ?thesis by (auto intro!: server_logs_ok_cong [OF assms(2)] simp: raft_frame)
qed (use assms in \<open>auto intro: ae_back_off_logs_ok\<close>)

lemma meta_append_logs_ok:
  assumes "server_logs_ok st"
  shows "server_logs_ok (snd (meta_append op path st))"
  using assms Append_entry_wf
  by (auto simp: server_logs_ok_def raft_frame peer_ids_def GetNextIndex_def)


section \<open>Logs of the cluster\<close>

definition cluster_logs_ok :: "int list \<Rightarrow> cluster \<Rightarrow> bool" where
  "cluster_logs_ok ids c \<longleftrightarrow>
     (\<forall>n \<in> set ids. server_logs_ok (node c n)) \<and>
     (\<forall>n i req. (n, i, req) \<in> ae_net c \<longrightarrow> ae_request_ok req) \<and>
     (\<forall>n i req resp. (n, i, req, resp) \<in> ae_back c \<longrightarrow> aer_success resp \<longrightarrow>
        0 \<le> opt_field (aer_last_log_index resp))"

lemma cluster_logs_okD:
  assumes "cluster_logs_ok ids c"
  shows "n \<in> set ids \<Longrightarrow> server_logs_ok (node c n)"
    and "(n, i, req) \<in> ae_net c \<Longrightarrow> ae_request_ok req"
    and "(n, i, req, resp) \<in> ae_back c \<Longrightarrow> aer_success resp \<Longrightarrow>
      0 \<le> opt_field (aer_last_log_index resp)"
  using assms unfolding cluster_logs_ok_def by blast+

lemma cluster_logs_ok_node:
  assumes "cluster_logs_ok ids c" and "node c' = (node c)(k := st')"
    and "k \<in> set ids \<Longrightarrow> server_logs_ok st'" and "ae_net c' = ae_net c" "ae_back c' = ae_back c"
  shows "cluster_logs_ok ids c'"
  using assms by (auto simp: cluster_logs_ok_def)

lemma cluster_logs_ok_step:
  assumes step: "cluster_step ids c l c'" and m: "members_ok ids c" "messages_ok ids c"
    and inv: "cluster_logs_ok ids c"
  shows "cluster_logs_ok ids c'"
  using step
proof (cases rule: cluster_step.cases)
  case (timer n now t)
  then show ?thesis
    by (intro cluster_logs_ok_node [OF inv]) (auto intro: check_leader_logs_ok cluster_logs_okD [OF inv])
next
  case (send_rv n i req)
  with inv show ?thesis by (simp add: cluster_logs_ok_def)
next
  case (send_ae n i req)
  then have "current_role (node c n) = kLeader" and req: "req = make_ae_request i (node c n)"
    by (auto simp: remote_call_def split: role.splits)
  with send_ae cluster_logs_okD(1) [OF inv, of n] have "ae_request_ok req"
    by (auto simp: server_logs_ok_def intro: make_ae_request_ok)
  with inv send_ae show ?thesis by (auto simp: cluster_logs_ok_def)
next
  case (handle_rv n i req t1 t2 st' resp)
  then show ?thesis
    using OnRequestVote_logs_ok [of "node c i" t1 t2 req]
    by (intro cluster_logs_ok_node [OF inv]) (auto intro: cluster_logs_okD [OF inv])
next
  case (handle_ae n i req t1 t2 st' resp)
  have i: "i \<in> set ids" using messages_okD(3) [OF m(2) handle_ae(3)] by simp
  note ok = cluster_logs_okD(1) [OF inv i] cluster_logs_okD(2) [OF inv handle_ae(3)]
  have "server_logs_ok st'" by (rule OnAppendEntries_logs_ok [OF handle_ae(4) ok])
  moreover have "aer_success resp \<Longrightarrow> 0 \<le> opt_field (aer_last_log_index resp)"
    using OnAppendEntries_reply_index [OF handle_ae(4) _ ok(2)] ok(1) by (simp add: server_logs_ok_def)
  ultimately show ?thesis
    using inv handle_ae by (auto simp: cluster_logs_ok_def)
next
  case (reply_rv n i req resp)
  then show ?thesis
    by (intro cluster_logs_ok_node [OF inv]) (auto intro: on_rv_response_logs_ok cluster_logs_okD [OF inv])
next
  case (skip_rv n i req)
  then show ?thesis
    by (intro cluster_logs_ok_node [OF inv]) (auto intro: on_rv_response_logs_ok cluster_logs_okD [OF inv])
next
  case (reply_ae n i req resp t st' nxt)
  have "server_logs_ok st'"
    by (rule on_ae_response_logs_ok [OF reply_ae(6)])
      (use reply_ae cluster_logs_okD [OF inv] in auto)
  with reply_ae show ?thesis by (intro cluster_logs_ok_node [OF inv]) auto
next
  case (skip_ae n i req t st' nxt)
  have "server_logs_ok st'"
    by (rule on_ae_response_logs_ok [OF skip_ae(5)])
      (use skip_ae cluster_logs_okD [OF inv] in \<open>auto simp: default_ae_response_def\<close>)
  with skip_ae show ?thesis by (intro cluster_logs_ok_node [OF inv]) auto
next
  case (lost n i)
  with inv show ?thesis by (simp add: cluster_logs_ok_def)
next
  case (client n op path)
  then show ?thesis
    by (intro cluster_logs_ok_node [OF inv]) (auto intro: meta_append_logs_ok cluster_logs_okD [OF inv])
qed

lemma reachable_logs_ok: "reachable P ids c \<Longrightarrow> cluster_logs_ok ids c"
proof (induction rule: reachable.induct)
  case (start c)
  then have fresh: "fresh_server ids n (node c n)" if "n \<in> set ids" for n
    using that by (simp add: initial_cluster_def)
  have "-1 \<notin> set ids" using start by (simp add: initial_cluster_def)
  note f = fresh_server_ok(6,8) [OF fresh _ this]
  show ?case
    using start f by (simp add: cluster_logs_ok_def server_logs_ok_def initial_cluster_def)
next
  case (step c l c')
  then show ?case using cluster_logs_ok_step reachable_base by blast
qed


text \<open>
  In every state a cluster can reach, with replies handled at any time, every log is
  numbered 1, 2, 3, and so on, and every AppendEntries request on the network is well formed:
  the assumptions of the properties of the handler always hold.
\<close>

theorem cluster_logs_numbered:
  assumes "reachable any_step ids c"
  shows "(\<forall>n. n \<in> set ids \<longrightarrow> log_wf (raft_log (node c n))) \<and>
    (\<forall>n i req. (n, i, req) \<in> ae_net c \<longrightarrow> ae_request_ok req)"
  using reachable_logs_ok [OF assms] by (auto simp: cluster_logs_ok_def server_logs_ok_def)

theorem cluster_logs_numbered_witness:
  "log_wf (raft_log (node demo_beat 3)) \<and> ae_request_ok demo_beat_req"
proof -
  have "(1, 3, demo_beat_req) \<in> ae_net demo_beat" by (simp add: demo_beat_state)
  moreover have "(3 :: int) \<in> set [1, 2, 3]" by simp
  ultimately show ?thesis
    using cluster_logs_numbered [OF reachable_any [OF demo_beat_reachable]] by metis
qed


section \<open>A late vote reply elects a second leader\<close>

text \<open>
  The test that the code makes on a vote reply is that its term is not larger than the
  current one.  In this run server 1 asks for votes in term 1, starts its election for term 2
  before the answer arrives, and then counts that answer for term 2, in which server 3 has
  voted for server 2.
\<close>

definition late_state1 :: cluster where
  "late_state1 = set_node 1 (demo_timeout (node demo_voted 1)) demo_voted"

definition late_state2 :: cluster where
  "late_state2 = set_node 2 (demo_timeout (demo_server 2)) late_state1"

definition late_state3 :: cluster where
  "late_state3 = set_node 2 (demo_timeout (node late_state2 2)) late_state2"

definition late_req2 :: rv_request where
  "late_req2 = make_rv_request (node late_state3 2)"

definition late_state4 :: cluster where
  "late_state4 = demo_answer 2 late_req2 (demo_ask 2 late_state3)"

definition late_state5 :: cluster where
  "late_state5 = demo_count 2 (snd (demo_vote late_req2 (node late_state3 3))) late_state4"

definition late_state6 :: cluster where
  "late_state6 = demo_count 1 (snd (demo_vote demo_req1 (demo_server 3))) late_state5"

lemma late_nodes:
  "node late_state1 1 = demo_timeout (demo_timeout (demo_server 1))"
  "node late_state1 2 = demo_server 2" "node late_state1 3 = fst (demo_vote demo_req1 (demo_server 3))"
  "node late_state3 1 = demo_timeout (demo_timeout (demo_server 1))"
  "node late_state3 2 = demo_timeout (demo_timeout (demo_server 2))"
  "node late_state3 3 = fst (demo_vote demo_req1 (demo_server 3))"
  "node late_state2 2 = demo_timeout (demo_server 2)"
  by (simp_all add: late_state1_def late_state2_def late_state3_def demo_voted_state)


lemma late_candidates:
  "current_role (demo_timeout (demo_timeout (demo_server 2))) = kCandidate"
  "3 \<in> peer_ids (demo_timeout (demo_timeout (demo_server 2)))"
  by (simp_all add: demo_eval)

lemma late_outstanding:
  "outstanding late_state3 = (\<lambda>n i. if n = 1 \<and> i = 3 then Call_RV demo_req1 else No_call)"
  "rv_back late_state3 = {(1, 3, demo_req1, snd (demo_vote demo_req1 (demo_server 3)))}"
  by (simp_all add: late_state1_def late_state2_def late_state3_def demo_voted_state)

lemma late_state3_reachable: "reachable any_step [1, 2, 3] late_state3"
proof -
  have any: "any_step c l" for c l by (simp add: any_step_def)
  have "reachable any_step [1, 2, 3] demo_voted" by (rule demo_voted_reachable) (simp_all add: any)
  then have "reachable any_step [1, 2, 3] late_state1"
    unfolding late_state1_def by (rule demo_timeout_step) (simp_all add: any)
  then have "reachable any_step [1, 2, 3] late_state2"
    unfolding late_state2_def late_nodes(2) [symmetric]
    by (rule demo_timeout_step) (simp_all add: any)
  then show ?thesis
    unfolding late_state3_def by (rule demo_timeout_step) (simp_all add: any)
qed

lemma late_state4_fields:
  "outstanding late_state4 = (\<lambda>n i. if n = 1 \<and> i = 3 then Call_RV demo_req1
     else if n = 2 \<and> i = 3 then Call_RV late_req2 else No_call)"
  "rv_back late_state4 = {(2, 3, late_req2, snd (demo_vote late_req2 (node late_state3 3))),
     (1, 3, demo_req1, snd (demo_vote demo_req1 (demo_server 3)))}"
  "node late_state4 1 = node late_state3 1" "node late_state4 2 = node late_state3 2"
  by (auto simp: late_state4_def demo_answer_def demo_ask_def Let_def late_req2_def
      late_outstanding fun_eq_iff split: prod.splits)

lemma late_state4_reachable: "reachable any_step [1, 2, 3] late_state4"
proof -
  have any: "any_step c l" for c l by (simp add: any_step_def)
  have "reachable any_step [1, 2, 3] (demo_ask 2 late_state3)"
    by (rule demo_ask_step [OF late_state3_reachable any])
      (simp_all add: late_nodes late_candidates late_outstanding)
  then show ?thesis
    unfolding late_state4_def
    by (rule demo_answer_step) (simp_all add: any demo_ask_def Let_def late_req2_def)
qed

lemma late_state6_reachable: "reachable any_step [1, 2, 3] late_state6"
proof -
  have any: "any_step c l" for c l by (simp add: any_step_def)
  have five: "reachable any_step [1, 2, 3] late_state5"
    unfolding late_state5_def
    by (rule demo_count_step [OF late_state4_reachable any, of _ late_req2]) (simp_all add: late_state4_fields)
  show ?thesis
    unfolding late_state6_def
    by (rule demo_count_step [OF five any, of _ demo_req1])
      (simp_all add: late_state5_def demo_count_def late_state4_fields)
qed

lemma late_leaders:
  "current_role (node late_state6 1) = kLeader" "current_term (node late_state6 1) = 2"
  "current_role (node late_state6 2) = kLeader" "current_term (node late_state6 2) = 2"
  by (simp_all add: late_state6_def late_state5_def demo_count_def late_state4_fields late_nodes
      late_req2_def demo_req1_def demo_eval)

text \<open>
  C35. When replies are handled at any time, a cluster of three servers can reach a state with
  two leaders of the same term.
\<close>

theorem two_leaders_of_one_term:
  "\<exists>c. reachable any_step [1, 2, 3] c \<and>
     current_role (node c 1) = kLeader \<and> current_role (node c 2) = kLeader \<and>
     current_term (node c 1) = current_term (node c 2)"
  using late_state6_reachable late_leaders by (intro exI [of _ late_state6]) simp

end
