(* ===== verification/Cluster_Entries.thy ===== *)
theory Cluster_Entries
  imports Cluster_Logs
begin

text \<open>
  Entries of a term: in a cluster whose vote replies are counted in the term they were asked
  for, and whose clients' operations are logged by leaders, an entry is known by its term and
  index wherever it is stored or under way.
\<close>

section \<open>Where the entries of a log come from\<close>

lemma overlay_entries: "set (overlay olds news) \<subseteq> set olds \<union> set news"
  by (auto simp: overlay_def overlay_entry_def dest: set_zip_leftD set_zip_rightD split: if_splits)

lemma append_spec_entries:
  assumes "append_spec log news = Some (ok, log')"
  shows "set log' \<subseteq> set log \<union> set news"
proof -
  have "set (overlay (drop p log) news) \<subseteq> set log \<union> set news" for p
    using overlay_entries [of "drop p log" news] set_drop_subset [of p log] by blast
  then show ?thesis
    using assms set_take_subset [of _ log]
    by (fastforce simp: append_spec_def Let_def split: if_splits)
qed

lemma OnAppendEntries_entries:
  assumes "OnAppendEntries t1 t2 req st = Inr (st', resp)"
    and "log_wf (raft_log st)" and "ae_request_ok req"
  shows "set (memory_log (raft_log st')) \<subseteq> set (memory_log (raft_log st)) \<union> set (ae_entries req)"
proof (cases "ae_term req < current_term st")
  case True
  with assms(1) show ?thesis by (simp add: OnAppendEntries_stale)
next
  case False
  then show ?thesis
    using OnAppendEntries_effect(1) [OF assms(2,3) _ assms(1)] append_spec_entries
    by (fastforce simp: ae_log_spec_def split: if_splits)
qed

lemma make_ae_request_entries: "set (ae_entries (make_ae_request i st)) \<subseteq> set (memory_log (raft_log st))"
  using set_drop_subset [of _ "memory_log (raft_log st)"]
  by (auto simp: make_ae_request_def Let_def GetEntriesStartAt_def split: if_splits)

lemma on_ae_response_entries:
  assumes "on_ae_response t i req resp st = Inr (st', nxt)"
  shows "memory_log (raft_log st') = memory_log (raft_log st)"
  using assms by (auto elim!: on_ae_response_cases simp: raft_frame ae_acknowledged_frame)


section \<open>Entries of a cluster\<close>

definition held :: "int list \<Rightarrow> cluster \<Rightarrow> entry \<Rightarrow> bool" where
  "held ids c e \<longleftrightarrow>
     (\<exists>n \<in> set ids. e \<in> set (memory_log (raft_log (node c n)))) \<or>
     (\<exists>n i req. (n, i, req) \<in> ae_net c \<and> e \<in> set (ae_entries req))"

lemma heldI:
  "n \<in> set ids \<Longrightarrow> e \<in> set (memory_log (raft_log (node c n))) \<Longrightarrow> held ids c e"
  "(n, i, req) \<in> ae_net c \<Longrightarrow> e \<in> set (ae_entries req) \<Longrightarrow> held ids c e"
  by (auto simp: held_def)

text \<open>The entry that a step makes, if it is a client's step.\<close>

definition made_by :: "cluster \<Rightarrow> label \<Rightarrow> cluster \<Rightarrow> entry \<Rightarrow> bool" where
  "made_by c l c' e \<longleftrightarrow> (\<exists>n. l = Client n \<and> e_term e = current_term (node c n) \<and>
     memory_log (raft_log (node c' n)) = memory_log (raft_log (node c n)) @ [e] \<and>
     e_index e = int (length (memory_log (raft_log (node c n)))) + 1)"

lemma meta_append_entries:
  "\<exists>e. memory_log (raft_log (snd (meta_append op path st))) = memory_log (raft_log st) @ [e] \<and>
     e_term e = current_term st \<and> e_index e = int (length (memory_log (raft_log st))) + 1"
  by (simp add: raft_frame Append_entry_def meta_entry_def Let_def)

lemma log_step:
  assumes step: "cluster_step ids c l c'" and m: "messages_ok ids c" and logs: "cluster_logs_ok ids c"
    and "n \<in> set ids" and "e \<in> set (memory_log (raft_log (node c' n)))"
  shows "held ids c e \<or> made_by c l c' e"
  using step
proof (cases rule: cluster_step.cases)
  case (handle_ae k i req t1 t2 st' resp)
  then have "i \<in> set ids" using messages_okD(3) [OF m] by blast
  then have "set (memory_log (raft_log st')) \<subseteq> set (memory_log (raft_log (node c i))) \<union> set (ae_entries req)"
    using OnAppendEntries_entries [OF handle_ae(4)] cluster_logs_okD(1,2) [OF logs] handle_ae(3)
    by (auto simp: server_logs_ok_def)
  with handle_ae assms(4,5) show ?thesis
    by (cases "n = i") (auto intro: heldI)
next
  case (handle_rv k i req t1 t2 st' resp)
  then have "raft_log st' = raft_log (node c i)"
    using OnRequestVote_frame [of t1 t2 req "node c i"] by simp
  with handle_rv assms(4,5) show ?thesis
    by (cases "n = i") (auto intro: heldI)
next
  case (client k op path)
  with assms(4,5) meta_append_entries [of op path "node c k"] show ?thesis
    by (cases "n = k") (auto simp: held_def made_by_def)
next
  case (reply_ae k i req resp t st' nxt)
  with assms(4,5) on_ae_response_entries [OF reply_ae(6)] show ?thesis
    by (cases "n = k") (auto simp: held_def)
next
  case (skip_ae k i req t st' nxt)
  with assms(4,5) on_ae_response_entries [OF skip_ae(5)] show ?thesis
    by (cases "n = k") (auto simp: held_def)
qed (use assms(4,5) in \<open>auto simp: held_def check_leader_round_state raft_frame split: if_splits\<close>)

lemma held_step:
  assumes step: "cluster_step ids c l c'" and m: "messages_ok ids c" and logs: "cluster_logs_ok ids c"
    and "held ids c' e"
  shows "held ids c e \<or> made_by c l c' e"
proof -
  consider n where "n \<in> set ids" "e \<in> set (memory_log (raft_log (node c' n)))"
    | n i req where "(n, i, req) \<in> ae_net c'" "e \<in> set (ae_entries req)"
    using assms(4) by (auto simp: held_def)
  then show ?thesis
  proof cases
    case 1
    then show ?thesis using log_step [OF step m logs] by blast
  next
    case 2
    show ?thesis
    proof (cases "(n, i, req) \<in> ae_net c")
      case True
      with 2 show ?thesis by (auto simp: held_def)
    next
      case False
      with step 2 have "n \<in> set ids" and "remote_call i (node c n) = Call_AE req"
        by (cases rule: cluster_step.cases; auto)+
      then have "n \<in> set ids" "req = make_ae_request i (node c n)"
        by (simp_all add: remote_call_def split: role.splits)
      with 2 make_ae_request_entries [of i "node c n"] show ?thesis
        by (auto simp: held_def)
    qed
  qed
qed


text \<open>
  The invariant, over a set \<open>H\<close> of entries that contains every entry the cluster holds: the
  history of the run, in which an entry stays when its last copy is gone.  Entries of the
  history agree when term and index agree; a leader holds all of them that have its term; the
  term of an entry has an elected server that is past its candidacy for the term; and nobody
  sends to itself.
\<close>

definition past_candidacy :: "raft \<Rightarrow> int \<Rightarrow> bool" where
  "past_candidacy st t \<longleftrightarrow> t < current_term st \<or> t = current_term st \<and> current_role st \<noteq> kCandidate"

definition entries_inv :: "int list \<Rightarrow> cluster \<Rightarrow> entry set \<Rightarrow> bool" where
  "entries_inv ids c H \<longleftrightarrow>
     (\<forall>e. held ids c e \<longrightarrow> e \<in> H) \<and>
     (\<forall>e \<in> H. \<forall>f \<in> H. e_term e = e_term f \<and> e_index e = e_index f \<longrightarrow> e = f) \<and>
     (\<forall>n \<in> set ids. \<forall>e \<in> H. current_role (node c n) = kLeader \<and>
        e_term e = current_term (node c n) \<longrightarrow> e \<in> set (memory_log (raft_log (node c n)))) \<and>
     (\<forall>e \<in> H. \<exists>m \<in> set ids. elected ids c m (e_term e) \<and> past_candidacy (node c m) (e_term e)) \<and>
     (\<forall>n i req. (n, i, req) \<in> ae_net c \<longrightarrow> i \<noteq> n)"

lemma entries_invD:
  assumes "entries_inv ids c H"
  shows "e \<in> H \<Longrightarrow> f \<in> H \<Longrightarrow> e_term e = e_term f \<Longrightarrow> e_index e = e_index f \<Longrightarrow> e = f"
    and "n \<in> set ids \<Longrightarrow> current_role (node c n) = kLeader \<Longrightarrow> e \<in> H \<Longrightarrow>
      e_term e = current_term (node c n) \<Longrightarrow> e \<in> set (memory_log (raft_log (node c n)))"
    and "e \<in> H \<Longrightarrow> \<exists>m \<in> set ids. elected ids c m (e_term e) \<and> past_candidacy (node c m) (e_term e)"
    and "(n, i, req) \<in> ae_net c \<Longrightarrow> i \<noteq> n"
    and "held ids c e \<Longrightarrow> e \<in> H"
  using assms unfolding entries_inv_def by blast+

text \<open>The history after a step: the entry of a client's step is added.\<close>

definition grown :: "entry set \<Rightarrow> cluster \<Rightarrow> label \<Rightarrow> cluster \<Rightarrow> entry set" where
  "grown H c l c' = H \<union> {e. made_by c l c' e}"

text \<open>A server becomes candidate only with a new term, and leader only as a candidate.\<close>

lemma server_step_role:
  assumes "server_step st st'"
  shows "current_role st' = kCandidate \<Longrightarrow> current_term st' = current_term st \<Longrightarrow> current_role st = kCandidate"
    and "current_role st' = kLeader \<Longrightarrow> current_role st \<noteq> kFollower \<and> current_term st' = current_term st"
  using assms
  by (cases rule: server_step.cases;
      auto simp: check_leader_round_state raft_frame ae_acknowledged_frame OnRequestVote_role
        on_rv_response_role ae_adopt_term_role ae_adopt_term_term
        elim!: OnAppendEntries_cases on_ae_response_cases split: if_splits)+

lemma past_candidacy_step:
  assumes "cluster_step ids c l c'" and "members_ok ids c" and "messages_ok ids c"
    and "past_candidacy (node c n) t"
  shows "past_candidacy (node c' n) t"
  using assms(1-3)
proof (cases rule: cluster_step_server)
  case (moved k st')
  with server.term_grows [OF moved(2)] server_step_role(1) [OF moved(2)] assms(4) show ?thesis
    by (auto simp: past_candidacy_def)
qed (use assms(4) in simp)


text \<open>The steps of a cluster in which only a leader logs an operation.\<close>

definition orderly :: "cluster \<Rightarrow> label \<Rightarrow> bool" where
  "orderly c l \<longleftrightarrow> timely c l \<and> (\<forall>n. l = Client n \<longrightarrow> current_role (node c n) = kLeader)"

text \<open>A leader's log only grows while its term lasts: the requests of its term are its own.\<close>

lemma leader_log_grows:
  assumes step: "cluster_step ids c l c'" and inv: "election_inv ids c" and "entries_inv ids c H"
    and n: "n \<in> set ids" and leader: "current_role (node c n) = kLeader"
    and same: "current_term (node c' n) = current_term (node c n)"
  shows "set (memory_log (raft_log (node c n))) \<subseteq> set (memory_log (raft_log (node c' n)))"
  using step
proof (cases rule: cluster_step.cases)
  case (handle_rv k i req t1 t2 st' resp)
  then have "raft_log st' = raft_log (node c i)"
    using OnRequestVote_frame [of t1 t2 req "node c i"] by simp
  with handle_rv show ?thesis by (cases "n = i") auto
next
  case (handle_ae k i req t1 t2 st' resp)
  show ?thesis
  proof (cases "n = i")
    case True
    have "elected ids c k (ae_term req)" and "elected ids c n (current_term (node c n))" and "i \<noteq> k"
      using inv leader_elected [OF inv n leader] entries_invD(4) [OF assms(3) handle_ae(3)] handle_ae(3)
      by (auto simp: election_inv_def leaders_elected_def)
    with True have "ae_term req \<noteq> current_term (node c n)" by (metis elected_unique)
    with handle_ae same True have "st' = node c n"
      by (auto elim!: OnAppendEntries_cases simp: raft_frame ae_adopt_term_term)
    with handle_ae True show ?thesis by simp
  qed (use handle_ae in simp)
next
  case (reply_ae k i req resp t st' nxt)
  with on_ae_response_entries [OF reply_ae(6)] show ?thesis by (cases "n = k") simp_all
next
  case (skip_ae k i req t st' nxt)
  with on_ae_response_entries [OF skip_ae(5)] show ?thesis by (cases "n = k") simp_all
next
  case (client k op path)
  with meta_append_entries [of op path "node c k"] show ?thesis by (cases "n = k") auto
qed (auto simp: check_leader_round_state raft_frame)

text \<open>The entry of a client's step is new, and the leader that makes it holds it.\<close>

lemma made_by_leader:
  assumes "made_by c l c' e" and "cluster_step ids c l c'" and "orderly c l"
  obtains n where "n \<in> set ids" "current_role (node c n) = kLeader" "e_term e = current_term (node c n)"
    "current_term (node c' n) = current_term (node c n)" "current_role (node c' n) = kLeader"
    "memory_log (raft_log (node c' n)) = memory_log (raft_log (node c n)) @ [e]"
    "e_index e = int (length (memory_log (raft_log (node c n)))) + 1"
proof -
  from assms(1) obtain n where n: "l = Client n" "e_term e = current_term (node c n)"
    "memory_log (raft_log (node c' n)) = memory_log (raft_log (node c n)) @ [e]"
    "e_index e = int (length (memory_log (raft_log (node c n)))) + 1"
    by (auto simp: made_by_def)
  moreover have "current_role (node c n) = kLeader" using assms(3) n(1) by (simp add: orderly_def)
  moreover from assms(2) n(1) have "n \<in> set ids" "current_term (node c' n) = current_term (node c n)"
    "current_role (node c' n) = current_role (node c n)"
    by (cases rule: cluster_step.cases; simp add: raft_frame)+
  ultimately show thesis using that by metis
qed

lemma made_entry_new:
  assumes inv: "entries_inv ids c H" and logs: "cluster_logs_ok ids c" and made: "made_by c l c' e"
    and step: "cluster_step ids c l c'" and "orderly c l"
    and f: "f \<in> H" "e_term f = e_term e"
  shows "e_index f \<noteq> e_index e"
proof -
  obtain n where n: "n \<in> set ids" "current_role (node c n) = kLeader" "e_term e = current_term (node c n)"
    "e_index e = int (length (memory_log (raft_log (node c n)))) + 1"
    by (rule made_by_leader [OF made step assms(5)])
  then have "f \<in> set (memory_log (raft_log (node c n)))"
    using entries_invD(2) [OF inv n(1,2) f(1)] f(2) by simp
  moreover have "log_wf (raft_log (node c n))"
    using cluster_logs_okD(1) [OF logs n(1)] by (simp add: server_logs_ok_def)
  ultimately have "e_index f \<le> int (length (memory_log (raft_log (node c n))))"
    by (auto simp: log_wf_def numbered_iff_nth in_set_conv_nth)
  with n(4) show ?thesis by simp
qed


text \<open>The four parts of the invariant after a step.\<close>

lemma entry_unique_step:
  assumes step: "cluster_step ids c l c'" and logs: "cluster_logs_ok ids c"
    and inv: "entries_inv ids c H" and l: "orderly c l"
    and e: "e \<in> grown H c l c'" and f: "f \<in> grown H c l c'" and eq: "e_term e = e_term f" "e_index e = e_index f"
  shows "e = f"
proof -
  note new = made_entry_new [OF inv logs _ step l]
  consider "e \<in> H" "f \<in> H" | "e \<in> H" "made_by c l c' f"
    | "made_by c l c' e" "f \<in> H" | "made_by c l c' e" "made_by c l c' f"
    using e f by (auto simp: grown_def)
  then show ?thesis
  proof cases
    case 1
    then show ?thesis using entries_invD(1) [OF inv] eq by blast
  next
    case 2
    then show ?thesis using new [of f e] eq by simp
  next
    case 3
    then show ?thesis using new [of e f] eq by simp
  next
    case 4
    then show ?thesis by (auto simp: made_by_def)
  qed
qed

lemma entry_elected_step:
  assumes step: "cluster_step ids c l c'" and inv: "election_inv ids c"
    and "entries_inv ids c H" and "orderly c l" and "e \<in> grown H c l c'"
  shows "\<exists>m \<in> set ids. elected ids c' m (e_term e) \<and> past_candidacy (node c' m) (e_term e)"
proof -
  have m: "members_ok ids c" "messages_ok ids c" using inv by (simp_all add: election_inv_def)
  consider "e \<in> H" | "made_by c l c' e" using assms(5) by (auto simp: grown_def)
  then have "\<exists>m \<in> set ids. elected ids c m (e_term e) \<and> past_candidacy (node c m) (e_term e)"
  proof cases
    case 1
    then show ?thesis using entries_invD(3) [OF assms(3)] by blast
  next
    case 2
    then obtain n where "n \<in> set ids" "current_role (node c n) = kLeader" "e_term e = current_term (node c n)"
      by (rule made_by_leader [OF _ step assms(4)])
    then show ?thesis using leader_elected [OF inv] by (force simp: past_candidacy_def)
  qed
  then show ?thesis using elected_step [OF step m] past_candidacy_step [OF step m] by blast
qed

lemma leader_holds_step:
  assumes step: "cluster_step ids c l c'" and inv: "election_inv ids c"
    and entries: "entries_inv ids c H" and l: "orderly c l"
    and n: "n \<in> set ids" and leader: "current_role (node c' n) = kLeader"
    and e: "e \<in> grown H c l c'" "e_term e = current_term (node c' n)"
  shows "e \<in> set (memory_log (raft_log (node c' n)))"
proof -
  have m: "members_ok ids c" "messages_ok ids c" using inv by (simp_all add: election_inv_def)
  have inv': "election_inv ids c'"
    using election_inv_step [OF step inv] l by (simp add: orderly_def)
  have elected: "elected ids c' n (e_term e)" using leader_elected [OF inv' n leader] e(2) by simp
  consider "e \<in> H" | "made_by c l c' e" using e(1) by (auto simp: grown_def)
  then show ?thesis
  proof cases
    case 1
    then obtain k where k: "elected ids c k (e_term e)" "past_candidacy (node c k) (e_term e)"
      using entries_invD(3) [OF entries] by blast
    then have "k = n" using elected elected_step [OF step m] by (metis elected_unique)
    have "current_role (node c n) \<noteq> kFollower \<and> current_term (node c' n) = current_term (node c n)"
      using step m leader
    proof (cases rule: cluster_step_server)
      case same
      with leader show ?thesis by simp
    next
      case (moved k st')
      with leader server_step_role(2) [OF moved(2)] show ?thesis by (cases "n = k") auto
    qed
    with k(2) \<open>k = n\<close> e(2) have "current_role (node c n) = kLeader"
      and "current_term (node c' n) = current_term (node c n)"
      by (cases "current_role (node c n)"; auto simp: past_candidacy_def)+
    with leader_log_grows [OF step inv entries n] entries_invD(2) [OF entries n _ 1] e(2) show ?thesis by auto
  next
    case 2
    then obtain k where k: "k \<in> set ids" "e_term e = current_term (node c k)"
      "current_term (node c' k) = current_term (node c k)" "current_role (node c' k) = kLeader"
      "memory_log (raft_log (node c' k)) = memory_log (raft_log (node c k)) @ [e]"
      by (rule made_by_leader [OF _ step l])
    then have "elected ids c' k (e_term e)" using leader_elected [OF inv' k(1,4)] by simp
    then have "k = n" using elected by (rule elected_unique)
    with k(5) show ?thesis by simp
  qed
qed

lemma entries_inv_step:
  assumes step: "cluster_step ids c l c'" and inv: "election_inv ids c" and logs: "cluster_logs_ok ids c"
    and entries: "entries_inv ids c H" and l: "orderly c l"
  shows "entries_inv ids c' (grown H c l c')"
proof -
  have m: "members_ok ids c" "messages_ok ids c" using inv by (simp_all add: election_inv_def)
  have "i \<noteq> n" if "(n, i, req) \<in> ae_net c'" for n i req
  proof (cases "(n, i, req) \<in> ae_net c")
    case True
    then show ?thesis by (rule entries_invD(4) [OF entries])
  next
    case False
    with step that members_okD(3) [OF m(1)] show ?thesis
      by (cases rule: cluster_step.cases) auto
  qed
  moreover have "e \<in> grown H c l c'" if "held ids c' e" for e
    using held_step [OF step m(2) logs that] entries_invD(5) [OF entries] by (auto simp: grown_def)
  ultimately show ?thesis
    unfolding entries_inv_def
    using entry_unique_step [OF step logs entries l] leader_holds_step [OF step inv entries l]
      entry_elected_step [OF step inv entries l] by blast
qed

lemma orderly_timely: "reachable orderly ids c \<Longrightarrow> reachable timely ids c"
  by (erule reachable_mono) (simp add: orderly_def)

lemma initial_entries_inv:
  assumes "initial_cluster ids c"
  shows "entries_inv ids c {}"
proof -
  have "\<not> held ids c e" for e
    using assms by (auto simp: held_def initial_cluster_def fresh_server_def new_raft_fields new_log_def)
  then show ?thesis using assms by (simp add: entries_inv_def initial_cluster_def)
qed

lemma reachable_entries_inv: "reachable orderly ids c \<Longrightarrow> \<exists>H. entries_inv ids c H"
proof (induction rule: reachable.induct)
  case (start c)
  then show ?case using initial_entries_inv by blast
next
  case (step c l c')
  then show ?case
    using entries_inv_step reachable_election_inv [OF orderly_timely] reachable_logs_ok by blast
qed



section \<open>A run with an entry\<close>

text \<open>The leader of the concrete run logs an operation and sends it to server 3, which stores it.\<close>

definition demo_entry :: entry where
  "demo_entry = \<lparr>e_term = 1, e_index = 1, e_op = kMkdir, e_value = ''/a''\<rparr>"

definition demo_logged :: cluster where
  "demo_logged = set_node 1 (snd (meta_append kMkdir ''/a'' (node demo_elected 1))) demo_elected"

definition demo_entry_req :: ae_request where
  "demo_entry_req = make_ae_request 3 (node demo_logged 1)"

definition demo_entry_sent :: cluster where
  "demo_entry_sent = (set_call 1 3 (Call_AE demo_entry_req) demo_logged)\<lparr>ae_net := {(1, 3, demo_entry_req)}\<rparr>"

definition demo_stored :: raft where
  "demo_stored = (case OnAppendEntries demo_tick demo_tick demo_entry_req (node demo_logged 3) of
     Inl _ \<Rightarrow> node demo_logged 3 | Inr (st, _) \<Rightarrow> st)"

definition demo_replicated :: cluster where
  "demo_replicated = (set_node 3 demo_stored demo_entry_sent)\<lparr>ae_back :=
     {(1, 3, demo_entry_req, \<lparr>aer_term = 1, aer_success = True, aer_last_log_index = Some 1\<rparr>)}\<rparr>"

lemma demo_leader_node:
  "node demo_elected 1 = fst (on_rv_response 3 (snd (demo_vote demo_req1 (demo_server 3)))
     (demo_timeout (demo_server 1)))"
  by (simp add: demo_elected_def demo_count_def demo_voted_state)

lemma demo_leader_fields:
  "memory_log (raft_log (node demo_elected 1)) = []" "last_commited_index (raft_log (node demo_elected 1)) = 0"
  "self_id (node demo_elected 1) = 1" "leader_id (node demo_elected 1) = 1"
  "GetNextIndex 3 (node demo_elected 1) = 1" "3 \<in> peer_ids (node demo_elected 1)"
  by (simp_all add: demo_leader_node demo_req1_def demo_eval GetNextIndex_def)

lemma demo_logged_fields:
  "memory_log (raft_log (node demo_logged 1)) = [demo_entry]"
  "last_commited_index (raft_log (node demo_logged 1)) = 0"
  "current_term (node demo_logged 1) = 1" "current_role (node demo_logged 1) = kLeader"
  "node demo_logged 3 = fst (demo_vote demo_req1 (demo_server 3))"
  "GetNextIndex 3 (node demo_logged 1) = 1" "self_id (node demo_logged 1) = 1"
  "3 \<in> peer_ids (node demo_logged 1)"
  using demo_leader_fields demo_elected_leader
  by (simp_all add: demo_logged_def raft_frame Append_entry_def meta_entry_def demo_entry_def Let_def
      demo_elected_state GetNextIndex_def peer_ids_def)

lemma demo_entry_req_eq:
  "demo_entry_req = \<lparr>ae_term = 1, ae_leader_id = 1, ae_prev_log_index = 0, ae_prev_log_term = 1,
     ae_entries = [demo_entry], ae_leader_commit_index = 0\<rparr>"
  by (simp add: demo_entry_req_def make_ae_request_def demo_logged_fields GetLastLogIndex_def
      GetLastLogTerm_def GetEntriesStartAt_def lower_bound_def lower_bound_loop.simps demo_entry_def
      GetLastCommitIndex_def Let_def)

lemma demo_entry_handled:
  "OnAppendEntries demo_tick demo_tick demo_entry_req (node demo_logged 3) =
     Inr (demo_stored, \<lparr>aer_term = 1, aer_success = True, aer_last_log_index = Some 1\<rparr>) \<and>
   memory_log (raft_log demo_stored) = [demo_entry]"
  by (simp add: demo_stored_def demo_entry_req_eq OnAppendEntries_def demo_logged_fields demo_req1_def
      demo_eval ae_adopt_term_def ae_learn_leader_def ae_append_def ae_commit_def ae_debug_print_def
      GetLastCommitIndex_def default_ae_response_def Append_entries_def print_log_def demo_entry_def)


lemma demo_elected_orderly: "reachable orderly [1, 2, 3] demo_elected"
  unfolding demo_elected_def
  by (rule demo_count_step [OF demo_voted_reachable])
    (simp_all add: orderly_def demo_voted_state demo_req1_def make_rv_request_def)

lemma demo_logged_reachable: "reachable orderly [1, 2, 3] demo_logged"
  unfolding demo_logged_def
  by (rule reachable.step [OF demo_elected_orderly _ cluster_step.client])
    (simp_all add: orderly_def demo_elected_leader demo_leader_fields)

lemma demo_logged_run: "run_through orderly [1, 2, 3] demo_logged [demo_entry_sent, demo_replicated]"
proof -
  have call: "remote_call 3 (node demo_logged 1) = Call_AE demo_entry_req"
    by (simp add: remote_call_def demo_logged_fields demo_entry_req_def)
  have "cluster_step [1, 2, 3] demo_logged (Send 1 3) demo_entry_sent"
    using cluster_step.send_ae [OF _ demo_logged_fields(8) _ call, of "[1, 2, 3]"]
    by (simp add: demo_entry_sent_def demo_logged_def demo_elected_state)
  moreover have "cluster_step [1, 2, 3] demo_entry_sent (Handle 3) demo_replicated"
    using cluster_step.handle_ae [of 1 3 demo_entry_req demo_entry_sent demo_tick demo_tick
        demo_stored _ "[1, 2, 3]"] demo_entry_handled
    by (simp add: demo_entry_sent_def demo_replicated_def demo_logged_def demo_elected_state)
  moreover have "orderly demo_logged (Send 1 3)" "orderly demo_entry_sent (Handle 3)"
    by (simp_all add: orderly_def)
  ultimately show ?thesis by auto
qed

lemma demo_replicated_reachable: "reachable orderly [1, 2, 3] demo_replicated"
  using run_through_reachable [OF demo_logged_reachable demo_logged_run] by simp

lemma demo_replicated_logs:
  "memory_log (raft_log (node demo_replicated 1)) = [demo_entry]"
  "memory_log (raft_log (node demo_replicated 3)) = [demo_entry]"
  "current_role (node demo_replicated 1) = kLeader" "current_term (node demo_replicated 1) = 1"
  using demo_entry_handled demo_logged_fields
  by (simp_all add: demo_replicated_def demo_entry_sent_def)


section \<open>Properties\<close>

text \<open>
  C26. The indices stay in their bounds, in every state a cluster can reach, vote replies counted
  late included: \<open>GetEntry\<close> of a server finds an entry exactly for the indices from 1 to the last
  index, the number of entries, and finds the one with that index; a leader's next index for
  each other server is positive, so the request it builds for it starts at an index that is
  not negative and carries the entries from the one behind it to its last one, in order.
\<close>

theorem log_indices_in_bounds:
  assumes "reachable any_step ids c" and "n \<in> set ids"
  shows "GetLastLogIndex (raft_log (node c n)) = Size (raft_log (node c n)) \<and>
    (\<forall>i. case GetEntry i (raft_log (node c n)) of
       None \<Rightarrow> i < 1 \<or> GetLastLogIndex (raft_log (node c n)) < i
     | Some e \<Rightarrow> 1 \<le> i \<and> i \<le> GetLastLogIndex (raft_log (node c n)) \<and> e_index e = i) \<and>
    (current_role (node c n) = kLeader \<longrightarrow> (\<forall>k \<in> peer_ids (node c n).
       1 \<le> GetNextIndex k (node c n) \<and> 0 \<le> ae_prev_log_index (make_ae_request k (node c n)) \<and>
       map e_index (ae_entries (make_ae_request k (node c n))) =
         [GetNextIndex k (node c n) .. GetLastLogIndex (raft_log (node c n))]))"
proof -
  let ?st = "node c n"
  have "server_logs_ok ?st" by (rule cluster_logs_okD(1) [OF reachable_logs_ok [OF assms(1)] assms(2)])
  then have wf: "log_wf (raft_log ?st)"
    and nxt: "current_role ?st = kLeader \<Longrightarrow> k \<in> peer_ids ?st \<Longrightarrow> 1 \<le> GetNextIndex k ?st" for k
    by (simp_all add: server_logs_ok_def)
  note last = wf [THEN GetLastLogIndex_wf]
  have "GetLastLogIndex (raft_log ?st) = Size (raft_log ?st)" by (simp add: last Size_def)
  moreover have "case GetEntry i (raft_log ?st) of
       None \<Rightarrow> i < 1 \<or> GetLastLogIndex (raft_log ?st) < i
     | Some e \<Rightarrow> 1 \<le> i \<and> i \<le> GetLastLogIndex (raft_log ?st) \<and> e_index e = i" for i
    using wf numbered_nth [of 1 "memory_log (raft_log ?st)" "nat (i - 1)"] by (auto simp: log_query log_wf_def)
  moreover have "map e_index (ae_entries (make_ae_request k ?st)) = [GetNextIndex k ?st .. GetLastLogIndex (raft_log ?st)]"
    if "1 \<le> GetNextIndex k ?st" for k
  proof -
    have "map e_index (memory_log (raft_log ?st)) = [1 .. int (length (memory_log (raft_log ?st)))]"
      using wf by (intro nth_equalityI) (simp_all add: log_wf_def numbered_nth)
    then have "map e_index (drop j (memory_log (raft_log ?st))) = drop j [1 .. int (length (memory_log (raft_log ?st)))]" for j
      by (simp flip: drop_map)
    moreover have "drop (nat (GetNextIndex k ?st - 1)) [1 .. int (length (memory_log (raft_log ?st)))] =
        [GetNextIndex k ?st .. int (length (memory_log (raft_log ?st)))]"
      using that by (intro nth_equalityI) auto
    ultimately show ?thesis using that wf last by (simp add: make_ae_request_def Let_def log_query)
  qed
  moreover have "1 \<le> GetNextIndex k ?st \<and> 0 \<le> ae_prev_log_index (make_ae_request k ?st)"
    if "current_role ?st = kLeader" "k \<in> peer_ids ?st" for k
    using nxt [OF that] by (simp add: make_ae_request_def Let_def)
  ultimately show ?thesis by blast
qed

theorem log_indices_in_bounds_witness:
  "3 \<in> peer_ids (node demo_logged 1) \<and> GetLastLogIndex (raft_log (node demo_logged 1)) = 1 \<and>
   map e_index (ae_entries (make_ae_request 3 (node demo_logged 1))) = [GetNextIndex 3 (node demo_logged 1) .. 1]"
proof -
  have "3 \<in> peer_ids (node demo_logged 1)"
    using reachable_base [OF demo_logged_reachable] by (simp add: members_ok_def)
  moreover have "GetLastLogIndex (raft_log (node demo_logged 1)) = 1" using demo_logged_fields by (simp add: GetLastLogIndex_def demo_entry_def)
  moreover have "current_role (node demo_logged 1) = kLeader" using demo_logged_fields by simp
  ultimately show ?thesis using log_indices_in_bounds [OF reachable_any [OF demo_logged_reachable], of 1] by simp
qed

text \<open>
  C24. An entry is known by its term and index: in every state a cluster can reach when vote
  replies are counted in the term they were asked for and operations are logged by leaders,
  two entries with the same term and the same index, in the logs of any two servers, are the
  same entry, with the same operation and path.
\<close>

theorem entries_agree:
  assumes "reachable orderly ids c" and "n \<in> set ids" "m \<in> set ids"
    and "e \<in> set (memory_log (raft_log (node c n)))" "f \<in> set (memory_log (raft_log (node c m)))"
    and "e_term e = e_term f" "e_index e = e_index f"
  shows "e = f"
proof -
  obtain H where "entries_inv ids c H" using reachable_entries_inv [OF assms(1)] by blast
  with entries_invD(1,5) [OF this] heldI(1) assms(2-) show ?thesis by metis
qed

theorem entries_agree_witness:
  "memory_log (raft_log (node demo_replicated 1)) ! 0 = memory_log (raft_log (node demo_replicated 3)) ! 0 \<and>
   e_value (memory_log (raft_log (node demo_replicated 3)) ! 0) = ''/a''"
proof
  show "memory_log (raft_log (node demo_replicated 1)) ! 0 = memory_log (raft_log (node demo_replicated 3)) ! 0"
    by (rule entries_agree [OF demo_replicated_reachable, of 1 3]) (simp_all add: demo_replicated_logs)
qed (simp add: demo_replicated_logs demo_entry_def)

text \<open>
  C25. A leader has every entry of its term: in a run in which vote replies are counted in their
  term and leaders log the operations, whatever server stores an entry of the leader's
  term, and whatever request carries one, the leader's log holds it.
\<close>

theorem leader_has_its_term:
  assumes "reachable orderly ids c" and "n \<in> set ids" "current_role (node c n) = kLeader"
    and "(\<exists>m \<in> set ids. e \<in> set (memory_log (raft_log (node c m)))) \<or>
      (\<exists>k i req. (k, i, req) \<in> ae_net c \<and> e \<in> set (ae_entries req))"
    and "e_term e = current_term (node c n)"
  shows "e \<in> set (memory_log (raft_log (node c n)))"
proof -
  obtain H where H: "entries_inv ids c H" using reachable_entries_inv [OF assms(1)] by blast
  have "held ids c e" using assms(4) by (simp add: held_def)
  with entries_invD(2,5) [OF H] assms(2,3,5) show ?thesis by blast
qed

theorem leader_has_its_term_witness:
  "demo_entry \<in> set (memory_log (raft_log (node demo_replicated 3))) \<and>
   demo_entry \<in> set (memory_log (raft_log (node demo_replicated 1)))"
proof -
  have 3: "demo_entry \<in> set (memory_log (raft_log (node demo_replicated 3)))"
    by (simp add: demo_replicated_logs)
  then have "(\<exists>m \<in> set [1, 2, 3]. demo_entry \<in> set (memory_log (raft_log (node demo_replicated m)))) \<or>
      (\<exists>k i req. (k, i, req) \<in> ae_net demo_replicated \<and> demo_entry \<in> set (ae_entries req))"
    by simp
  then have "demo_entry \<in> set (memory_log (raft_log (node demo_replicated 1)))"
    by (intro leader_has_its_term [OF demo_replicated_reachable])
      (simp_all add: demo_replicated_logs demo_entry_def)
  with 3 show ?thesis by simp
qed



section \<open>Without the test of the role\<close>

text \<open>
  \<open>OnMetaOperation\<close> asks only that some leader is known.  If a server that has stepped down since
  the handler tested its role, or that was never leader, gets there, it logs an entry of its
  own under the term: the run of three servers goes on with an operation at server 3.
\<close>

definition demo_split :: cluster where
  "demo_split =
     (let c = set_node 1 (snd (meta_append kMkdir ''/a'' (node demo_beat 1))) demo_beat
      in set_node 3 (snd (meta_append kMkdir ''/b'' (node c 3))) c)"

lemma demo_split_reachable: "reachable timely [1, 2, 3] demo_split"
proof -
  have "leader_id (node demo_beat 1) \<noteq> -1" by (simp add: demo_beat_state demo_leader_fields)
  then have "reachable timely [1, 2, 3] (set_node 1 (snd (meta_append kMkdir ''/a'' (node demo_beat 1))) demo_beat)"
    by (intro reachable.step [OF demo_beat_reachable _ cluster_step.client]) simp_all
  then show ?thesis
    unfolding demo_split_def Let_def
    by (rule reachable.step [OF _ _ cluster_step.client]) (simp_all add: demo_beat_state)
qed

lemma entries_disagree_without_test:
  "\<exists>c e f. reachable timely [1, 2, 3] c \<and> e \<in> set (memory_log (raft_log (node c 1))) \<and>
     f \<in> set (memory_log (raft_log (node c 3))) \<and> e_term e = e_term f \<and> e_index e = e_index f \<and> e \<noteq> f"
proof -
  have 1: "memory_log (raft_log (node demo_split 1)) = [demo_entry]"
    using demo_leader_fields demo_elected_leader
    by (simp add: demo_split_def demo_beat_state raft_frame Append_entry_def meta_entry_def demo_entry_def Let_def)
  have "memory_log (raft_log demo_follower) = []" "current_term demo_follower = 1"
    by (simp_all add: demo_follower_def raft_frame demo_elected_state demo_req1_def demo_eval)
  then have 3: "memory_log (raft_log (node demo_split 3)) = [demo_entry\<lparr>e_value := ''/b''\<rparr>]"
    by (simp add: demo_split_def demo_beat_def raft_frame Append_entry_def meta_entry_def demo_entry_def Let_def)
  show ?thesis
    by (intro exI [of _ demo_split] exI [of _ demo_entry] exI [of _ "demo_entry\<lparr>e_value := ''/b''\<rparr>"])
      (simp add: 1 3 demo_split_reachable, simp add: demo_entry_def)
qed

end
