(* ===== verification/Cluster_Run.thy ===== *)
theory Cluster_Run
  imports Cluster_Entries
begin

text \<open>
  Runs that can be computed.  A run of whole rounds, in which every remote call is answered
  before the next step, changes only the states of the servers, so it is a function on the list
  of these states; \<open>do_trace_run\<close> turns the computed lists into a run of the cluster.
\<close>

section \<open>Rounds on the list of servers\<close>

datatype run_op = Op_timeout int | Op_vote int int | Op_client int meta_op string | Op_append int int

definition server_at :: "raft list \<Rightarrow> int \<Rightarrow> raft" where
  "server_at sts n = sts ! nat (n - 1)"

definition put_server :: "int \<Rightarrow> raft \<Rightarrow> raft list \<Rightarrow> raft list" where
  "put_server n st sts = sts[nat (n - 1) := st]"

text \<open>
  One round: a time-out of the election timer, a vote request with its reply, an operation of a
  client at a leader whose term is among \<open>terms\<close>, an AppendEntries request with its reply.
\<close>

fun do_op :: "int list \<Rightarrow> run_op \<Rightarrow> raft list \<Rightarrow> raft list option" where
  "do_op terms (Op_timeout n) sts =
     Some (put_server n (fst (check_leader_round 600 demo_tick (server_at sts n))) sts)"
| "do_op terms (Op_vote n i) sts =
     (case remote_call i (server_at sts n) of
        Call_RV req \<Rightarrow>
          (let (sti, resp) = OnRequestVote demo_tick demo_tick req (server_at sts i)
           in Some (put_server n (fst (on_rv_response i resp (server_at sts n))) (put_server i sti sts)))
      | _ \<Rightarrow> None)"
| "do_op terms (Op_client n op path) sts =
     (let st = server_at sts n
      in if current_role st = kLeader \<and> leader_id st \<noteq> -1 \<and> current_term st \<in> set terms
         then Some (put_server n (snd (meta_append op path st)) sts) else None)"
| "do_op terms (Op_append n i) sts =
     (case remote_call i (server_at sts n) of
        Call_AE req \<Rightarrow>
          (case OnAppendEntries demo_tick demo_tick req (server_at sts i) of
             Inl _ \<Rightarrow> None
           | Inr (sti, resp) \<Rightarrow>
               (case on_ae_response demo_tick i req resp (server_at sts n) of
                  Inl _ \<Rightarrow> None
                | Inr (stn, _) \<Rightarrow> Some (put_server n stn (put_server i sti sts))))
      | _ \<Rightarrow> None)"

fun op_hosts :: "run_op \<Rightarrow> int list" where
  "op_hosts (Op_timeout n) = [n]"
| "op_hosts (Op_vote n i) = [n, i]"
| "op_hosts (Op_client n op path) = [n]"
| "op_hosts (Op_append n i) = [n, i]"

text \<open>The states after each of the rounds, and after the last one.\<close>

fun do_trace :: "int list \<Rightarrow> run_op list \<Rightarrow> raft list \<Rightarrow> raft list list option" where
  "do_trace terms [] sts = Some []"
| "do_trace terms (x # xs) sts =
     (case do_op terms x sts of None \<Rightarrow> None | Some sts' \<Rightarrow> map_option ((#) sts') (do_trace terms xs sts'))"

definition do_ops :: "int list \<Rightarrow> run_op list \<Rightarrow> raft list \<Rightarrow> raft list option" where
  "do_ops terms xs sts = map_option (\<lambda>tr. last (sts # tr)) (do_trace terms xs sts)"


section \<open>The start\<close>

definition five :: "int list" where
  "five = [1, 2, 3, 4, 5]"

definition run_server :: "int \<Rightarrow> raft" where
  "run_server n = new_raft demo_tick (\<lambda>_. 0) n ''host''
     (filter (\<lambda>(i, h). i \<noteq> n) [(1, ''a''), (2, ''b''), (3, ''c''), (4, ''d''), (5, ''e'')])"

definition run_start :: "raft list" where
  "run_start = map run_server five"

definition run_cluster :: cluster where
  "run_cluster = \<lparr>node = run_server, outstanding = (\<lambda>_ _. No_call),
     rv_net = {}, rv_back = {}, ae_net = {}, ae_back = {}\<rparr>"

section \<open>Computed runs are runs of the cluster\<close>

text \<open>Between two rounds no call is under way and the list holds the states of the servers.\<close>

definition follows :: "cluster \<Rightarrow> raft list \<Rightarrow> bool" where
  "follows c sts \<longleftrightarrow> outstanding c = (\<lambda>_ _. No_call) \<and> length sts = 5 \<and>
     (\<forall>n \<in> set five. node c n = server_at sts n)"

lemma five_iff: "n \<in> set five \<longleftrightarrow> 1 \<le> n \<and> n \<le> 5"
  by (auto simp: five_def)

lemma server_at_put:
  assumes "n \<in> set five" "m \<in> set five" and "length sts = 5"
  shows "server_at (put_server n st sts) m = (if m = n then st else server_at sts m)"
proof -
  have "nat (m - 1) = nat (n - 1) \<longleftrightarrow> m = n" "nat (n - 1) < 5" using assms(1,2) by (auto simp: five_iff)
  with assms(3) show ?thesis by (auto simp: server_at_def put_server_def nth_list_update)
qed

lemma follows_put:
  "follows c sts \<Longrightarrow> n \<in> set five \<Longrightarrow> node c' = (node c)(n := st) \<Longrightarrow> outstanding c' = outstanding c \<Longrightarrow>
    follows c' (put_server n st sts)"
  by (auto simp: follows_def server_at_put) (simp add: put_server_def)

lemma follows_put2:
  assumes "follows c sts" and "i \<in> set five" "n \<in> set five"
    and "node c' = (node c)(i := sti, n := stn)" and "outstanding c' = outstanding c"
  shows "follows c' (put_server n stn (put_server i sti sts))"
proof -
  have "follows (c\<lparr>node := (node c)(i := sti)\<rparr>) (put_server i sti sts)"
    by (rule follows_put [OF assms(1,2)]) simp_all
  then show ?thesis by (rule follows_put [OF _ assms(3)]) (simp_all add: assms(4,5))
qed

lemma follows_at:
  assumes "follows c sts" and "n \<in> set five"
  shows "node c n = server_at sts n" "outstanding c n i = No_call"
  using assms by (simp_all add: follows_def)

lemma five_peer:
  assumes "reachable P five c" and "n \<in> set five" and "i \<in> set five" "i \<noteq> n"
  shows "i \<in> peer_ids (node c n)"
  using reachable_base [OF assms(1)] members_okD(3) assms(2-) by (metis DiffI singletonD)

text \<open>
  A round as a run of the cluster: it ends in the computed states, and in between every server
  is in its state from before or from after the round.
\<close>

definition runs_to :: "(cluster \<Rightarrow> label \<Rightarrow> bool) \<Rightarrow> cluster \<Rightarrow> raft list \<Rightarrow> raft list \<Rightarrow> bool" where
  "runs_to P c sts sts' \<longleftrightarrow> (\<exists>ds. run_through P five c ds \<and> follows (last (c # ds)) sts' \<and>
     (\<forall>d \<in> set ds. \<forall>m \<in> set five. node d m = server_at sts m \<or> node d m = server_at sts' m))"

lemma runs_toI:
  assumes "run_through P five c ds" and "follows c sts" and "follows (last (c # ds)) sts'"
    and "\<And>d m. d \<in> set ds \<Longrightarrow> node d m = node c m \<or> node d m = node (last (c # ds)) m"
  shows "runs_to P c sts sts'"
proof -
  have "node d m = server_at sts m \<or> node d m = server_at sts' m" if "d \<in> set ds" "m \<in> set five" for d m
    using assms(4) [OF that(1), of m] assms(2,3) that(2) unfolding follows_def by metis
  with assms(1,3) show ?thesis unfolding runs_to_def by blast
qed

text \<open>The labels that a round may use, for a filter \<open>P\<close> that admits orderly steps in the terms.\<close>

definition admits :: "int list \<Rightarrow> (cluster \<Rightarrow> label \<Rightarrow> bool) \<Rightarrow> bool" where
  "admits terms P \<longleftrightarrow> (\<forall>c l. orderly c l \<and> (\<forall>n. l = Client n \<longrightarrow> current_term (node c n) \<in> set terms) \<longrightarrow> P c l)"

lemma admits_simps:
  assumes "admits terms P"
  shows "P c (Timer n)" "P c (Send n i)" "P c (Handle i)" "P c (Append_reply n i)"
    "rv_term req = current_term (node c n) \<Longrightarrow> P c (Vote_reply n i req)"
    "current_role (node c n) = kLeader \<Longrightarrow> current_term (node c n) \<in> set terms \<Longrightarrow> P c (Client n)"
  using assms by (simp_all add: admits_def orderly_def)

lemma do_vote_run:
  assumes P: "admits terms P" and r: "reachable P five c" and f: "follows c sts"
    and n: "n \<in> set five" and i: "i \<in> set five" "i \<noteq> n"
    and run: "do_op terms (Op_vote n i) sts = Some sts'"
  shows "runs_to P c sts sts'"
proof -
  note p = admits_simps [OF P]
  note nd = follows_at [OF f n] follows_at(1) [OF f i(1)] and peer = five_peer [OF r n i]
  obtain req where req: "remote_call i (node c n) = Call_RV req"
    using run nd by (auto split: rpc_call.splits)
  obtain sti resp where h: "OnRequestVote demo_tick demo_tick req (node c i) = (sti, resp)" by fastforce
  have sts': "sts' = put_server n (fst (on_rv_response i resp (node c n))) (put_server i sti sts)"
    using run nd req h by simp
  have asked: "rv_term req = current_term (node c n)"
    using req by (auto simp: remote_call_def make_rv_request_def split: role.splits)
  define c1 where "c1 = (set_call n i (Call_RV req) c)\<lparr>rv_net := insert (n, i, req) (rv_net c)\<rparr>"
  define c2 where "c2 = (set_node i sti c1)\<lparr>rv_back := insert (n, i, req, resp) (rv_back c1)\<rparr>"
  define c3 where "c3 = set_node n (fst (on_rv_response i resp (node c2 n))) (set_call n i No_call c2)"
  have "cluster_step five c (Send n i) c1"
    unfolding c1_def by (rule cluster_step.send_rv [OF n peer nd(2) req])
  moreover have "cluster_step five c1 (Handle i) c2"
    unfolding c2_def by (rule cluster_step.handle_rv) (use h in \<open>simp_all add: c1_def\<close>)
  moreover have "cluster_step five c2 (Vote_reply n i req) c3"
    unfolding c3_def by (rule cluster_step.reply_rv [OF n]) (simp_all add: c2_def c1_def)
  moreover have "P c2 (Vote_reply n i req)" using asked i by (intro p(5)) (simp add: c2_def c1_def)
  ultimately have run3: "run_through P five c [c1, c2, c3]"
    using p(2,3) unfolding run_through.simps by blast
  have out: "outstanding c3 = outstanding c"
    using f by (auto simp: c3_def c2_def c1_def set_call_def follows_def fun_eq_iff)
  have node3: "node c3 = (node c)(i := sti, n := fst (on_rv_response i resp (node c n)))"
    using i by (auto simp: c3_def c2_def c1_def)
  have "follows c3 sts'" unfolding sts' by (rule follows_put2 [OF f i(1) n node3 out])
  then show ?thesis
    by (intro runs_toI [OF run3 f]) (use i(2) in \<open>auto simp: node3 c2_def c1_def\<close>)
qed

lemma do_append_run:
  assumes P: "admits terms P" and r: "reachable P five c" and f: "follows c sts"
    and n: "n \<in> set five" and i: "i \<in> set five" "i \<noteq> n"
    and run: "do_op terms (Op_append n i) sts = Some sts'"
  shows "runs_to P c sts sts'"
proof -
  note p = admits_simps [OF P]
  note nd = follows_at [OF f n] follows_at(1) [OF f i(1)] and peer = five_peer [OF r n i]
  obtain req where req: "remote_call i (node c n) = Call_AE req"
    using run nd by (auto split: rpc_call.splits)
  obtain sti resp where h: "OnAppendEntries demo_tick demo_tick req (node c i) = Inr (sti, resp)"
    using run nd req by (auto split: sum.splits)
  obtain stn nxt where a: "on_ae_response demo_tick i req resp (node c n) = Inr (stn, nxt)"
    using run nd req h by (auto split: sum.splits)
  have sts': "sts' = put_server n stn (put_server i sti sts)"
    using run nd req h a by simp
  define c1 where "c1 = (set_call n i (Call_AE req) c)\<lparr>ae_net := insert (n, i, req) (ae_net c)\<rparr>"
  define c2 where "c2 = (set_node i sti c1)\<lparr>ae_back := insert (n, i, req, resp) (ae_back c1)\<rparr>"
  define c3 where "c3 = set_node n stn (set_call n i No_call c2)"
  have "cluster_step five c (Send n i) c1"
    unfolding c1_def by (rule cluster_step.send_ae [OF n peer nd(2) req])
  moreover have "cluster_step five c1 (Handle i) c2"
    unfolding c2_def by (rule cluster_step.handle_ae) (use h in \<open>simp_all add: c1_def\<close>)
  moreover have "cluster_step five c2 (Append_reply n i) c3"
    unfolding c3_def by (rule cluster_step.reply_ae [OF n]) (use a i in \<open>simp_all add: c2_def c1_def\<close>)
  ultimately have run3: "run_through P five c [c1, c2, c3]"
    using p(2-4) unfolding run_through.simps by blast
  have out: "outstanding c3 = outstanding c"
    using f by (auto simp: c3_def c2_def c1_def set_call_def follows_def fun_eq_iff)
  have node3: "node c3 = (node c)(i := sti, n := stn)"
    using i by (auto simp: c3_def c2_def c1_def)
  have "follows c3 sts'" unfolding sts' by (rule follows_put2 [OF f i(1) n node3 out])
  then show ?thesis
    by (intro runs_toI [OF run3 f]) (use i(2) in \<open>auto simp: node3 c2_def c1_def\<close>)
qed

lemma do_timeout_run:
  assumes P: "admits terms P" and r: "reachable P five c" and f: "follows c sts"
    and n: "n \<in> set five" and run: "do_op terms (Op_timeout n) sts = Some sts'"
  shows "runs_to P c sts sts'"
proof -
  let ?st = "fst (check_leader_round 600 demo_tick (node c n))"
  have sts': "sts' = put_server n ?st sts" using run follows_at(1) [OF f n] by simp
  have "run_through P five c [set_node n ?st c]"
    using admits_simps(1) [OF P] cluster_step.timer [OF n] unfolding run_through.simps by blast
  moreover have "follows (set_node n ?st c) sts'"
    unfolding sts' by (rule follows_put [OF f n]) simp_all
  ultimately show ?thesis by (intro runs_toI [OF _ f]) auto
qed

lemma do_client_run:
  assumes P: "admits terms P" and r: "reachable P five c" and f: "follows c sts"
    and n: "n \<in> set five" and run: "do_op terms (Op_client n op path) sts = Some sts'"
  shows "runs_to P c sts sts'"
proof -
  let ?st = "snd (meta_append op path (node c n))"
  have ok: "current_role (node c n) = kLeader" "leader_id (node c n) \<noteq> -1" "current_term (node c n) \<in> set terms"
    and sts': "sts' = put_server n ?st sts"
    using run follows_at(1) [OF f n] by (auto simp: Let_def split: if_splits)
  have "run_through P five c [set_node n ?st c]"
    using admits_simps(6) [OF P ok(1,3)] cluster_step.client [OF n ok(2)] unfolding run_through.simps by blast
  moreover have "follows (set_node n ?st c) sts'"
    unfolding sts' by (rule follows_put [OF f n]) simp_all
  ultimately show ?thesis by (intro runs_toI [OF _ f]) auto
qed

lemma do_op_run:
  assumes "admits terms P" and "reachable P five c" and "follows c sts"
    and "set (op_hosts x) \<subseteq> set five" "distinct (op_hosts x)" and "do_op terms x sts = Some sts'"
  shows "runs_to P c sts sts'"
  using assms do_vote_run do_append_run do_timeout_run do_client_run
  by (cases x) (simp_all del: do_op.simps, metis+)

lemma run_through_append:
  "run_through P ids c (ds @ es) \<longleftrightarrow> run_through P ids c ds \<and> run_through P ids (last (c # ds)) es"
  by (induction ds arbitrary: c) auto

lemma do_trace_run:
  assumes "admits terms P"
  shows "reachable P five c \<Longrightarrow> follows c sts \<Longrightarrow>
    list_all (\<lambda>x. set (op_hosts x) \<subseteq> set five \<and> distinct (op_hosts x)) xs \<Longrightarrow>
    do_trace terms xs sts = Some tr \<Longrightarrow>
    \<exists>ds. run_through P five c ds \<and> follows (last (c # ds)) (last (sts # tr)) \<and>
      (\<forall>d \<in> set ds. \<forall>m \<in> set five. \<exists>s \<in> set (sts # tr). node d m = server_at s m)"
proof (induction xs arbitrary: c sts tr)
  case (Cons x xs)
  then obtain sts1 tr1 where x: "do_op terms x sts = Some sts1" "do_trace terms xs sts1 = Some tr1"
    and tr: "tr = sts1 # tr1"
    by (auto split: option.splits)
  obtain ds where ds: "run_through P five c ds" "follows (last (c # ds)) sts1"
    "\<forall>d \<in> set ds. \<forall>m \<in> set five. node d m = server_at sts m \<or> node d m = server_at sts1 m"
    using do_op_run [OF assms Cons.prems(1,2) _ _ x(1)] Cons.prems(3) by (auto simp: runs_to_def)
  have "reachable P five (last (c # ds))" by (rule run_through_reachable [OF Cons.prems(1) ds(1)])
  from Cons.IH [OF this ds(2) _ x(2)] Cons.prems(3) obtain es where
    es: "run_through P five (last (c # ds)) es" "follows (last (last (c # ds) # es)) (last (sts1 # tr1))"
    "\<forall>d \<in> set es. \<forall>m \<in> set five. \<exists>s \<in> set (sts1 # tr1). node d m = server_at s m" by auto
  have "run_through P five c (ds @ es)" using ds(1) es(1) by (simp only: run_through_append)
  moreover have "last (c # ds @ es) = last (last (c # ds) # es)" by (cases es) simp_all
  then have "follows (last (c # ds @ es)) (last (sts # tr))" using es(2) by (simp add: tr del: last.simps) simp
  moreover have "\<exists>s \<in> set (sts # tr). node d m = server_at s m" if "d \<in> set (ds @ es)" "m \<in> set five" for d m
    using that ds(3) es(3) by (fastforce simp: tr)
  ultimately show ?case by blast
qed (auto intro: exI [of _ "[]"])

lemma do_ops_run:
  assumes "admits terms P" and "reachable P five c" and "follows c sts"
    and "list_all (\<lambda>x. set (op_hosts x) \<subseteq> set five \<and> distinct (op_hosts x)) xs"
    and "do_ops terms xs sts = Some sts'"
  shows "\<exists>c'. reachable P five c' \<and> follows c' sts'"
proof -
  from assms(5) obtain tr where tr: "do_trace terms xs sts = Some tr" "sts' = last (sts # tr)"
    by (auto simp: do_ops_def)
  with do_trace_run [OF assms(1-4) tr(1)] run_through_reachable [OF assms(2)] show ?thesis by blast
qed

lemma run_start_follows: "initial_cluster five run_cluster" "follows run_cluster run_start"
proof -
  have "fresh_server five n (run_server n)" if "n \<in> set five" for n
    unfolding fresh_server_def run_server_def
    by (intro exI conjI, rule refl) (use that in \<open>auto simp: five_def\<close>)
  then show "initial_cluster five run_cluster"
    by (simp add: initial_cluster_def run_cluster_def) (simp add: five_def)
  show "follows run_cluster run_start"
    by (auto simp: follows_def run_cluster_def run_start_def five_def server_at_def)
qed

text \<open>The rule for computed runs.\<close>

lemma computed_run:
  assumes "admits terms P" and "do_ops terms xs run_start = Some sts"
    and "list_all (\<lambda>x. set (op_hosts x) \<subseteq> set five \<and> distinct (op_hosts x)) xs"
  shows "\<exists>c. reachable P five c \<and> (\<forall>n \<in> set five. node c n = server_at sts n)"
  using do_ops_run [OF assms(1) reachable.start [OF run_start_follows(1)] run_start_follows(2) assms(3,2)]
  by (auto simp: follows_def)

end
