(* ===== verification/INode.thy ===== *)
theory INode
  imports Raft_Prelude
begin

text \<open>
  The nodes of the file system, \<open>filesystem/INode.h\<close> and \<open>.cpp\<close>: files and directories that
  live on the heap and point to each other.  The heap maps addresses to nodes, a pointer is
  an address, a null pointer is \<open>None\<close>, and freeing a node removes its address.  Following
  a pointer to a freed node and casting a file to a directory are undefined behaviour.
\<close>

section \<open>Nodes and the heap\<close>

type_synonym addr = nat

text \<open>
  A file has a size, \<open>None\<close> while it is uninitialised.  A directory has the vector of its
  children, which owns them, and the map from names to children.
\<close>

datatype inode_kind = File_node "int option" | Dir_node "addr list" "string \<rightharpoonup> addr"

record inode =
  i_name :: string
  i_owner :: string
  i_create_time :: int
  i_modification_time :: int
  i_access_time :: int
  i_parent :: "addr option"
  i_kind :: inode_kind

record heap =
  cells :: "addr \<rightharpoonup> inode"
  next_addr :: addr

text \<open>
  The constructors.  The two-argument ones set the owner to \<open>"unknown"\<close>, and the one of
  \<open>INodeFile\<close> leaves the size uninitialised.
\<close>

definition new_INode :: "int \<Rightarrow> string \<Rightarrow> string \<Rightarrow> addr option \<Rightarrow> inode_kind \<Rightarrow> inode" where
  "new_INode now name owner parent kind =
     \<lparr>i_name = name, i_owner = owner, i_create_time = now, i_modification_time = now,
      i_access_time = now, i_parent = parent, i_kind = kind\<rparr>"

definition new_INodeFile_owned :: "int \<Rightarrow> string \<Rightarrow> string \<Rightarrow> addr option \<Rightarrow> inode" where
  "new_INodeFile_owned now name owner parent = new_INode now name owner parent (File_node (Some 0))"

definition new_INodeFile :: "int \<Rightarrow> string \<Rightarrow> addr option \<Rightarrow> inode" where
  "new_INodeFile now name parent = new_INode now name ''unknown'' parent (File_node None)"

definition new_INodeDirectory_owned :: "int \<Rightarrow> string \<Rightarrow> string \<Rightarrow> addr option \<Rightarrow> inode" where
  "new_INodeDirectory_owned now name owner parent = new_INode now name owner parent (Dir_node [] Map.empty)"

definition new_INodeDirectory :: "int \<Rightarrow> string \<Rightarrow> addr option \<Rightarrow> inode" where
  "new_INodeDirectory now name parent = new_INode now name ''unknown'' parent (Dir_node [] Map.empty)"

text \<open>Copies keep everything but the parent.\<close>

definition copy_INode :: "inode \<Rightarrow> inode" where
  "copy_INode n = n\<lparr>i_parent := None\<rparr>"

fun IsFile :: "inode \<Rightarrow> bool" where
  "IsFile n = (case i_kind n of File_node _ \<Rightarrow> True | Dir_node _ _ \<Rightarrow> False)"

fun IsDir :: "inode \<Rightarrow> bool" where
  "IsDir n = (case i_kind n of File_node _ \<Rightarrow> False | Dir_node _ _ \<Rightarrow> True)"

definition IsRoot :: "inode \<Rightarrow> bool" where
  "IsRoot n \<longleftrightarrow> IsDir n \<and> i_name n = ''/''"

definition ValidName :: "string \<Rightarrow> bool" where
  "ValidName name \<longleftrightarrow>
     (case name of [] \<Rightarrow> False | c # _ \<Rightarrow> c = CHR ''/'') \<and>
     \<not> list_ex (\<lambda>c. list_ex (\<lambda>d. d = c) name) '',><[]{}|~&^*()''"

definition ChangeName :: "string \<Rightarrow> inode \<Rightarrow> bool \<times> inode" where
  "ChangeName new_name n = (if new_name \<noteq> [] then (True, n\<lparr>i_name := new_name\<rparr>) else (False, n))"

definition new_node :: "inode \<Rightarrow> heap \<Rightarrow> addr \<times> heap" where
  "new_node n h = (next_addr h,
     h\<lparr>cells := (cells h)(next_addr h \<mapsto> n), next_addr := Suc (next_addr h)\<rparr>)"

definition deref :: "addr \<Rightarrow> heap \<Rightarrow> inode outcome" where
  "deref a h = (case cells h a of None \<Rightarrow> Inl Dangling_pointer | Some n \<Rightarrow> Inr n)"

definition set_node_at :: "addr \<Rightarrow> inode \<Rightarrow> heap \<Rightarrow> heap" where
  "set_node_at a n h = h\<lparr>cells := (cells h)(a \<mapsto> n)\<rparr>"

definition free_node :: "addr \<Rightarrow> heap \<Rightarrow> heap" where
  "free_node a h = h\<lparr>cells := (cells h)(a := None)\<rparr>"

text \<open>The members of the directory at an address; a file there is a wrong cast.\<close>

definition dir_at :: "addr \<Rightarrow> heap \<Rightarrow> (addr list \<times> (string \<rightharpoonup> addr)) outcome" where
  "dir_at a h = and_then (deref a h) (\<lambda>n.
     case i_kind n of File_node _ \<Rightarrow> Inl Bad_cast | Dir_node cs m \<Rightarrow> Inr (cs, m))"

definition SetParent :: "addr \<Rightarrow> addr option \<Rightarrow> heap \<Rightarrow> heap outcome" where
  "SetParent a p h = and_then (deref a h) (\<lambda>n. Inr (set_node_at a (n\<lparr>i_parent := p\<rparr>) h))"

definition GetParent :: "addr \<Rightarrow> heap \<Rightarrow> addr option outcome" where
  "GetParent a h = and_then (deref a h) (\<lambda>n. Inr (i_parent n))"


section \<open>Directory operations\<close>

definition DirIsEmpty :: "addr \<Rightarrow> heap \<Rightarrow> bool outcome" where
  "DirIsEmpty d h = and_then (dir_at d h) (\<lambda>(cs, m). Inr (cs = []))"

definition GetChild :: "string \<Rightarrow> addr \<Rightarrow> heap \<Rightarrow> addr option outcome" where
  "GetChild child_name d h = and_then (dir_at d h) (\<lambda>(cs, m). Inr (m child_name))"

definition AddChild :: "addr \<Rightarrow> addr \<Rightarrow> heap \<Rightarrow> heap outcome" where
  "AddChild new_child d h =
     and_then (deref new_child h) (\<lambda>c.
     and_then (if i_parent c \<noteq> Some d then SetParent new_child (Some d) h else Inr h) (\<lambda>h1.
     and_then (deref d h1) (\<lambda>n.
     case i_kind n of
       File_node _ \<Rightarrow> Inl Bad_cast
     | Dir_node cs m \<Rightarrow>
         Inr (set_node_at d (n\<lparr>i_kind := Dir_node (cs @ [new_child]) (m(i_name c \<mapsto> new_child))\<rparr>) h1))))"

definition node_CreateFile :: "int \<Rightarrow> string \<Rightarrow> addr \<Rightarrow> heap \<Rightarrow> (addr option \<times> heap) outcome" where
  "node_CreateFile now file_name d h =
     and_then (GetChild file_name d h) (\<lambda>old.
     if old \<noteq> None then Inr (None, h)
     else let (file, h1) = new_node (new_INodeFile now file_name (Some d)) h
          in and_then (AddChild file d h1) (\<lambda>h2. Inr (Some file, h2)))"

definition node_CreateDir :: "int \<Rightarrow> string \<Rightarrow> addr \<Rightarrow> heap \<Rightarrow> (addr option \<times> heap) outcome" where
  "node_CreateDir now dir_name d h =
     and_then (GetChild dir_name d h) (\<lambda>old.
     if old \<noteq> None then Inr (None, h)
     else let (dir, h1) = new_node (new_INodeDirectory now dir_name (Some d)) h
          in and_then (AddChild dir d h1) (\<lambda>h2. Inr (Some dir, h2)))"

fun each_outcome :: "('a \<Rightarrow> 'b outcome) \<Rightarrow> 'a list \<Rightarrow> 'b list outcome" where
  "each_outcome f [] = Inr []"
| "each_outcome f (x # xs) = and_then (f x) (\<lambda>y. and_then (each_outcome f xs) (\<lambda>ys. Inr (y # ys)))"

definition ListDirName :: "addr \<Rightarrow> heap \<Rightarrow> string list outcome" where
  "ListDirName d h = and_then (dir_at d h) (\<lambda>(cs, m).
     each_outcome (\<lambda>c. and_then (deref c h) (\<lambda>n. Inr (i_name n))) cs)"

definition ListDirINode :: "addr \<Rightarrow> heap \<Rightarrow> addr list outcome" where
  "ListDirINode d h = and_then (dir_at d h) (\<lambda>(cs, m). Inr cs)"

text \<open>
  \<open>DeleteChild\<close> finds the child in the vector by its name, frees the children below it first,
  and erases it from the vector and the map.  A name that is not in the vector makes it
  follow the end iterator.  \<open>DeleteChild\<close> and \<open>DeleteAllChild\<close> call each other; the first
  argument bounds the depth of the calls.
\<close>

fun find_child :: "string \<Rightarrow> addr list \<Rightarrow> heap \<Rightarrow> nat option outcome" where
  "find_child x [] h = Inr None"
| "find_child x (c # cs) h = and_then (deref c h) (\<lambda>n.
     if x = i_name n then Inr (Some 0)
     else and_then (find_child x cs h) (\<lambda>p. Inr (map_option Suc p)))"

definition erase_child :: "string \<Rightarrow> nat \<Rightarrow> addr \<Rightarrow> heap \<Rightarrow> heap outcome" where
  "erase_child child_name p d h = and_then (deref d h) (\<lambda>n.
     case i_kind n of
       File_node _ \<Rightarrow> Inl Bad_cast
     | Dir_node cs m \<Rightarrow>
         Inr (set_node_at d (n\<lparr>i_kind := Dir_node (take p cs @ drop (Suc p) cs) (m(child_name := None))\<rparr>)
           (free_node (cs ! p) h)))"

fun DeleteChild_fuel :: "nat \<Rightarrow> string \<Rightarrow> bool \<Rightarrow> addr \<Rightarrow> heap \<Rightarrow> (bool \<times> heap) outcome"
  and DeleteAllChild_fuel :: "nat \<Rightarrow> addr \<Rightarrow> heap \<Rightarrow> (bool \<times> heap) outcome"
where
  "DeleteChild_fuel 0 child_name recursive d h = Inl Out_of_fuel"
| "DeleteChild_fuel (Suc f) child_name recursive d h =
     and_then (dir_at d h) (\<lambda>(cs, m).
     and_then (find_child child_name cs h) (\<lambda>found.
     case found of
       None \<Rightarrow> Inl Iterator_out_of_range
     | Some p \<Rightarrow>
         and_then (deref (cs ! p) h) (\<lambda>child.
         and_then (if IsDir child then DirIsEmpty (cs ! p) h else Inr True) (\<lambda>empty.
         if empty
         then and_then (erase_child child_name p d h) (\<lambda>h1. Inr (True, h1))
         else if \<not> recursive then Inr (False, h)
         else and_then (DeleteAllChild_fuel f (cs ! p) h) (\<lambda>(ok, h1).
              if ok then and_then (erase_child child_name p d h1) (\<lambda>h2. Inr (True, h2))
              else Inr (False, h1))))))"
| "DeleteAllChild_fuel 0 d h = Inl Out_of_fuel"
| "DeleteAllChild_fuel (Suc f) d h =
     and_then (dir_at d h) (\<lambda>(cs, m).
     if cs = [] then Inr (True, h)
     else and_then (deref (hd cs) h) (\<lambda>front.
          and_then (DeleteChild_fuel f (i_name front) True d h) (\<lambda>(ok, h1).
          if ok then DeleteAllChild_fuel f d h1 else Inr (False, h1))))"

text \<open>
  Child addresses are larger than their parent's and every round frees a node, so a depth of
  three times the number of addresses is enough.
\<close>

definition delete_fuel :: "heap \<Rightarrow> nat" where
  "delete_fuel h = 3 * next_addr h + 3"

definition DeleteChild :: "string \<Rightarrow> bool \<Rightarrow> addr \<Rightarrow> heap \<Rightarrow> (bool \<times> heap) outcome" where
  "DeleteChild child_name recursive d h = DeleteChild_fuel (delete_fuel h) child_name recursive d h"

definition DeleteAllChild :: "addr \<Rightarrow> heap \<Rightarrow> (bool \<times> heap) outcome" where
  "DeleteAllChild d h = DeleteAllChild_fuel (delete_fuel h) d h"


section \<open>File information\<close>

record file_info =
  fi_path :: string
  fi_size :: "int option"
  fi_creator :: string
  fi_create_time :: int

text \<open>
  \<open>ToFileInfo\<close> climbs from the parent to the root and puts the names in front of the path.
  The loop stops at a node that says it is the root, or at a null parent; the first
  argument bounds the climb.  Time points are in nanoseconds, the reply has seconds.
\<close>

fun climb :: "nat \<Rightarrow> addr option \<Rightarrow> string \<Rightarrow> heap \<Rightarrow> string outcome" where
  "climb f None path h = Inr path"
| "climb 0 (Some p) path h = Inl Out_of_fuel"
| "climb (Suc f) (Some p) path h = and_then (deref p h) (\<lambda>n.
     if \<not> IsRoot n then climb f (i_parent n) (i_name n @ ''/'' @ path) h
     else Inr (i_name n @ path))"

definition ToFileInfo :: "addr \<Rightarrow> heap \<Rightarrow> file_info outcome" where
  "ToFileInfo a h = and_then (deref a h) (\<lambda>n.
     case i_kind n of
       Dir_node _ _ \<Rightarrow> Inl Bad_cast
     | File_node sz \<Rightarrow>
         and_then (climb (Suc (next_addr h)) (i_parent n) (i_name n) h) (\<lambda>path.
         Inr \<lparr>fi_path = path, fi_size = sz, fi_creator = i_owner n,
              fi_create_time = i_create_time n div 1000000000\<rparr>))"

end
