(* ===== verification/INode_Tree.thy ===== *)
theory INode_Tree
  imports INode "HOL-Library.Sublist"
begin

text \<open>
  The invariant of the node heap and what the directory operations do to it.  Nodes form a
  tree below the root: every directory's vector and map describe the same children, every
  node but the root is owned by its parent, and addresses grow from parent to child.  A path
  is a list of names and \<open>walk\<close> follows it.
\<close>

section \<open>Children and paths\<close>

definition kids :: "heap \<Rightarrow> addr \<Rightarrow> (addr list \<times> (string \<rightharpoonup> addr)) option" where
  "kids h a = (case cells h a of None \<Rightarrow> None
     | Some n \<Rightarrow> (case i_kind n of File_node _ \<Rightarrow> None | Dir_node cs m \<Rightarrow> Some (cs, m)))"

definition child :: "heap \<Rightarrow> addr \<Rightarrow> string \<Rightarrow> addr option" where
  "child h a x = (case kids h a of None \<Rightarrow> None | Some (cs, m) \<Rightarrow> m x)"

fun walk :: "heap \<Rightarrow> addr \<Rightarrow> string list \<Rightarrow> addr option" where
  "walk h a [] = Some a"
| "walk h a (x # xs) = (case child h a x of None \<Rightarrow> None | Some b \<Rightarrow> walk h b xs)"

lemma walk_append: "walk h a (p @ q) = (case walk h a p of None \<Rightarrow> None | Some b \<Rightarrow> walk h b q)"
  by (induction p arbitrary: a) (auto split: option.splits)

lemma kids_cell:
  "kids h a = Some (cs, m) \<longleftrightarrow> (\<exists>n. cells h a = Some n \<and> i_kind n = Dir_node cs m)"
  by (auto simp: kids_def split: option.splits inode_kind.splits)

lemma dir_at_kids: "kids h a = Some (cs, m) \<Longrightarrow> dir_at a h = Inr (cs, m)"
  by (auto simp: kids_cell dir_at_def deref_def)

lemma child_kids: "kids h a = Some (cs, m) \<Longrightarrow> child h a x = m x"
  by (simp add: child_def)

lemma GetChild_child: "kids h a \<noteq> None \<Longrightarrow> GetChild x a h = Inr (child h a x)"
  by (auto simp: GetChild_def dir_at_kids child_kids)

lemma GetChild_file:
  "cells h a = Some n \<Longrightarrow> kids h a = None \<Longrightarrow> GetChild x a h = Inl Bad_cast"
  by (auto simp: GetChild_def dir_at_def deref_def kids_def split: inode_kind.splits)

lemma IsDir_kids: "cells h a = Some n \<Longrightarrow> IsDir n \<longleftrightarrow> kids h a \<noteq> None"
  by (auto simp: kids_def split: inode_kind.splits)

lemma IsFile_IsDir: "IsFile n \<longleftrightarrow> \<not> IsDir n"
  by (auto split: inode_kind.splits)


section \<open>The invariant\<close>

definition node_ok :: "heap \<Rightarrow> addr \<Rightarrow> inode \<Rightarrow> bool" where
  "node_ok h a n \<longleftrightarrow> a < next_addr h \<and>
     (case i_kind n of
        File_node _ \<Rightarrow> True
      | Dir_node cs m \<Rightarrow> distinct cs \<and>
          (\<forall>c \<in> set cs. a < c \<and> (\<exists>k. cells h c = Some k \<and> i_parent k = Some a \<and> m (i_name k) = Some c)) \<and>
          (\<forall>x c. m x = Some c \<longrightarrow> c \<in> set cs \<and> (\<exists>k. cells h c = Some k \<and> i_name k = x)))"

definition owned_ok :: "heap \<Rightarrow> addr \<Rightarrow> inode \<Rightarrow> bool" where
  "owned_ok h a n \<longleftrightarrow> i_owner n = ''unknown'' \<and> CHR ''/'' \<notin> set (i_name n) \<and>
     (\<exists>p cs m. i_parent n = Some p \<and> kids h p = Some (cs, m) \<and> a \<in> set cs)"

definition tree_ok :: "heap \<Rightarrow> addr \<Rightarrow> bool" where
  "tree_ok h root \<longleftrightarrow>
     (\<forall>a n. cells h a = Some n \<longrightarrow> node_ok h a n \<and> (a \<noteq> root \<longrightarrow> owned_ok h a n)) \<and>
     (\<exists>n. cells h root = Some n \<and> IsRoot n \<and> i_parent n = Some root)"

text \<open>The part of the invariant that is about the entries of a directory.\<close>

definition dir_ok :: "heap \<Rightarrow> addr \<Rightarrow> addr list \<Rightarrow> (string \<rightharpoonup> addr) \<Rightarrow> bool" where
  "dir_ok h a cs m \<longleftrightarrow> distinct cs \<and>
     (\<forall>c \<in> set cs. a < c \<and> (\<exists>k. cells h c = Some k \<and> i_parent k = Some a \<and> m (i_name k) = Some c)) \<and>
     (\<forall>x c. m x = Some c \<longrightarrow> c \<in> set cs \<and> (\<exists>k. cells h c = Some k \<and> i_name k = x))"

lemma dir_okI:
  assumes "distinct cs"
    and "\<And>c. c \<in> set cs \<Longrightarrow> a < c \<and> (\<exists>k. cells h c = Some k \<and> i_parent k = Some a \<and> m (i_name k) = Some c)"
    and "\<And>x c. m x = Some c \<Longrightarrow> c \<in> set cs \<and> (\<exists>k. cells h c = Some k \<and> i_name k = x)"
  shows "dir_ok h a cs m"
  using assms by (simp add: dir_ok_def)

lemma node_ok_dir:
  "cells h a = Some n \<Longrightarrow>
   node_ok h a n \<longleftrightarrow> a < next_addr h \<and> (\<forall>cs m. kids h a = Some (cs, m) \<longrightarrow> dir_ok h a cs m)"
  by (cases "i_kind n") (auto simp: node_ok_def dir_ok_def kids_cell)

lemma tree_okI:
  assumes "\<And>a n. cells h a = Some n \<Longrightarrow> a < next_addr h"
    and "\<And>a cs m. kids h a = Some (cs, m) \<Longrightarrow> dir_ok h a cs m"
    and "\<And>a n. cells h a = Some n \<Longrightarrow> a \<noteq> r \<Longrightarrow> owned_ok h a n"
    and "cells h r = Some n" "IsRoot n" "i_parent n = Some r"
  shows "tree_ok h r"
  using assms by (auto simp: tree_ok_def node_ok_dir)

lemma tree_okD:
  assumes "tree_ok h r" and "cells h a = Some n"
  shows "node_ok h a n" and "a \<noteq> r \<Longrightarrow> owned_ok h a n" and "a < next_addr h"
  using assms by (auto simp: tree_ok_def node_ok_def)

lemma root_dir:
  assumes "tree_ok h r"
  obtains n cs m where "cells h r = Some n" "i_kind n = Dir_node cs m" "i_name n = ''/''"
    "i_parent n = Some r" "kids h r = Some (cs, m)"
proof -
  from assms obtain n where n: "cells h r = Some n" "IsRoot n" "i_parent n = Some r"
    by (auto simp: tree_ok_def)
  then obtain cs m where "i_kind n = Dir_node cs m"
    by (cases "i_kind n") (auto simp: IsRoot_def)
  with n that show thesis by (simp add: IsRoot_def kids_cell)
qed

lemma kids_dir_ok:
  assumes "tree_ok h r" and "kids h a = Some (cs, m)"
  shows "dir_ok h a cs m"
proof -
  obtain n where "cells h a = Some n" using assms(2) by (auto simp: kids_cell)
  with tree_okD(1) [OF assms(1)] assms(2) show ?thesis by (simp add: node_ok_dir)
qed

lemma kids_members:
  assumes "tree_ok h r" and "kids h a = Some (cs, m)"
  shows "distinct cs"
    and "c \<in> set cs \<Longrightarrow> a < c \<and> (\<exists>k. cells h c = Some k \<and> i_parent k = Some a \<and> m (i_name k) = Some c)"
    and "m x = Some c \<Longrightarrow> c \<in> set cs \<and> (\<exists>k. cells h c = Some k \<and> i_name k = x)"
  using kids_dir_ok [OF assms] by (auto simp: dir_ok_def)

text \<open>Who owns a node other than the root: its owner, its name, and the directory that lists it.\<close>

lemma owner_dir:
  assumes "tree_ok h r" and "cells h a = Some n" and "a \<noteq> r"
  obtains p cs m where "i_owner n = ''unknown''" "CHR ''/'' \<notin> set (i_name n)" "i_parent n = Some p"
    "kids h p = Some (cs, m)" "a \<in> set cs" "p < a"
proof -
  from tree_okD(2) [OF assms] obtain p cs m where "i_owner n = ''unknown''" "CHR ''/'' \<notin> set (i_name n)"
    "i_parent n = Some p" "kids h p = Some (cs, m)" "a \<in> set cs" by (auto simp: owned_ok_def)
  with kids_members(2) [OF assms(1) this(4,5)] that show thesis by blast
qed

lemma child_node:
  assumes "tree_ok h r" and "child h a x = Some c"
  obtains k cs m where "cells h c = Some k" "i_name k = x" "i_parent k = Some a" "a < c"
    "kids h a = Some (cs, m)" "c \<in> set cs" "m x = Some c"
proof -
  from assms(2) obtain cs m where kids: "kids h a = Some (cs, m)" "m x = Some c"
    by (auto simp: child_def split: option.splits)
  with kids_members [OF assms(1) kids(1)] that show thesis by fastforce
qed

lemma child_not_root:
  assumes "tree_ok h r" and "child h a x = Some c"
  shows "c \<noteq> r"
proof
  assume "c = r"
  obtain k where "cells h c = Some k" "i_parent k = Some a" "a < c"
    using assms by (rule child_node)
  with \<open>c = r\<close> root_dir [OF assms(1)] show False by (metis less_irrefl option.inject)
qed

lemma walk_cell:
  "tree_ok h r \<Longrightarrow> cells h a \<noteq> None \<Longrightarrow> walk h a p = Some b \<Longrightarrow> a \<le> b \<and> cells h b \<noteq> None"
proof (induction p arbitrary: a)
  case (Cons x p)
  then obtain c where c: "child h a x = Some c" "walk h c p = Some b"
    by (auto split: option.splits)
  from Cons.prems(1) c(1) obtain k where "cells h c = Some k" "a < c"
    by (rule child_node)
  with Cons.IH [of c] Cons.prems(1) c(2) show ?case by simp
qed simp

lemma walk_less:
  assumes "tree_ok h r" and "walk h a p = Some b" and "p \<noteq> []"
  shows "a < b"
proof -
  from assms(3) obtain x q where p: "p = x # q" by (cases p) auto
  with assms(2) obtain c where c: "child h a x = Some c" "walk h c q = Some b"
    by (auto split: option.splits)
  from assms(1) c(1) obtain k where "cells h c = Some k" "a < c" by (rule child_node)
  with walk_cell [OF assms(1), of c q b] c(2) show ?thesis by simp
qed

lemma walk_snoc:
  "walk h a (p @ [x]) = Some b \<longleftrightarrow> (\<exists>c. walk h a p = Some c \<and> child h c x = Some b)"
  by (auto simp: walk_append split: option.splits)

text \<open>A node is reached by one path only.\<close>

lemma walk_inj:
  assumes "tree_ok h r" and "walk h a p = Some b" and "walk h a q = Some b"
  shows "p = q"
  using assms(2,3)
proof (induction p arbitrary: b q rule: rev_induct)
  case Nil
  with walk_less [OF assms(1), of a q b] show ?case by auto
next
  case (snoc x p)
  then obtain c where c: "walk h a p = Some c" "child h c x = Some b"
    unfolding walk_snoc by blast
  have "q \<noteq> []"
    using walk_less [OF assms(1) snoc.prems(1)] snoc.prems(2) by auto
  then obtain q' y where q: "q = q' @ [y]" by (metis rev_exhaust)
  with snoc.prems(2) have "walk h a (q' @ [y]) = Some b" by simp
  then obtain d where d: "walk h a q' = Some d" "child h d y = Some b"
    unfolding walk_snoc by blast
  obtain k where k: "cells h b = Some k" "i_name k = x" "i_parent k = Some c"
    using assms(1) c(2) by (rule child_node)
  obtain k' where "cells h b = Some k'" "i_name k' = y" "i_parent k' = Some d"
    using assms(1) d(2) by (rule child_node)
  with k c d q snoc.IH [of c q'] show ?case by simp
qed



section \<open>Adding a child\<close>

text \<open>The heap after a new node \<open>n\<close> has become the last child of the directory \<open>d\<close>.\<close>

definition insert_child :: "addr \<Rightarrow> inode \<Rightarrow> heap \<Rightarrow> heap" where
  "insert_child d n h = h\<lparr>cells := (\<lambda>a.
     if a = d then map_option (\<lambda>dn. case i_kind dn of
         File_node _ \<Rightarrow> dn
       | Dir_node cs m \<Rightarrow> dn\<lparr>i_kind := Dir_node (cs @ [next_addr h]) (m(i_name n \<mapsto> next_addr h))\<rparr>) (cells h d)
     else if a = next_addr h then Some n else cells h a), next_addr := Suc (next_addr h)\<rparr>"

lemma fresh_cell: "tree_ok h r \<Longrightarrow> next_addr h \<le> a \<Longrightarrow> cells h a = None"
  using tree_okD(3) [of h r a] by (cases "cells h a") auto

lemma AddChild_insert:
  assumes "kids h d = Some (cs, m)" and "d \<noteq> next_addr h" and "i_parent n = Some d"
  shows "AddChild (next_addr h) d (snd (new_node n h)) = Inr (insert_child d n h)"
proof -
  obtain dn where "cells h d = Some dn" "i_kind dn = Dir_node cs m"
    using assms(1) by (auto simp: kids_cell)
  with assms(2,3) show ?thesis
    by (auto simp: AddChild_def new_node_def deref_def set_node_at_def insert_child_def fun_eq_iff)
qed

lemma dir_not_fresh: "tree_ok h r \<Longrightarrow> kids h d = Some (cs, m) \<Longrightarrow> d < next_addr h"
  by (auto simp: kids_cell dest: tree_okD(3))

lemma node_CreateDir_new:
  assumes "tree_ok h r" and "kids h d = Some (cs, m)" and "m x = None"
  shows "node_CreateDir now x d h =
    Inr (Some (next_addr h), insert_child d (new_INodeDirectory now x (Some d)) h)"
proof -
  have "d \<noteq> next_addr h" using dir_not_fresh [OF assms(1,2)] by simp
  with assms AddChild_insert [OF assms(2), of "new_INodeDirectory now x (Some d)"] show ?thesis
    by (simp add: node_CreateDir_def GetChild_child child_kids new_node_def new_INodeDirectory_def
        new_INode_def Let_def)
qed

lemma node_CreateFile_new:
  assumes "tree_ok h r" and "kids h d = Some (cs, m)" and "m x = None"
  shows "node_CreateFile now x d h =
    Inr (Some (next_addr h), insert_child d (new_INodeFile now x (Some d)) h)"
proof -
  have "d \<noteq> next_addr h" using dir_not_fresh [OF assms(1,2)] by simp
  with assms AddChild_insert [OF assms(2), of "new_INodeFile now x (Some d)"] show ?thesis
    by (simp add: node_CreateFile_def GetChild_child child_kids new_node_def new_INodeFile_def
        new_INode_def Let_def)
qed

lemma node_Create_exists:
  assumes "kids h d \<noteq> None" and "child h d x = Some c"
  shows "node_CreateFile now x d h = Inr (None, h)" and "node_CreateDir now x d h = Inr (None, h)"
  using assms by (simp_all add: node_CreateFile_def node_CreateDir_def GetChild_child)

text \<open>A node that has no children yet.\<close>

definition leaf_node :: "addr \<Rightarrow> inode \<Rightarrow> bool" where
  "leaf_node d n \<longleftrightarrow> i_parent n = Some d \<and> i_owner n = ''unknown'' \<and> CHR ''/'' \<notin> set (i_name n) \<and>
     (i_kind n = File_node None \<or> i_kind n = Dir_node [] Map.empty)"

lemma leaf_new_nodes:
  "CHR ''/'' \<notin> set x \<Longrightarrow> leaf_node d (new_INodeFile now x (Some d))"
  "CHR ''/'' \<notin> set x \<Longrightarrow> leaf_node d (new_INodeDirectory now x (Some d))"
  by (simp_all add: leaf_node_def new_INodeFile_def new_INodeDirectory_def new_INode_def)

lemma insert_child_kids:
  assumes "kids h d = Some (cs, m)" and "d < next_addr h"
  shows "kids (insert_child d n h) a =
    (if a = d then Some (cs @ [next_addr h], m(i_name n \<mapsto> next_addr h))
     else if a = next_addr h then (case i_kind n of File_node _ \<Rightarrow> None | Dir_node cs m \<Rightarrow> Some (cs, m))
     else kids h a)"
proof -
  obtain dn where "cells h d = Some dn" "i_kind dn = Dir_node cs m"
    using assms(1) by (auto simp: kids_cell)
  with assms(2) show ?thesis by (auto simp: kids_def insert_child_def)
qed

lemma insert_child_child:
  assumes "kids h d = Some (cs, m)" and "d < next_addr h" and "leaf_node d n"
    and "kids h (next_addr h) = None"
  shows "child (insert_child d n h) a x =
    (if a = d \<and> x = i_name n then Some (next_addr h) else child h a x)"
  using assms insert_child_kids [OF assms(1,2), of n]
  by (auto simp: child_def leaf_node_def split: inode_kind.splits)

text \<open>Looking up a path after the insertion: exactly one path is new.\<close>

lemma walk_to_last:
  "(\<exists>q. x # p = q @ [y] \<and> walk h a q = Some d) \<longleftrightarrow>
     p = [] \<and> x = y \<and> a = d \<or> (\<exists>q b. p = q @ [y] \<and> child h a x = Some b \<and> walk h b q = Some d)"
  by (auto simp: Cons_eq_append_conv split: option.splits)

lemma insert_child_walk:
  assumes t: "tree_ok h r" and k: "kids h d = Some (cs, m)" and leaf: "leaf_node d n"
    and new: "m (i_name n) = None" and "cells h a \<noteq> None"
  shows "walk (insert_child d n h) a p =
    (if \<exists>q. p = q @ [i_name n] \<and> walk h a q = Some d then Some (next_addr h) else walk h a p)"
  using assms(5)
proof (induction p arbitrary: a)
  case (Cons x p)
  have d: "d < next_addr h" by (rule dir_not_fresh [OF t k])
  have fresh: "kids h (next_addr h) = None"
    using fresh_cell [OF t, of "next_addr h"] by (simp add: kids_def)
  note ch = insert_child_child [OF k d leaf fresh]
  show ?case
  proof (cases "a = d \<and> x = i_name n")
    case True
    have "child h (next_addr h) y = None" for y using fresh by (simp add: child_def)
    then have "walk (insert_child d n h) (next_addr h) p = (if p = [] then Some (next_addr h) else None)"
      using d by (cases p) (simp_all add: ch)
    moreover have "child h a x = None" using True k new by (simp add: child_kids)
    ultimately show ?thesis using True unfolding walk_to_last by (simp add: ch)
  next
    case False
    show ?thesis
    proof (cases "child h a x")
      case (Some b)
      with t have "cells h b \<noteq> None" by (auto elim: child_node)
      with Some False Cons.IH [of b] show ?thesis unfolding walk_to_last by (auto simp: ch)
    qed (use False in \<open>simp only: walk_to_last; auto simp: ch\<close>)
  qed
qed simp


lemma insert_child_cells:
  assumes "cells h b = Some k" and "b < next_addr h"
  shows "\<exists>k'. cells (insert_child d n h) b = Some k' \<and> i_name k' = i_name k \<and>
    i_parent k' = i_parent k \<and> i_owner k' = i_owner k"
  using assms by (cases "i_kind k") (auto simp: insert_child_def)

lemma insert_child_next: "next_addr (insert_child d n h) = Suc (next_addr h)"
  by (simp add: insert_child_def)

lemma insert_child_keeps:
  assumes t: "tree_ok h r" and c: "cells h b = Some k"
  shows "\<exists>k'. cells (insert_child d n h) b = Some k' \<and> i_name k' = i_name k \<and>
    i_parent k' = i_parent k \<and> i_owner k' = i_owner k"
  using insert_child_cells [OF c] tree_okD(3) [OF t c] by blast

text \<open>The entries of the directories: \<open>d\<close> has one more, the new node has none, the others keep theirs.\<close>

lemma insert_child_dir_ok:
  assumes t: "tree_ok h r" and k: "kids h d = Some (cs, m)" and leaf: "leaf_node d n"
    and new: "m (i_name n) = None" and a: "kids (insert_child d n h) a = Some (cs', m')"
  shows "dir_ok (insert_child d n h) a cs' m'"
proof -
  let ?h = "insert_child d n h" and ?c = "next_addr h"
  have d: "d < ?c" by (rule dir_not_fresh [OF t k])
  have cell_c: "cells ?h ?c = Some n" using d by (simp add: insert_child_def)
  have members: "a < b \<and> (\<exists>k. cells ?h b = Some k \<and> i_parent k = Some a \<and> m0 (i_name k) = Some b)"
    if "kids h a = Some (cs0, m0)" "b \<in> set cs0" for a b cs0 m0
    using kids_members(2) [OF t that] insert_child_keeps [OF t, of b _ d n] by metis
  have names: "b \<in> set cs0 \<and> (\<exists>k. cells ?h b = Some k \<and> i_name k = x)"
    if "kids h a = Some (cs0, m0)" "m0 x = Some b" for a b cs0 m0 x
    using kids_members(3) [OF t that] insert_child_keeps [OF t, of b _ d n] by metis
  consider "a = d" "cs' = cs @ [?c]" "m' = m(i_name n \<mapsto> ?c)" | "cs' = []" "m' = Map.empty" | "kids h a = Some (cs', m')"
    using a leaf unfolding insert_child_kids [OF k d] leaf_node_def
    by (cases "a = d"; cases "a = ?c"; force)
  then show ?thesis
  proof cases
    case 1
    have "?c \<notin> set cs" using kids_members(2) [OF t k, of ?c] fresh_cell [OF t, of ?c] by auto
    show ?thesis
    proof (rule dir_okI)
      show "distinct cs'" using \<open>?c \<notin> set cs\<close> kids_members(1) [OF t k] 1 by simp
      show "a < b \<and> (\<exists>k. cells ?h b = Some k \<and> i_parent k = Some a \<and> m' (i_name k) = Some b)" if b: "b \<in> set cs'" for b
      proof (cases "b = ?c")
        case True
        with 1 d cell_c leaf show ?thesis by (simp add: leaf_node_def)
      next
        case False
        then obtain k' where k': "d < b" "cells ?h b = Some k'" "i_parent k' = Some d" "m (i_name k') = Some b"
          using b 1 members [OF k, of b] by auto
        with new have "i_name k' \<noteq> i_name n" by auto
        with k' 1 show ?thesis by simp
      qed
      show "b \<in> set cs' \<and> (\<exists>k. cells ?h b = Some k \<and> i_name k = x)" if "m' x = Some b" for x b
        using that 1 names [OF k, of x b] cell_c by (auto split: if_splits)
    qed
  next
    case 3
    with members names kids_members(1) [OF t 3] show ?thesis by (simp add: dir_ok_def)
  qed (simp add: dir_ok_def)
qed

lemma insert_child_owned:
  assumes t: "tree_ok h r" and k: "kids h d = Some (cs, m)" and leaf: "leaf_node d n"
    and a: "cells (insert_child d n h) a = Some na" "a \<noteq> r"
  shows "owned_ok (insert_child d n h) a na"
proof -
  let ?h = "insert_child d n h" and ?c = "next_addr h"
  have d: "d < ?c" by (rule dir_not_fresh [OF t k])
  note kids' = insert_child_kids [OF k d, of n]
  show ?thesis
  proof (cases "a = ?c")
    case True
    with a d have "na = n" by (simp add: insert_child_def)
    with True leaf kids' show ?thesis by (auto simp: owned_ok_def leaf_node_def)
  next
    case False
    then obtain n0 where n0: "cells h a = Some n0"
      using a(1) by (auto simp: insert_child_def split: if_splits)
    with insert_child_keeps [OF t n0, of d n] a(1) have same: "i_name na = i_name n0"
      "i_parent na = i_parent n0" "i_owner na = i_owner n0" by auto
    obtain p cs' m' where p: "i_owner n0 = ''unknown''" "CHR ''/'' \<notin> set (i_name n0)" "i_parent n0 = Some p"
      "kids h p = Some (cs', m')" "a \<in> set cs'" by (rule owner_dir [OF t n0 a(2)])
    have "p < ?c" by (rule dir_not_fresh [OF t p(4)])
    with p same kids' [of p] k show ?thesis by (auto simp: owned_ok_def)
  qed
qed

lemma insert_child_tree_ok:
  assumes t: "tree_ok h r" and k: "kids h d = Some (cs, m)" and leaf: "leaf_node d n"
    and new: "m (i_name n) = None"
  shows "tree_ok (insert_child d n h) r"
proof -
  let ?h = "insert_child d n h"
  have d: "d < next_addr h" by (rule dir_not_fresh [OF t k])
  obtain rn cs' m' where rn: "cells h r = Some rn" "i_kind rn = Dir_node cs' m'" "i_name rn = ''/''"
    "i_parent rn = Some r" "kids h r = Some (cs', m')"
    by (rule root_dir [OF t])
  obtain rn' where rn': "cells ?h r = Some rn'" "i_name rn' = i_name rn" "i_parent rn' = i_parent rn"
    using insert_child_keeps [OF t rn(1)] by blast
  have "kids ?h r \<noteq> None"
    using insert_child_kids [OF k d, of n r] rn(5) dir_not_fresh [OF t rn(5)] by auto
  with rn rn' have root: "IsRoot rn'" "i_parent rn' = Some r"
    using IsDir_kids [OF rn'(1)] by (simp_all add: IsRoot_def)
  show ?thesis
  proof (rule tree_okI [OF _ _ _ rn'(1) root])
    show "a < next_addr ?h" if "cells ?h a = Some na" for a na
      using that tree_okD(3) [OF t, of a] by (auto simp: insert_child_def less_SucI split: if_splits)
  qed (use insert_child_dir_ok [OF t k leaf new] insert_child_owned [OF t k leaf] in auto)
qed



section \<open>Removing children\<close>

definition subtree :: "heap \<Rightarrow> addr \<Rightarrow> addr set" where
  "subtree h c = {a. \<exists>p. walk h c p = Some a}"

definition below :: "heap \<Rightarrow> addr set \<Rightarrow> addr set" where
  "below h X = (\<Union>c \<in> X. subtree h c)"

text \<open>The heap after the children in \<open>X\<close> have left the directory \<open>d\<close>, with all that is below them.\<close>

definition cut :: "heap \<Rightarrow> addr \<Rightarrow> addr set \<Rightarrow> heap" where
  "cut h d X = h\<lparr>cells := (\<lambda>a.
     if a \<in> below h X then None
     else if a = d then map_option (\<lambda>n. case i_kind n of
         File_node _ \<Rightarrow> n
       | Dir_node cs m \<Rightarrow> n\<lparr>i_kind := Dir_node (filter (\<lambda>c. c \<notin> X) cs)
           (\<lambda>x. if m x \<in> Some ` X then None else m x)\<rparr>) (cells h d)
     else cells h a)\<rparr>"

lemma subtree_self [simp]: "c \<in> subtree h c"
  unfolding subtree_def by (auto intro: exI [of _ "[]"])

lemma below_self: "c \<in> X \<Longrightarrow> c \<in> below h X"
  unfolding below_def using subtree_self by blast

lemma below_insert: "below h (insert c X) = subtree h c \<union> below h X"
  by (simp add: below_def)

lemma below_walk: "b \<in> below h X \<Longrightarrow> walk h b p = Some e \<Longrightarrow> e \<in> below h X"
proof -
  assume "b \<in> below h X" and e: "walk h b p = Some e"
  then obtain c q where c: "c \<in> X" "walk h c q = Some b" by (auto simp: below_def subtree_def)
  with e have "walk h c (q @ p) = Some e" by (simp add: walk_append)
  with c(1) show ?thesis by (auto simp: below_def subtree_def)
qed

lemma below_child: "b \<in> below h X \<Longrightarrow> child h b x = Some e \<Longrightarrow> e \<in> below h X"
  using below_walk [of b h X "[x]" e] by simp

text \<open>A node below \<open>X\<close> is in \<open>X\<close> or its parent is below \<open>X\<close>.\<close>

lemma below_cases:
  assumes t: "tree_ok h r" and e: "e \<in> below h X" and ch: "child h a x = Some e"
  shows "e \<in> X \<or> a \<in> below h X"
proof -
  from e obtain c p where c: "c \<in> X" "walk h c p = Some e"
    by (auto simp: below_def subtree_def)
  show ?thesis
  proof (cases p rule: rev_exhaust)
    case Nil
    with c show ?thesis by simp
  next
    case (snoc q y)
    with c(2) have "walk h c (q @ [y]) = Some e" by simp
    then obtain b where b: "walk h c q = Some b" "child h b y = Some e"
      unfolding walk_snoc by blast
    obtain k where "cells h e = Some k" "i_parent k = Some b"
      using t b(2) by (rule child_node)
    moreover obtain k' where "cells h e = Some k'" "i_parent k' = Some a"
      using t ch by (rule child_node)
    ultimately have "a = b" by simp
    with b(1) c(1) have "a \<in> below h X" by (auto simp: below_def subtree_def)
    then show ?thesis by simp
  qed
qed

lemma below_greater:
  assumes t: "tree_ok h r" and "kids h d = Some (cs, m)" and "X \<subseteq> set cs" and "a \<in> below h X"
  shows "d < a"
proof -
  from assms(4) obtain c p where c: "c \<in> X" "walk h c p = Some a"
    by (auto simp: below_def subtree_def)
  then have "d < c" "cells h c \<noteq> None"
    using kids_members(2) [OF t assms(2), of c] assms(3) by auto
  with walk_cell [OF t _ c(2)] show ?thesis by simp
qed

lemma cut_kids:
  assumes "tree_ok h r" and "kids h d = Some (cs, m)" and "X \<subseteq> set cs"
  shows "kids (cut h d X) a =
    (if a \<in> below h X then None
     else if a = d then Some (filter (\<lambda>c. c \<notin> X) cs, \<lambda>x. if m x \<in> Some ` X then None else m x)
     else kids h a)"
  using assms(2) by (auto simp: kids_def cut_def split: option.splits inode_kind.splits)

lemma cut_child:
  assumes "tree_ok h r" and "kids h d = Some (cs, m)" and "X \<subseteq> set cs" and "a \<notin> below h X"
  shows "child (cut h d X) a x = (if child h a x \<in> Some ` below h X then None else child h a x)"
proof (cases "a = d")
  case True
  have "m x \<in> Some ` X \<longleftrightarrow> m x \<in> Some ` below h X"
  proof
    assume "m x \<in> Some ` below h X"
    then obtain e where e: "m x = Some e" "e \<in> below h X" by auto
    with True assms(2) have "child h a x = Some e" by (simp add: child_kids)
    from below_cases [OF assms(1) e(2) this] assms(4) e(1) show "m x \<in> Some ` X" by auto
  qed (auto intro: below_self)
  with True assms cut_kids [OF assms(1-3), of a] show ?thesis by (simp add: child_def)
next
  case False
  have "child h a x \<notin> Some ` below h X"
  proof
    assume "child h a x \<in> Some ` below h X"
    then obtain e where e: "child h a x = Some e" "e \<in> below h X" by auto
    with below_cases [OF assms(1) e(2,1)] assms(4) have "e \<in> X" by simp
    then have "e \<in> set cs" using assms(3) by auto
    with kids_members(2) [OF assms(1,2)] obtain k where "cells h e = Some k" "i_parent k = Some d"
      by blast
    moreover obtain k' where "cells h e = Some k'" "i_parent k' = Some a"
      using assms(1) e(1) by (rule child_node)
    ultimately show False using False by simp
  qed
  with False assms cut_kids [OF assms(1-3), of a] show ?thesis by (simp add: child_def)
qed

text \<open>Looking up a path after the removal: the paths below \<open>X\<close> are gone, the others stay.\<close>

lemma cut_walk:
  assumes "tree_ok h r" and "kids h d = Some (cs, m)" and "X \<subseteq> set cs" and "a \<notin> below h X"
  shows "walk (cut h d X) a p = (if walk h a p \<in> Some ` below h X then None else walk h a p)"
  using assms(4)
proof (induction p arbitrary: a)
  case (Cons x p)
  note ch = cut_child [OF assms(1-3) Cons.prems]
  show ?case
  proof (cases "child h a x")
    case (Some b)
    show ?thesis
    proof (cases "b \<in> below h X")
      case True
      with below_walk [OF True, of p] Some show ?thesis
        by (cases "walk h b p") (auto simp: ch)
    next
      case False
      with Some Cons.IH [OF False] show ?thesis by (auto simp: ch)
    qed
  qed (simp add: ch)
qed auto


lemma cut_next: "next_addr (cut h d X) = next_addr h"
  by (simp add: cut_def)

lemma cut_cell:
  assumes "cells h b = Some k" and "b \<notin> below h X"
  shows "\<exists>k'. cells (cut h d X) b = Some k' \<and> i_name k' = i_name k \<and>
    i_parent k' = i_parent k \<and> i_owner k' = i_owner k \<and> IsDir k' = IsDir k"
  using assms by (cases "i_kind k") (auto simp: cut_def)

lemma cut_cell_old:
  assumes "cells (cut h d X) b = Some k'"
  shows "b \<notin> below h X \<and> (\<exists>k. cells h b = Some k \<and> i_name k' = i_name k \<and>
    i_parent k' = i_parent k \<and> i_owner k' = i_owner k)"
  using assms by (cases "i_kind (the (cells h b))") (auto simp: cut_def split: if_splits)

lemma member_child:
  assumes "tree_ok h r" and "kids h a = Some (cs, m)" and "c \<in> set cs"
  shows "\<exists>x. child h a x = Some c"
  using kids_members(2) [OF assms] assms(2) by (auto simp: child_kids)

text \<open>A child that stays is not below the ones that leave, and neither is its directory.\<close>

lemma cut_stays:
  assumes t: "tree_ok h r" and "kids h a = Some (cs', m')" "b \<in> set cs'"
  shows "a \<notin> below h X \<Longrightarrow> b \<notin> X \<Longrightarrow> b \<notin> below h X" and "b \<notin> below h X \<Longrightarrow> a \<notin> below h X"
  using member_child [OF assms] below_cases [OF t, of b X a] below_child [of a h X] by blast+

lemma cut_dir_ok:
  assumes t: "tree_ok h r" and k: "kids h d = Some (cs, m)" and X: "X \<subseteq> set cs"
    and a: "kids (cut h d X) a = Some (cs', m')"
  shows "dir_ok (cut h d X) a cs' m'"
proof -
  let ?h = "cut h d X" and ?B = "below h X"
  have aB: "a \<notin> ?B" and cases: "a = d \<and> cs' = filter (\<lambda>c. c \<notin> X) cs \<and> m' = (\<lambda>x. if m x \<in> Some ` X then None else m x)
      \<or> a \<noteq> d \<and> kids h a = Some (cs', m')"
    using a by (auto simp: cut_kids [OF t k X] split: if_splits)
  then obtain cs0 m0 where old: "kids h a = Some (cs0, m0)" and sub: "set cs' = set cs0 - X" "distinct cs0 \<longrightarrow> distinct cs'"
    "\<And>x b. m' x = Some b \<longleftrightarrow> m0 x = Some b \<and> b \<notin> X"
  proof (elim disjE conjE)
    assume "a \<noteq> d" and old: "kids h a = Some (cs', m')"
    have out: "b \<notin> X" if "b \<in> set cs'" for b
      using X kids_members(2) [OF t k, of b] kids_members(2) [OF t old that] \<open>a \<noteq> d\<close> by auto
    with kids_members(3) [OF t old] old show thesis by (intro that [of cs' m']) auto
  qed (rule that [of cs m]; use k in \<open>auto split: if_splits\<close>)
  have stays: "b \<notin> ?B" if "b \<in> set cs'" for b using cut_stays(1) [OF t old, of b X] that aB sub(1) by blast
  have keep: "\<exists>k'. cells ?h b = Some k' \<and> i_name k' = i_name k \<and> i_parent k' = i_parent k"
    if "cells h b = Some k" "b \<in> set cs'" for b k
    using cut_cell [OF that(1) stays [OF that(2)], of d] by blast
  show ?thesis
  proof (rule dir_okI)
    show "distinct cs'" using sub(2) kids_members(1) [OF t old] by simp
    show "a < b \<and> (\<exists>k. cells ?h b = Some k \<and> i_parent k = Some a \<and> m' (i_name k) = Some b)" if b: "b \<in> set cs'" for b
    proof -
      obtain k0 where "a < b" "cells h b = Some k0" "i_parent k0 = Some a" "m0 (i_name k0) = Some b"
        using kids_members(2) [OF t old, of b] b sub(1) by blast
      with keep [OF _ b, of k0] sub(3) sub(1) b show ?thesis by auto
    qed
    show "b \<in> set cs' \<and> (\<exists>k. cells ?h b = Some k \<and> i_name k = x)" if "m' x = Some b" for x b
    proof -
      have b: "m0 x = Some b" "b \<notin> X" using that sub(3) by auto
      then obtain k0 where k0: "b \<in> set cs0" "cells h b = Some k0" "i_name k0 = x" using kids_members(3) [OF t old] by blast
      with b sub(1) have "b \<in> set cs'" by simp
      with keep [OF k0(2) this] k0(3) show ?thesis by auto
    qed
  qed
qed

lemma cut_owned:
  assumes t: "tree_ok h r" and k: "kids h d = Some (cs, m)" and X: "X \<subseteq> set cs"
    and a: "cells (cut h d X) a = Some n" "a \<noteq> r"
  shows "owned_ok (cut h d X) a n"
proof -
  obtain n0 where n0: "cells h a = Some n0" and same: "i_name n = i_name n0" "i_parent n = i_parent n0"
    "i_owner n = i_owner n0" and aB: "a \<notin> below h X"
    using cut_cell_old [OF a(1)] by blast
  obtain p cs' m' where p: "i_owner n0 = ''unknown''" "CHR ''/'' \<notin> set (i_name n0)" "i_parent n0 = Some p"
    "kids h p = Some (cs', m')" "a \<in> set cs'" by (rule owner_dir [OF t n0 a(2)])
  have "p \<notin> below h X" by (rule cut_stays(2) [OF t p(4,5) aB])
  moreover have "a \<notin> X" using aB below_self by blast
  ultimately show ?thesis using p same cut_kids [OF t k X, of p] k by (auto simp: owned_ok_def)
qed

lemma root_not_below:
  assumes t: "tree_ok h r" and k: "kids h d = Some (cs, m)" and X: "X \<subseteq> set cs"
  shows "r \<notin> below h X"
proof
  assume "r \<in> below h X"
  then obtain c q where c: "c \<in> X" "walk h c q = Some r" by (auto simp: below_def subtree_def)
  show False
  proof (cases q rule: rev_exhaust)
    case Nil
    with c X member_child [OF t k, of c] child_not_root [OF t] show False by auto
  next
    case (snoc q' y)
    with c(2) have "walk h c (q' @ [y]) = Some r" by simp
    then show False unfolding walk_snoc using child_not_root [OF t] by blast
  qed
qed

lemma cut_tree_ok:
  assumes t: "tree_ok h r" and k: "kids h d = Some (cs, m)" and X: "X \<subseteq> set cs"
  shows "tree_ok (cut h d X) r"
proof -
  obtain rn where rn: "cells h r = Some rn" "IsRoot rn" "i_parent rn = Some r"
    using t by (auto simp: tree_ok_def)
  obtain rn' where rn': "cells (cut h d X) r = Some rn'" "i_name rn' = i_name rn"
    "i_parent rn' = i_parent rn" "IsDir rn' = IsDir rn"
    using cut_cell [OF rn(1) root_not_below [OF t k X]] by blast
  then have root: "IsRoot rn'" "i_parent rn' = Some r" using rn by (auto simp: IsRoot_def)
  show ?thesis
  proof (rule tree_okI [OF _ _ _ rn'(1) root])
    show "a < next_addr (cut h d X)" if "cells (cut h d X) a = Some n" for a n
      using cut_cell_old [OF that] tree_okD(3) [OF t, of a] by (auto simp: cut_next)
  qed (use cut_dir_ok [OF t k X] cut_owned [OF t k X] in auto)
qed


lemma subtree_cut:
  assumes "tree_ok h r" and "kids h d = Some (cs, m)" and "X \<subseteq> set cs" and "b \<notin> below h X"
  shows "subtree (cut h d X) b = subtree h b - below h X"
proof -
  have "walk (cut h d X) b p = Some a \<longleftrightarrow> walk h b p = Some a \<and> a \<notin> below h X" for p a
    by (auto simp: cut_walk [OF assms] split: if_splits)
  then show ?thesis by (auto simp: subtree_def)
qed

lemma siblings_apart:
  assumes t: "tree_ok h r" and k: "kids h d = Some (cs, m)" and "X \<subseteq> set cs"
    and "b \<in> set cs" and "b \<notin> X"
  shows "b \<notin> below h X"
proof
  assume "b \<in> below h X"
  moreover obtain x where "child h d x = Some b" using member_child [OF t k assms(4)] by blast
  ultimately have "d \<in> below h X" using below_cases [OF t, of b X d x] assms(5) by simp
  with below_greater [OF t k assms(3)] show False by blast
qed

text \<open>Children may leave one after the other.\<close>

lemma cut_cut:
  assumes t: "tree_ok h r" and k: "kids h d = Some (cs, m)" and c: "c \<in> set cs" "c \<notin> X"
    and X: "X \<subseteq> set cs"
  shows "cut (cut h d {c}) d X = cut h d (insert c X)"
proof -
  let ?h = "cut h d {c}"
  have one: "{c} \<subseteq> set cs" using c by simp
  have d: "d \<notin> below h {c}" using below_greater [OF t k one] by blast
  have "below ?h X \<union> below h {c} = below h (insert c X)"
  proof -
    have "subtree ?h b = subtree h b - below h {c}" if "b \<in> X" for b
      using that X c siblings_apart [OF t k one, of b] by (intro subtree_cut [OF t k one]) auto
    then show ?thesis by (auto simp: below_def)
  qed
  then have B: "b \<in> below h (insert c X) \<longleftrightarrow> b \<in> below ?h X \<or> b \<in> below h {c}" for b by blast
  obtain n where n: "cells h d = Some n" "i_kind n = Dir_node cs m"
    using k by (auto simp: kids_cell)
  have "cells (cut ?h d X) a = cells (cut h d (insert c X)) a" for a
  proof (cases "a = d")
    case True
    have "(\<lambda>x. if (if m x = Some c then None else m x) \<in> Some ` X then None
        else if m x = Some c then None else m x) =
        (\<lambda>x. if m x = Some c \<or> m x \<in> Some ` X then None else m x)"
      by auto
    moreover have "filter (\<lambda>b. b \<notin> X) (filter (\<lambda>b. b \<notin> {c}) cs) = filter (\<lambda>b. b \<notin> insert c X) cs"
      by (induction cs) auto
    moreover have "cells ?h d = Some (n\<lparr>i_kind := Dir_node (filter (\<lambda>b. b \<notin> {c}) cs)
        (\<lambda>x. if m x \<in> Some ` {c} then None else m x)\<rparr>)"
      using n d by (simp add: cut_def)
    ultimately show ?thesis using True n d B [of d] by (simp add: cut_def [of ?h] cut_def [of h d "insert c X"])
  next
    case False
    then show ?thesis using B [of a] by (auto simp: cut_def)
  qed
  then have "cells (cut ?h d X) = cells (cut h d (insert c X))" by (simp add: fun_eq_iff)
  then show ?thesis by (intro heap.equality) (simp_all add: cut_next)
qed

lemma cut_none:
  assumes "kids h d = Some ([], m)" and "tree_ok h r"
  shows "cut h d {} = h"
proof -
  obtain n where "cells h d = Some n" "i_kind n = Dir_node [] m"
    using assms(1) by (auto simp: kids_cell)
  then have "cells (cut h d {}) = cells h"
    by (auto simp: cut_def below_def fun_eq_iff)
  then show ?thesis by (intro heap.equality) (simp_all add: cut_next)
qed


section \<open>What the delete operations do\<close>

lemma find_child_in:
  assumes "\<And>c. c \<in> set cs \<Longrightarrow> \<exists>k. cells h c = Some k"
    and "c \<in> set cs" and "cells h c = Some k" and "i_name k = x"
    and "\<And>b kb. b \<in> set cs \<Longrightarrow> cells h b = Some kb \<Longrightarrow> i_name kb = x \<Longrightarrow> b = c"
  shows "\<exists>p. find_child x cs h = Inr (Some p) \<and> p < length cs \<and> cs ! p = c"
  using assms
proof (induction cs)
  case (Cons b cs)
  obtain kb where kb: "cells h b = Some kb" using Cons.prems(1) by auto
  show ?case
  proof (cases "i_name kb = x")
    case True
    with Cons.prems(5) [of b kb] kb show ?thesis by (simp add: deref_def)
  next
    case False
    with kb Cons.prems(3,4) have "c \<noteq> b" by auto
    with Cons.prems have "\<exists>p. find_child x cs h = Inr (Some p) \<and> p < length cs \<and> cs ! p = c"
      by (intro Cons.IH) auto
    with False kb show ?thesis by (auto simp: deref_def)
  qed
qed simp

lemma find_child_ok:
  assumes t: "tree_ok h r" and k: "kids h d = Some (cs, m)" and c: "m x = Some c"
  obtains p where "find_child x cs h = Inr (Some p)" "p < length cs" "cs ! p = c"
proof -
  have "\<exists>k. cells h b = Some k" if "b \<in> set cs" for b
    using kids_members(2) [OF t k that] by blast
  moreover obtain kc where "c \<in> set cs" "cells h c = Some kc" "i_name kc = x"
    using kids_members(3) [OF t k c] by blast
  moreover have "b = c" if "b \<in> set cs" "cells h b = Some kb" "i_name kb = x" for b kb
    using kids_members(2) [OF t k that(1)] that(2,3) c by auto
  ultimately show thesis using find_child_in [of cs h c kc x] that by blast
qed

lemma take_drop_filter:
  assumes "distinct cs" and "p < length cs"
  shows "take p cs @ drop (Suc p) cs = filter (\<lambda>c. c \<noteq> cs ! p) cs"
  using assms
proof (induction cs arbitrary: p)
  case (Cons b cs)
  show ?case
  proof (cases p)
    case 0
    moreover have "filter (\<lambda>c. c \<noteq> b) cs = cs" using Cons.prems by (intro filter_True) auto
    ultimately show ?thesis by simp
  next
    case (Suc q)
    then have "b \<noteq> cs ! q" using Cons.prems by auto
    with Suc Cons show ?thesis by simp
  qed
qed simp


text \<open>
  Erasing \<open>c\<close> from \<open>d\<close> in a heap where everything strictly below \<open>c\<close> has gone and nothing
  else has changed.
\<close>

lemma erase_child_cut:
  assumes t: "tree_ok h r" and k: "kids h d = Some (cs, m)" and c: "m x = Some c"
    and p: "p < length cs" "cs ! p = c"
    and rest: "\<And>a. a \<notin> below h {c} \<Longrightarrow> cells h1 a = cells h a"
    and gone: "\<And>a. a \<in> below h {c} \<Longrightarrow> a \<noteq> c \<Longrightarrow> cells h1 a = None"
    and "next_addr h1 = next_addr h"
  shows "erase_child x p d h1 = Inr (cut h d {c})"
proof -
  obtain n where n: "cells h d = Some n" "i_kind n = Dir_node cs m"
    using k by (auto simp: kids_cell)
  have one: "{c} \<subseteq> set cs" using p by auto
  have d: "d \<notin> below h {c}" using below_greater [OF t k one] by blast
  have "m y = Some c \<longleftrightarrow> y = x" for y
    using kids_members(3) [OF t k, of y c] kids_members(3) [OF t k, of x c] c by auto
  then have m: "m(x := None) = (\<lambda>y. if m y \<in> Some ` {c} then None else m y)"
    by (auto simp: fun_eq_iff)
  have cs: "take p cs @ drop (Suc p) cs = filter (\<lambda>b. b \<notin> {c}) cs"
    using take_drop_filter [OF kids_members(1) [OF t k] p(1)] p(2) by simp
  have n1: "cells h1 d = Some n" using rest [OF d] n by simp
  let ?n = "n\<lparr>i_kind := Dir_node (filter (\<lambda>b. b \<notin> {c}) cs) (\<lambda>y. if m y \<in> Some ` {c} then None else m y)\<rparr>"
  have "erase_child x p d h1 = Inr (set_node_at d ?n (free_node c h1))"
    using n1 n p by (simp add: erase_child_def deref_def m cs del: filter.simps)
  also have "set_node_at d ?n (free_node c h1) = cut h d {c}"
  proof (rule heap.equality)
    have "cells (set_node_at d ?n (free_node c h1)) a = cells (cut h d {c}) a" for a
      using n d rest [of a] gone [of a] below_self [of c "{c}" h]
      by (auto simp: set_node_at_def free_node_def cut_def)
    then show "cells (set_node_at d ?n (free_node c h1)) = cells (cut h d {c})" by (simp add: fun_eq_iff)
  qed (simp_all add: set_node_at_def free_node_def cut_next assms(8))
  finally show ?thesis .
qed

lemma below_leaf:
  assumes "tree_ok h r" and "kids h c = None \<or> (\<exists>m. kids h c = Some ([], m))"
  shows "below h {c} = {c}"
proof -
  have "child h c x = None" for x
  proof (cases "kids h c")
    case (Some km)
    then obtain m where k: "kids h c = Some ([], m)" using assms(2) by auto
    have "m x = None" using kids_members(3) [OF assms(1) k, of x] by (cases "m x") auto
    with k show ?thesis by (simp add: child_kids)
  qed (simp add: child_def)
  then have "walk h c p = Some a \<longleftrightarrow> p = [] \<and> a = c" for p a
    by (cases p) auto
  then show ?thesis by (auto simp: below_def subtree_def)
qed

text \<open>Below a directory are itself and what is below its children.\<close>

lemma below_dir:
  assumes "tree_ok h r" and "kids h c = Some (cs, m)"
  shows "below h {c} = insert c (below h (set cs))"
proof -
  have "walk h c p = Some a \<longleftrightarrow> (p = [] \<and> a = c) \<or> (\<exists>x q b. p = x # q \<and> m x = Some b \<and> walk h b q = Some a)"
    for p a by (cases p) (auto simp: child_kids [OF assms(2)] split: option.splits)
  then have "subtree h c = insert c {a. \<exists>x b q. m x = Some b \<and> walk h b q = Some a}"
    unfolding subtree_def by blast
  also have "{a. \<exists>x b q. m x = Some b \<and> walk h b q = Some a} = below h (set cs)"
    using kids_members(2,3) [OF assms] unfolding below_def subtree_def by blast
  finally show ?thesis by (simp add: below_def)
qed

lemma cut_card:
  assumes t: "tree_ok h r" and k: "kids h d = Some (cs, m)" and c: "c \<in> set cs"
  shows "card (dom (cells (cut h d {c}))) < card (dom (cells h))"
proof (rule psubset_card_mono)
  have "dom (cells h) \<subseteq> {..<next_addr h}" using tree_okD(3) [OF t] by auto
  then show "finite (dom (cells h))" by (rule finite_subset) simp
  have "c \<in> dom (cells h)" using kids_members(2) [OF t k c] by auto
  moreover have "c \<notin> dom (cells (cut h d {c}))" using below_self [of c "{c}" h] by (simp add: cut_def dom_def)
  moreover have "dom (cells (cut h d {c})) \<subseteq> dom (cells h)" using cut_cell_old [of h d "{c}"] by blast
  ultimately show "dom (cells (cut h d {c})) \<subset> dom (cells h)" by blast
qed

text \<open>One step of each operation, when the other one does what it should.\<close>

lemma DeleteChild_step:
  assumes t: "tree_ok h r" and k: "kids h d = Some (cs, m)" and c: "m x = Some c"
    and all: "\<And>cs' m'. kids h c = Some (cs', m') \<Longrightarrow> cs' \<noteq> [] \<Longrightarrow>
      DeleteAllChild_fuel f c h = Inr (True, cut h c (set cs'))"
  shows "DeleteChild_fuel (Suc f) x True d h = Inr (True, cut h d {c})"
proof -
  obtain p where p: "find_child x cs h = Inr (Some p)" "p < length cs" "cs ! p = c"
    by (rule find_child_ok [OF t k c])
  then obtain nc where nc: "cells h c = Some nc" using kids_members(2) [OF t k, of c] by auto
  note erase = erase_child_cut [OF t k c p(2,3)]
  show ?thesis
  proof (cases "kids h c = None \<or> (\<exists>mc. kids h c = Some ([], mc))")
    case True
    have "erase_child x p d h = Inr (cut h d {c})"
      by (rule erase) (simp_all add: below_leaf [OF t True])
    moreover have "(if IsDir nc then DirIsEmpty c h else Inr True) = Inr True"
      using True nc IsDir_kids [OF nc] by (auto simp: DirIsEmpty_def dir_at_kids)
    ultimately show ?thesis
      using p nc by (cases "IsDir nc") (simp_all add: dir_at_kids [OF k] deref_def del: IsDir.simps)
  next
    case False
    then obtain cs' m' where kc: "kids h c = Some (cs', m')" "cs' \<noteq> []" by (cases "kids h c") auto
    have B: "below h {c} = insert c (below h (set cs'))" by (rule below_dir [OF t kc(1)])
    have "c \<notin> below h (set cs')" using below_greater [OF t kc(1)] by blast
    have "erase_child x p d (cut h c (set cs')) = Inr (cut h d {c})"
      by (rule erase) (auto simp: B cut_def)
    moreover have "(if IsDir nc then DirIsEmpty c h else Inr True) = Inr False"
      using kc nc IsDir_kids [OF nc] by (simp add: DirIsEmpty_def dir_at_kids)
    ultimately show ?thesis
      using p nc all [OF kc]
      by (cases "IsDir nc") (simp_all add: dir_at_kids [OF k] deref_def del: IsDir.simps)
  qed
qed

text \<open>The directory after its first child has left.\<close>

lemma cut_first:
  assumes t: "tree_ok h r" and k: "kids h d = Some (c # cs, m)"
  shows "\<exists>m'. kids (cut h d {c}) d = Some (cs, m')"
    and "cut (cut h d {c}) d (set cs) = cut h d (set (c # cs))"
proof -
  have one: "{c} \<subseteq> set (c # cs)" and c: "c \<notin> set cs" using kids_members(1) [OF t k] by auto
  have "d \<notin> below h {c}" using below_greater [OF t k one] by blast
  moreover have "filter (\<lambda>b. b \<noteq> c) cs = cs" using c by (intro filter_True) auto
  ultimately show "\<exists>m'. kids (cut h d {c}) d = Some (cs, m')"
    using cut_kids [OF t k one, of d] by simp
  show "cut (cut h d {c}) d (set cs) = cut h d (set (c # cs))"
    using cut_cut [OF t k, of c "set cs"] c by auto
qed

lemma DeleteAllChild_step:
  assumes t: "tree_ok h r" and k: "kids h d = Some (cs, m)"
    and one: "\<And>x c. m x = Some c \<Longrightarrow> DeleteChild_fuel f x True d h = Inr (True, cut h d {c})"
    and rest: "\<And>c cs' m'. cs = c # cs' \<Longrightarrow> tree_ok (cut h d {c}) r \<Longrightarrow> kids (cut h d {c}) d = Some (cs', m') \<Longrightarrow>
      DeleteAllChild_fuel f d (cut h d {c}) = Inr (True, cut (cut h d {c}) d (set cs'))"
  shows "DeleteAllChild_fuel (Suc f) d h = Inr (True, cut h d (set cs))"
proof (cases cs)
  case Nil
  with t k show ?thesis by (simp add: dir_at_kids cut_none)
next
  case (Cons c cs')
  then obtain nc where nc: "cells h c = Some nc" "m (i_name nc) = Some c"
    using kids_members(2) [OF t k, of c] by auto
  have t': "tree_ok (cut h d {c}) r" by (rule cut_tree_ok [OF t k]) (simp add: Cons)
  obtain m' where "kids (cut h d {c}) d = Some (cs', m')" using cut_first(1) [OF t k [unfolded Cons]] by blast
  with rest [OF Cons t'] cut_first(2) [OF t k [unfolded Cons]]
  have "DeleteAllChild_fuel f d (cut h d {c}) = Inr (True, cut h d (set cs))" by (simp add: Cons)
  with one [OF nc(2)] nc Cons show ?thesis by (simp add: dir_at_kids [OF k] deref_def)
qed

text \<open>
  With enough fuel both operations succeed and cut exactly the children they are asked to
  remove.  A depth of two per level below \<open>d\<close> and one per node is enough.
\<close>

lemma delete_spec:
  "(\<forall>h d cs m x c. tree_ok h r \<and> kids h d = Some (cs, m) \<and> m x = Some c \<and>
      2 * (next_addr h - d) + card (dom (cells h)) + 1 \<le> f \<longrightarrow>
      DeleteChild_fuel f x True d h = Inr (True, cut h d {c})) \<and>
   (\<forall>h d cs m. tree_ok h r \<and> kids h d = Some (cs, m) \<and>
      2 * (next_addr h - d) + card (dom (cells h)) + 2 \<le> f \<longrightarrow>
      DeleteAllChild_fuel f d h = Inr (True, cut h d (set cs)))"
proof (induction f)
  case (Suc f)
  note IHc = Suc.IH [THEN conjunct1, rule_format, OF conjI, OF _ conjI, OF _ _ conjI]
  note IHa = Suc.IH [THEN conjunct2, rule_format, OF conjI, OF _ conjI]
  show ?case
  proof (intro conjI allI impI; elim conjE)
    fix h d cs m x c
    assume t: "tree_ok h r" and k: "kids h d = Some (cs, m)" and c: "m x = Some c"
      and fuel: "2 * (next_addr h - d) + card (dom (cells h)) + 1 \<le> Suc f"
    have "d < c \<and> c < next_addr h"
      using kids_members(2,3) [OF t k] c tree_okD(3) [OF t] by blast
    with fuel have "2 * (next_addr h - c) + card (dom (cells h)) + 2 \<le> f" by linarith
    then show "DeleteChild_fuel (Suc f) x True d h = Inr (True, cut h d {c})"
      by (intro DeleteChild_step [OF t k c] IHa [OF t])
  next
    fix h d cs m
    assume t: "tree_ok h r" and k: "kids h d = Some (cs, m)"
      and fuel: "2 * (next_addr h - d) + card (dom (cells h)) + 2 \<le> Suc f"
    show "DeleteAllChild_fuel (Suc f) d h = Inr (True, cut h d (set cs))"
    proof (rule DeleteAllChild_step [OF t k])
      show "DeleteChild_fuel f x True d h = Inr (True, cut h d {c})" if "m x = Some c" for x c
        by (rule IHc [OF t k that]) (use fuel in simp)
      show "DeleteAllChild_fuel f d (cut h d {c}) = Inr (True, cut (cut h d {c}) d (set cs'))"
        if "cs = c # cs'" "tree_ok (cut h d {c}) r" "kids (cut h d {c}) d = Some (cs', m')" for c cs' m'
        by (rule IHa [OF that(2,3)]) (use fuel cut_card [OF t k, of c] that(1) in \<open>simp add: cut_next\<close>)
    qed
  qed
qed simp


lemma node_count: "tree_ok h r \<Longrightarrow> card (dom (cells h)) \<le> next_addr h"
proof -
  assume "tree_ok h r"
  then have "dom (cells h) \<subseteq> {..<next_addr h}" using tree_okD(3) by blast
  then show ?thesis using card_mono [of "{..<next_addr h}"] by simp
qed

lemma DeleteAllChild_cut:
  assumes "tree_ok h r" and "kids h d = Some (cs, m)"
  shows "DeleteAllChild d h = Inr (True, cut h d (set cs))"
  unfolding DeleteAllChild_def
  by (rule delete_spec [THEN conjunct2, rule_format, of h r d cs m])
    (use assms node_count [OF assms(1)] in \<open>simp add: delete_fuel_def\<close>)

lemma DeleteChild_cut:
  assumes "tree_ok h r" and "kids h d = Some (cs, m)" and "m x = Some c"
  shows "DeleteChild x True d h = Inr (True, cut h d {c})"
  unfolding DeleteChild_def
  by (rule delete_spec [THEN conjunct1, rule_format, of h r d cs m x c])
    (use assms node_count [OF assms(1)] in \<open>simp add: delete_fuel_def\<close>)

text \<open>Without recursion a child with children is left alone, any other one is cut.\<close>

lemma DeleteChild_plain:
  assumes t: "tree_ok h r" and k: "kids h d = Some (cs, m)" and c: "m x = Some c"
  shows "DeleteChild x False d h =
    (if kids h c = None \<or> (\<exists>mc. kids h c = Some ([], mc)) then Inr (True, cut h d {c}) else Inr (False, h))"
proof -
  obtain p where p: "find_child x cs h = Inr (Some p)" "p < length cs" "cs ! p = c"
    by (rule find_child_ok [OF t k c])
  then obtain nc where nc: "cells h c = Some nc" using kids_members(2) [OF t k, of c] by auto
  define e where "e \<longleftrightarrow> kids h c = None \<or> (\<exists>mc. kids h c = Some ([], mc))"
  have "(if IsDir nc then DirIsEmpty c h else Inr True) = Inr e"
  proof (cases "kids h c")
    case (Some km)
    obtain cs' m' where "km = (cs', m')" by fastforce
    with Some IsDir_kids [OF nc] show ?thesis by (simp add: DirIsEmpty_def dir_at_kids e_def)
  qed (use IsDir_kids [OF nc] in \<open>simp add: e_def\<close>)
  moreover have "erase_child x p d h = Inr (cut h d {c})" if e
    using that by (intro erase_child_cut [OF t k c p(2,3)]) (simp_all add: below_leaf [OF t] e_def)
  moreover have "delete_fuel h = Suc (3 * next_addr h + 2)" by (simp add: delete_fuel_def)
  ultimately show ?thesis
    using p nc unfolding e_def [symmetric] DeleteChild_def
    by (cases "IsDir nc"; cases e) (simp_all add: dir_at_kids [OF k] deref_def del: IsDir.simps)
qed

end
