(* ===== verification/FS_Namespace.thy ===== *)
theory FS_Namespace
  imports INode_Tree
begin

text \<open>
  The name space of the file system, \<open>filesystem/FSNamespace\<close>: paths are split at their
  slashes and followed from the root, and the metadata operations create, remove and list
  nodes.  What they do is stated and proved in theory \<open>FS_Spec\<close>.
\<close>

section \<open>State and paths\<close>

record fs_namespace =
  fs_heap :: heap
  fs_root :: addr
  commited_index :: int

definition new_FSNamespace :: "int \<Rightarrow> fs_namespace" where
  "new_FSNamespace now =
     (let root_node = new_INodeDirectory_owned now ''/'' ''raftfs'' None;
          (r, h) = new_node root_node \<lparr>cells = Map.empty, next_addr = 0\<rparr>
      in \<lparr>fs_heap = set_node_at r (root_node\<lparr>i_parent := Some r\<rparr>) h, fs_root = r, commited_index = 0\<rparr>)"

definition GetCommitedIndex :: "fs_namespace \<Rightarrow> int" where
  "GetCommitedIndex ns = commited_index ns"

definition SetCommitedIndex :: "int \<Rightarrow> fs_namespace \<Rightarrow> fs_namespace" where
  "SetCommitedIndex new_index ns = ns\<lparr>commited_index := new_index\<rparr>"

definition ValidatePath :: "string \<Rightarrow> bool" where
  "ValidatePath path = (case path of [] \<Rightarrow> False | c # _ \<Rightarrow> c = CHR ''/'')"

text \<open>\<open>boost::split\<close> at every slash: one piece more than there are slashes.\<close>

fun split_slash :: "string \<Rightarrow> string list" where
  "split_slash [] = [[]]"
| "split_slash (c # s) =
     (if c = CHR ''/'' then [] # split_slash s
      else case split_slash s of [] \<Rightarrow> [[c]] | p # ps \<Rightarrow> (c # p) # ps)"

definition SplitPath :: "string \<Rightarrow> string list" where
  "SplitPath abs_path = tl (split_slash abs_path)"

text \<open>
  \<open>GetParentFolderAndChild\<close>.  The loop bound \<open>dir_split.size() - 1\<close> is unsigned: for a path
  without a slash it wraps around and the loop reads past the end of the vector.
\<close>

fun descend :: "string list \<Rightarrow> addr \<Rightarrow> heap \<Rightarrow> addr option outcome" where
  "descend [] current h = Inr (Some current)"
| "descend (x # xs) current h =
     and_then (GetChild x current h) (\<lambda>next_node.
     case next_node of
       None \<Rightarrow> Inr None
     | Some s \<Rightarrow> and_then (deref s h) (\<lambda>n. if IsDir n then descend xs s h else Inr None))"

definition GetParentFolderAndChild :: "string \<Rightarrow> fs_namespace \<Rightarrow> (addr option \<times> string) outcome" where
  "GetParentFolderAndChild abs_path ns =
     (if abs_path = ''/'' then Inr (Some (fs_root ns), [])
      else
        let dir_split = SplitPath abs_path
        in if dir_split = [] then Inl Index_out_of_range
           else and_then (descend (butlast dir_split) (fs_root ns) (fs_heap ns)) (\<lambda>parent.
                Inr (case parent of None \<Rightarrow> (None, []) | Some d \<Rightarrow> (Some d, last dir_split))))"


section \<open>Operations\<close>

text \<open>
  The loop of \<open>MakeDir\<close> ends at the end of the path or at a failed creation, with its index,
  the current directory and the index \<open>new_dir\<close> of the first missing level, or it returns
  false.  The cast of an existing node to a directory is checked where the code casts.
\<close>

datatype mkdir_exit = Left_loop nat addr nat heap | Returned_false heap

fun MakeDir_loop ::
  "int \<Rightarrow> bool \<Rightarrow> nat \<Rightarrow> string list \<Rightarrow> addr \<Rightarrow> nat \<Rightarrow> heap \<Rightarrow> mkdir_exit outcome"
where
  "MakeDir_loop now make_parents i [] current new_dir h = Inr (Left_loop i current new_dir h)"
| "MakeDir_loop now make_parents i (x # xs) current new_dir h =
     and_then (GetChild x current h) (\<lambda>sub.
     case sub of
       Some s \<Rightarrow> and_then (dir_at s h) (\<lambda>_. MakeDir_loop now make_parents (Suc i) xs s new_dir h)
     | None \<Rightarrow>
         if xs \<noteq> [] then
           (let new_dir' = (if new_dir = 0 then i else new_dir) in
            if make_parents then
              and_then (node_CreateDir now x current h) (\<lambda>(made, h1).
              case made of
                Some s \<Rightarrow> MakeDir_loop now make_parents (Suc i) xs s new_dir' h1
              | None \<Rightarrow> Inr (Left_loop i current new_dir' h1))
            else Inr (Returned_false h))
         else
           and_then (node_CreateDir now x current h) (\<lambda>(made, h1).
           MakeDir_loop now make_parents (Suc i) xs current (if made \<noteq> None then 0 else new_dir) h1))"

fun ascend :: "nat \<Rightarrow> addr \<Rightarrow> heap \<Rightarrow> addr outcome" where
  "ascend 0 current h = Inr current"
| "ascend (Suc k) current h = and_then (GetParent current h) (\<lambda>p.
     case p of None \<Rightarrow> Inl Null_dereference | Some d \<Rightarrow> and_then (dir_at d h) (\<lambda>_. ascend k d h))"

definition MakeDir ::
  "int \<Rightarrow> string \<Rightarrow> string \<Rightarrow> bool \<Rightarrow> fs_namespace \<Rightarrow> (bool \<times> fs_namespace) outcome"
where
  "MakeDir now abs_dir owner make_parents ns =
     (let dir_split = SplitPath abs_dir in
      and_then (MakeDir_loop now make_parents 0 dir_split (fs_root ns) 0 (fs_heap ns)) (\<lambda>exit.
      case exit of
        Returned_false h \<Rightarrow> Inr (False, ns\<lparr>fs_heap := h\<rparr>)
      | Left_loop i current new_dir h \<Rightarrow>
          if new_dir \<noteq> 0 \<and> new_dir \<noteq> i then
            and_then (ascend (i - (new_dir - 1)) current h) (\<lambda>d.
            and_then (DeleteChild (dir_split ! new_dir) True d h) (\<lambda>(_, h1).
            Inr (False, ns\<lparr>fs_heap := h1\<rparr>)))
          else Inr (True, ns\<lparr>fs_heap := h\<rparr>)))"

definition may_access :: "string \<Rightarrow> inode \<Rightarrow> bool" where
  "may_access visitor n \<longleftrightarrow> i_owner n = visitor \<or> i_owner n = ''unknown''"

definition remove_if ::
  "(inode \<Rightarrow> bool) \<Rightarrow> bool \<Rightarrow> string \<Rightarrow> fs_namespace \<Rightarrow> (bool \<times> fs_namespace) outcome"
where
  "remove_if wanted recursive path ns =
     and_then (GetParentFolderAndChild path ns) (\<lambda>(parent, name).
     case parent of
       None \<Rightarrow> Inr (False, ns)
     | Some d \<Rightarrow>
         if name = [] then Inr (False, ns)
         else and_then (GetChild name d (fs_heap ns)) (\<lambda>target.
           case target of
             None \<Rightarrow> Inr (False, ns)
           | Some c \<Rightarrow> and_then (deref c (fs_heap ns)) (\<lambda>n.
               if wanted n
               then and_then (DeleteChild name recursive d (fs_heap ns)) (\<lambda>(ok, h).
                    Inr (ok, ns\<lparr>fs_heap := h\<rparr>))
               else Inr (False, ns))))"

definition DeleteDir :: "string \<Rightarrow> string \<Rightarrow> bool \<Rightarrow> fs_namespace \<Rightarrow> (bool \<times> fs_namespace) outcome" where
  "DeleteDir abs_dir visitor recursive ns =
     remove_if (\<lambda>n. IsDir n \<and> may_access visitor n) recursive abs_dir ns"

definition CreateFile :: "int \<Rightarrow> string \<Rightarrow> string \<Rightarrow> fs_namespace \<Rightarrow> (bool \<times> fs_namespace) outcome" where
  "CreateFile now new_file owner ns =
     and_then (GetParentFolderAndChild new_file ns) (\<lambda>(parent, name).
     case parent of
       None \<Rightarrow> Inr (False, ns)
     | Some d \<Rightarrow>
         if name = [] then Inr (False, ns)
         else and_then (node_CreateFile now name d (fs_heap ns)) (\<lambda>(made, h).
              Inr (made \<noteq> None, ns\<lparr>fs_heap := h\<rparr>)))"

definition RemoveFile :: "string \<Rightarrow> string \<Rightarrow> fs_namespace \<Rightarrow> (bool \<times> fs_namespace) outcome" where
  "RemoveFile file_name visitor ns =
     remove_if (\<lambda>n. IsFile n \<and> may_access visitor n) False file_name ns"

definition UpdateFile :: "string \<Rightarrow> string \<Rightarrow> file_info \<Rightarrow> fs_namespace \<Rightarrow> bool \<times> fs_namespace" where
  "UpdateFile file_name visitor new_info ns = (False, ns)"

definition ExistInode :: "string \<Rightarrow> fs_namespace \<Rightarrow> bool" where
  "ExistInode abs_path ns = False"

definition ListDir :: "string \<Rightarrow> fs_namespace \<Rightarrow> string list outcome" where
  "ListDir abs_dir ns =
     and_then (GetParentFolderAndChild abs_dir ns) (\<lambda>(parent, name).
     case parent of
       None \<Rightarrow> Inr []
     | Some d \<Rightarrow>
         if name = [] then ListDirName d (fs_heap ns)
         else and_then (GetChild name d (fs_heap ns)) (\<lambda>target.
           case target of
             None \<Rightarrow> Inr []
           | Some c \<Rightarrow> ListDirName c (fs_heap ns)))"

text \<open>\<open>info\<close> is written when the file is found; \<open>None\<close> stands for an info that was not written.\<close>

definition GetFileInfo :: "string \<Rightarrow> fs_namespace \<Rightarrow> (bool \<times> file_info option) outcome" where
  "GetFileInfo filename ns =
     and_then (GetParentFolderAndChild filename ns) (\<lambda>(parent, name).
     case parent of
       None \<Rightarrow> Inr (True, None)
     | Some d \<Rightarrow>
         if name = [] then Inr (True, None)
         else and_then (GetChild name d (fs_heap ns)) (\<lambda>target.
           case target of
             None \<Rightarrow> Inr (False, None)
           | Some c \<Rightarrow> and_then (ToFileInfo c (fs_heap ns)) (\<lambda>info. Inr (True, Some info))))"

end
