(* ===== verification/FS_Spec.thy ===== *)
theory FS_Spec
  imports FS_Namespace
begin

text \<open>
  What the operations of the name space do, over its \<open>view\<close>: the map from paths, as lists of
  names, to the kind of node they name.  Addresses, time stamps, vectors and maps of the
  heap do not show in a view.
\<close>

section \<open>The view of a name space\<close>

datatype node_view = V_file | V_dir

definition kind_view :: "inode \<Rightarrow> node_view" where
  "kind_view n = (if IsDir n then V_dir else V_file)"

definition heap_view :: "heap \<Rightarrow> addr \<Rightarrow> string list \<Rightarrow> node_view option" where
  "heap_view h r p = (case walk h r p of None \<Rightarrow> None | Some a \<Rightarrow> map_option kind_view (cells h a))"

definition view :: "fs_namespace \<Rightarrow> string list \<Rightarrow> node_view option" where
  "view ns = heap_view (fs_heap ns) (fs_root ns)"

definition fs_wf :: "fs_namespace \<Rightarrow> bool" where
  "fs_wf ns \<longleftrightarrow> tree_ok (fs_heap ns) (fs_root ns)"

lemma root_cell: "tree_ok h r \<Longrightarrow> cells h r \<noteq> None"
  by (rule root_dir [of h r]) auto

lemma walk_root_cell: "tree_ok h r \<Longrightarrow> walk h r p = Some a \<Longrightarrow> r \<le> a \<and> cells h a \<noteq> None"
  using walk_cell root_cell by blast

lemma heap_view_dir:
  assumes "tree_ok h r"
  shows "heap_view h r p = Some V_dir \<longleftrightarrow> (\<exists>a. walk h r p = Some a \<and> kids h a \<noteq> None)"
proof (cases "walk h r p")
  case (Some a)
  then obtain n where n: "cells h a = Some n" using walk_root_cell [OF assms] by blast
  with Some IsDir_kids [OF n] show ?thesis by (simp add: heap_view_def kind_view_def del: IsDir.simps)
qed (simp add: heap_view_def)

lemma heap_view_file:
  assumes "tree_ok h r"
  shows "heap_view h r p = Some V_file \<longleftrightarrow> (\<exists>a. walk h r p = Some a \<and> kids h a = None)"
proof (cases "walk h r p")
  case (Some a)
  then obtain n where n: "cells h a = Some n" using walk_root_cell [OF assms] by blast
  with Some IsDir_kids [OF n] show ?thesis
    by (cases "kids h a") (simp_all add: heap_view_def kind_view_def del: IsDir.simps)
qed (simp add: heap_view_def)

lemma heap_view_none:
  "tree_ok h r \<Longrightarrow> heap_view h r p = None \<longleftrightarrow> walk h r p = None"
  using walk_root_cell by (fastforce simp: heap_view_def split: option.splits)

lemma heap_view_root: "tree_ok h r \<Longrightarrow> heap_view h r [] = Some V_dir"
  using heap_view_dir [of h r "[]"] root_dir [of h r] by fastforce

text \<open>A path names a node only if all shorter paths name directories.\<close>

lemma heap_view_parent:
  assumes "tree_ok h r" and "heap_view h r (p @ x # s) \<noteq> None"
  shows "heap_view h r p = Some V_dir"
proof -
  from assms obtain a where "walk h r p = Some a" "child h a x \<noteq> None"
    by (auto simp: heap_view_none walk_append split: option.splits)
  then show ?thesis using assms(1) by (auto simp: heap_view_dir child_def split: option.splits)
qed

lemma heap_view_prefix:
  assumes "tree_ok h r" and "heap_view h r q \<noteq> None" and "strict_prefix p q"
  shows "heap_view h r p = Some V_dir"
proof -
  from assms(3) obtain x s where "q = p @ x # s" by (rule strict_prefixE')
  with heap_view_parent assms(1,2) show ?thesis by blast
qed

text \<open>A new child adds one path to the view.\<close>

lemma heap_view_insert:
  assumes t: "tree_ok h r" and q: "walk h r q = Some d" and k: "kids h d = Some (cs, m)"
    and leaf: "leaf_node d n" and new: "m (i_name n) = None"
  shows "heap_view (insert_child d n h) r = (heap_view h r)(q @ [i_name n] \<mapsto> kind_view n)"
proof
  fix p
  have d: "d < next_addr h" by (rule dir_not_fresh [OF t k])
  have path: "(\<exists>q'. p = q' @ [i_name n] \<and> walk h r q' = Some d) \<longleftrightarrow> p = q @ [i_name n]"
    using q walk_inj [OF t, of r _ d q] by blast
  note w = insert_child_walk [OF t k leaf new root_cell [OF t], of p, unfolded path]
  show "heap_view (insert_child d n h) r p = ((heap_view h r)(q @ [i_name n] \<mapsto> kind_view n)) p"
  proof (cases "p = q @ [i_name n]")
    case True
    with w d show ?thesis by (simp add: heap_view_def insert_child_def)
  next
    case False
    show ?thesis
    proof (cases "walk h r p")
      case (Some a)
      then obtain na where na: "cells h a = Some na" using walk_root_cell [OF t] by blast
      have "a < next_addr h" by (rule tree_okD(3) [OF t na])
      then have "map_option kind_view (cells (insert_child d n h) a) = Some (kind_view na)"
        using na k by (cases "a = d") (auto simp: insert_child_def kind_view_def kids_cell)
      with False w Some na show ?thesis by (simp add: heap_view_def)
    qed (use False w in \<open>simp add: heap_view_def\<close>)
  qed
qed

text \<open>A removed child takes all paths below it out of the view.\<close>

lemma heap_view_cut:
  assumes t: "tree_ok h r" and q: "walk h r q = Some d" and k: "kids h d = Some (cs, m)"
    and c: "m x = Some c"
  shows "heap_view (cut h d {c}) r = (\<lambda>p. if prefix (q @ [x]) p then None else heap_view h r p)"
proof
  fix p
  have one: "{c} \<subseteq> set cs" using kids_members(3) [OF t k c] by simp
  have qc: "walk h r (q @ [x]) = Some c" using q k c by (simp add: walk_snoc child_kids)
  have "r \<notin> below h {c}"
    using below_greater [OF t k one, of r] walk_root_cell [OF t q] by auto
  note w = cut_walk [OF t k one this, of p]
  have path: "a \<in> below h {c} \<longleftrightarrow> prefix (q @ [x]) p" if "walk h r p = Some a" for a
  proof
    assume "a \<in> below h {c}"
    then obtain s where "walk h c s = Some a" by (auto simp: below_def subtree_def)
    with qc have "walk h r ((q @ [x]) @ s) = Some a" by (simp only: walk_append option.case)
    with walk_inj [OF t that] have "p = (q @ [x]) @ s" by blast
    then show "prefix (q @ [x]) p" by (rule prefixI)
  next
    assume "prefix (q @ [x]) p"
    then obtain s where "p = (q @ [x]) @ s" by (rule prefixE)
    with that qc have "walk h c s = Some a" by (simp only: walk_append option.case)
    then show "a \<in> below h {c}" by (auto simp: below_def subtree_def)
  qed
  show "heap_view (cut h d {c}) r p = (if prefix (q @ [x]) p then None else heap_view h r p)"
  proof (cases "walk h r p")
    case (Some a)
    then obtain na where na: "cells h a = Some na" using walk_root_cell [OF t] by blast
    show ?thesis
    proof (cases "a \<in> below h {c}")
      case False
      with cut_cell [OF na False, of d] obtain k' where "cells (cut h d {c}) a = Some k'" "IsDir k' = IsDir na"
        by blast
      with False path [OF Some] w Some na show ?thesis by (auto simp: heap_view_def kind_view_def)
    qed (use path [OF Some] w Some in \<open>auto simp: heap_view_def\<close>)
  qed (use w in \<open>simp add: heap_view_def\<close>)
qed


section \<open>Splitting paths\<close>

fun join_slash :: "string list \<Rightarrow> string" where
  "join_slash [] = []"
| "join_slash [x] = x"
| "join_slash (x # y # xs) = x @ CHR ''/'' # join_slash (y # xs)"

lemma split_slash_nonempty [simp]: "split_slash s \<noteq> []"
  by (induction s) (auto split: list.splits)

lemma split_slash_names: "x \<in> set (split_slash s) \<Longrightarrow> CHR ''/'' \<notin> set x"
  by (induction s arbitrary: x) (auto split: list.splits if_splits)

lemma SplitPath_names: "x \<in> set (SplitPath s) \<Longrightarrow> CHR ''/'' \<notin> set x"
  unfolding SplitPath_def by (rule split_slash_names [of _ s]) (meson list.set_sel(2) split_slash_nonempty)

lemma join_split: "join_slash (split_slash s) = s"
proof (induction s)
  case (Cons c s)
  obtain p ps where ps: "split_slash s = p # ps" by (cases "split_slash s") auto
  with Cons show ?case by (cases ps) auto
qed simp

lemma split_join:
  "xs \<noteq> [] \<Longrightarrow> \<forall>x \<in> set xs. CHR ''/'' \<notin> set x \<Longrightarrow> split_slash (join_slash xs) = xs"
proof (induction xs rule: join_slash.induct)
  case (2 x)
  then show ?case by (induction x) (auto split: list.splits)
next
  case (3 x y xs)
  then have IH: "split_slash (join_slash (y # xs)) = y # xs" by simp
  have "split_slash (x @ CHR ''/'' # join_slash (y # xs)) = x # y # xs"
    using 3(3) by (induction x) (auto simp: IH split: list.splits)
  then show ?case by simp
qed simp

lemma valid_path_split:
  assumes "ValidatePath path"
  shows "SplitPath path \<noteq> [] \<and> path = CHR ''/'' # join_slash (SplitPath path)"
  using assms join_split by (cases path) (auto simp: ValidatePath_def SplitPath_def)

lemma SplitPath_root: "SplitPath ''/'' = [[]]"
  by (simp add: SplitPath_def)


section \<open>Following a path to its parent folder\<close>

lemma descend_walk:
  assumes "tree_ok h r" and "kids h a \<noteq> None"
  shows "descend p a h = Inr (case walk h a p of None \<Rightarrow> None
    | Some d \<Rightarrow> if kids h d = None then None else Some d)"
  using assms(2)
proof (induction p arbitrary: a)
  case (Cons x p)
  show ?case
  proof (cases "child h a x")
    case (Some b)
    with assms(1) obtain k where "cells h b = Some k" by (rule child_node)
    note b = this IsDir_kids [OF this]
    show ?thesis
    proof (cases "kids h b")
      case None
      then have "child h b y = None" for y by (simp add: child_def)
      with None have "walk h b p = (if p = [] then Some b else None)" by (cases p) auto
      with None b Cons.prems Some show ?thesis by (simp add: GetChild_child deref_def del: IsDir.simps)
    next
      case (Some km)
      with \<open>child h a x = Some b\<close> b Cons.prems Cons.IH [of b] show ?thesis
        by (simp add: GetChild_child deref_def del: IsDir.simps)
    qed
  qed (use Cons.prems in \<open>simp add: GetChild_child\<close>)
qed auto

lemma parent_folder:
  assumes wf: "fs_wf ns" and "SplitPath path \<noteq> []"
  shows "GetParentFolderAndChild path ns =
    Inr (if view ns (butlast (SplitPath path)) = Some V_dir
         then (walk (fs_heap ns) (fs_root ns) (butlast (SplitPath path)), last (SplitPath path))
         else (None, []))"
proof -
  have t: "tree_ok (fs_heap ns) (fs_root ns)" using wf by (simp add: fs_wf_def)
  have root: "kids (fs_heap ns) (fs_root ns) \<noteq> None"
    by (rule root_dir [OF t]) simp
  show ?thesis
  proof (cases "path = ''/''")
    case True
    then show ?thesis
      using heap_view_root [OF t] by (simp add: GetParentFolderAndChild_def SplitPath_root view_def)
  next
    case False
    with assms(2) show ?thesis
      unfolding view_def heap_view_dir [OF t]
      by (auto simp: GetParentFolderAndChild_def Let_def descend_walk [OF t root] split: option.splits)
  qed
qed

text \<open>The two outcomes of looking for the parent folder, as the operations use them.\<close>

lemma parent_folder_cases:
  assumes wf: "fs_wf ns" and names: "SplitPath path \<noteq> []"
  obtains (missing) "view ns (butlast (SplitPath path)) \<noteq> Some V_dir"
      "GetParentFolderAndChild path ns = Inr (None, [])" "view ns (SplitPath path) = None"
  | (found) d cs m where "view ns (butlast (SplitPath path)) = Some V_dir"
      "GetParentFolderAndChild path ns = Inr (Some d, last (SplitPath path))"
      "walk (fs_heap ns) (fs_root ns) (butlast (SplitPath path)) = Some d"
      "kids (fs_heap ns) d = Some (cs, m)"
      "walk (fs_heap ns) (fs_root ns) (SplitPath path) = m (last (SplitPath path))"
proof -
  have t: "tree_ok (fs_heap ns) (fs_root ns)" using wf by (simp add: fs_wf_def)
  have split: "butlast (SplitPath path) @ [last (SplitPath path)] = SplitPath path"
    using names by simp
  show thesis
  proof (cases "view ns (butlast (SplitPath path)) = Some V_dir")
    case True
    then obtain d where d: "walk (fs_heap ns) (fs_root ns) (butlast (SplitPath path)) = Some d"
      "kids (fs_heap ns) d \<noteq> None"
      using heap_view_dir [OF t] unfolding view_def by blast
    then obtain cs m where k: "kids (fs_heap ns) d = Some (cs, m)" by auto
    have "walk (fs_heap ns) (fs_root ns) (p @ [x]) = m x"
      if "walk (fs_heap ns) (fs_root ns) p = Some d" for p x
      using that by (simp add: walk_append child_kids [OF k] split: option.splits)
    from this [OF d(1), of "last (SplitPath path)"] have "walk (fs_heap ns) (fs_root ns) (SplitPath path) = m (last (SplitPath path))"
      unfolding split .
    with True d k parent_folder [OF wf names] show thesis by (intro found) simp_all
  next
    case False
    have "view ns (SplitPath path) = None"
    proof (rule ccontr)
      assume "view ns (SplitPath path) \<noteq> None"
      with split heap_view_parent [OF t, of "butlast (SplitPath path)" "last (SplitPath path)" "[]"] False
      show False by (simp add: view_def)
    qed
    with False parent_folder [OF wf names] show thesis by (intro missing) simp_all
  qed
qed


section \<open>Files\<close>

text \<open>Same root and same applied index: what all operations leave alone.\<close>

definition same_frame :: "fs_namespace \<Rightarrow> fs_namespace \<Rightarrow> bool" where
  "same_frame ns ns' \<longleftrightarrow> fs_root ns' = fs_root ns \<and> commited_index ns' = commited_index ns"

lemma same_frame_refl [simp]: "same_frame ns ns" "same_frame ns (ns\<lparr>fs_heap := h\<rparr>)"
  by (simp_all add: same_frame_def)

lemma same_frame_trans: "same_frame a b \<Longrightarrow> same_frame b c \<Longrightarrow> same_frame a c"
  by (simp add: same_frame_def)

lemma last_name: "SplitPath path \<noteq> [] \<Longrightarrow> CHR ''/'' \<notin> set (last (SplitPath path))"
  by (rule SplitPath_names [of _ path]) simp

lemma CreateFile_spec:
  assumes wf: "fs_wf ns" and names: "SplitPath path \<noteq> []"
  defines "ok \<equiv> view ns (butlast (SplitPath path)) = Some V_dir \<and> last (SplitPath path) \<noteq> [] \<and>
    view ns (SplitPath path) = None"
  shows "\<exists>ns'. CreateFile now path owner ns = Inr (ok, ns') \<and> fs_wf ns' \<and> same_frame ns ns' \<and>
    view ns' = (if ok then (view ns)(SplitPath path \<mapsto> V_file) else view ns)"
  using wf names
proof (cases rule: parent_folder_cases)
  case missing
  with wf show ?thesis by (simp add: CreateFile_def ok_def)
next
  case (found d cs m)
  let ?x = "last (SplitPath path)" and ?q = "butlast (SplitPath path)"
  have t: "tree_ok (fs_heap ns) (fs_root ns)" using wf by (simp add: fs_wf_def)
  have view_none: "view ns (SplitPath path) = None \<longleftrightarrow> m ?x = None"
    using found(5) heap_view_none [OF t] by (simp add: view_def)
  show ?thesis
  proof (cases "?x = [] \<or> m ?x \<noteq> None")
    case True
    then have "\<not> ok" using view_none by (auto simp: ok_def)
    moreover have "CreateFile now path owner ns = Inr (False, ns)"
      using True found(2) node_Create_exists(1) [of "fs_heap ns" d ?x] found(4)
      by (auto simp: CreateFile_def child_kids [OF found(4)])
    ultimately show ?thesis using wf by simp
  next
    case False
    then have ok using found(1) view_none by (auto simp: ok_def)
    let ?n = "new_INodeFile now ?x (Some d)"
    have leaf: "leaf_node d ?n" by (rule leaf_new_nodes(1)) (rule last_name [OF names])
    have n: "i_name ?n = ?x" "kind_view ?n = V_file"
      by (simp_all add: new_INodeFile_def new_INode_def kind_view_def)
    with False have new: "m (i_name ?n) = None" by simp
    define ns' where "ns' = ns\<lparr>fs_heap := insert_child d ?n (fs_heap ns)\<rparr>"
    have "CreateFile now path owner ns = Inr (True, ns')"
      using False found(2) node_CreateFile_new [OF t found(4), of ?x now]
      by (simp add: CreateFile_def ns'_def)
    moreover have "fs_wf ns'"
      using insert_child_tree_ok [OF t found(4) leaf new] by (simp add: fs_wf_def ns'_def)
    moreover have "view ns' = (view ns)(SplitPath path \<mapsto> V_file)"
      using heap_view_insert [OF t found(3,4) leaf new] names n by (simp add: view_def ns'_def)
    ultimately show ?thesis using \<open>ok\<close> by (simp add: ns'_def)
  qed
qed


section \<open>Removal\<close>

lemma owner_unknown:
  assumes "tree_ok h r" and "kids h d = Some (cs, m)" and "m x = Some c" and "cells h c = Some n"
  shows "may_access visitor n"
proof -
  have "child h d x = Some c" using assms(2,3) by (simp add: child_kids)
  with child_not_root assms(1) have "c \<noteq> r" by blast
  with tree_okD(2) [OF assms(1,4)] show ?thesis by (simp add: owned_ok_def may_access_def)
qed

text \<open>No path leads below a node without children.\<close>

definition has_children :: "fs_namespace \<Rightarrow> string list \<Rightarrow> bool" where
  "has_children ns p \<longleftrightarrow> (\<exists>x. view ns (p @ [x]) \<noteq> None)"

lemma has_children_kids:
  assumes t: "tree_ok (fs_heap ns) (fs_root ns)" and "walk (fs_heap ns) (fs_root ns) p = Some c"
  shows "\<not> has_children ns p \<longleftrightarrow> kids (fs_heap ns) c = None \<or> (\<exists>m. kids (fs_heap ns) c = Some ([], m))"
proof -
  have "has_children ns p \<longleftrightarrow> (\<exists>x. child (fs_heap ns) c x \<noteq> None)"
    using heap_view_none [OF t] assms(2)
    by (auto simp: has_children_def view_def walk_append split: option.splits)
  also have "\<dots> \<longleftrightarrow> (\<exists>cs m. kids (fs_heap ns) c = Some (cs, m) \<and> cs \<noteq> [])"
  proof (cases "kids (fs_heap ns) c")
    case (Some km)
    obtain cs m where k: "kids (fs_heap ns) c = Some (cs, m)" using Some by (cases km) auto
    have "(\<exists>x. m x \<noteq> None) \<longleftrightarrow> cs \<noteq> []"
      using kids_members(2,3) [OF t k] by (metis list.set_intros(1) neq_Nil_conv not_Some_eq
          empty_iff list.set(1))
    with k show ?thesis by (simp add: child_kids)
  qed (simp add: child_def)
  finally show ?thesis by (cases "kids (fs_heap ns) c") auto
qed

lemma remove_if_spec:
  fixes recursive :: bool
  assumes wf: "fs_wf ns" and names: "SplitPath path \<noteq> []"
    and wanted: "\<And>n. (wanted n \<longleftrightarrow> kind_view n = v \<and> may_access visitor n)"
  defines "ok \<equiv> view ns (SplitPath path) = Some v \<and> last (SplitPath path) \<noteq> [] \<and>
    (recursive \<or> \<not> has_children ns (SplitPath path))"
  shows "\<exists>ns'. remove_if wanted recursive path ns = Inr (ok, ns') \<and> fs_wf ns' \<and> same_frame ns ns' \<and>
    view ns' = (if ok then (\<lambda>p. if prefix (SplitPath path) p then None else view ns p) else view ns)"
  using wf names
proof (cases rule: parent_folder_cases)
  case missing
  with wf show ?thesis by (simp add: remove_if_def ok_def)
next
  case (found d cs m)
  let ?x = "last (SplitPath path)" and ?q = "butlast (SplitPath path)"
  have t: "tree_ok (fs_heap ns) (fs_root ns)" using wf by (simp add: fs_wf_def)
  have get: "GetChild ?x d (fs_heap ns) = Inr (m ?x)"
    using found(4) by (simp add: GetChild_child child_kids)
  show ?thesis
  proof (cases "m ?x")
    case None
    then have "view ns (SplitPath path) = None"
      using found(5) heap_view_none [OF t, of "SplitPath path"] by (simp add: view_def)
    then have "\<not> ok" by (simp add: ok_def)
    with None get found(2) wf show ?thesis by (simp add: remove_if_def)
  next
    case (Some c)
    then obtain n where n: "cells (fs_heap ns) c = Some n"
      using kids_members(3) [OF t found(4)] by blast
    have w: "wanted n \<longleftrightarrow> kind_view n = v"
      using wanted owner_unknown [OF t found(4) Some n] by simp
    have v: "view ns (SplitPath path) = Some (kind_view n)"
      using found(5) Some n by (simp add: view_def heap_view_def)
    have leaf: "\<not> has_children ns (SplitPath path) \<longleftrightarrow>
        kids (fs_heap ns) c = None \<or> (\<exists>m. kids (fs_heap ns) c = Some ([], m))"
      using has_children_kids [OF t] found(5) Some by simp
    have del: "DeleteChild ?x recursive d (fs_heap ns) =
        (if recursive \<or> \<not> has_children ns (SplitPath path)
         then Inr (True, cut (fs_heap ns) d {c}) else Inr (False, fs_heap ns))"
      using DeleteChild_cut [OF t found(4) Some] DeleteChild_plain [OF t found(4) Some] leaf
      by (cases recursive) auto
    have run: "remove_if wanted recursive path ns =
        Inr (ok, if ok then ns\<lparr>fs_heap := cut (fs_heap ns) d {c}\<rparr> else ns)"
      using found(2) get Some n w v del by (auto simp: remove_if_def deref_def ok_def)
    have one: "{c} \<subseteq> set cs" using kids_members(3) [OF t found(4) Some] by simp
    have "?q @ [?x] = SplitPath path" using names by simp
    then have "view (ns\<lparr>fs_heap := cut (fs_heap ns) d {c}\<rparr>) =
        (\<lambda>p. if prefix (SplitPath path) p then None else view ns p)"
      using heap_view_cut [OF t found(3,4) Some] unfolding view_def by simp
    with run cut_tree_ok [OF t found(4) one] wf show ?thesis
      by (auto simp: fs_wf_def)
  qed
qed

lemma DeleteDir_spec:
  fixes recursive :: bool
  assumes "fs_wf ns" and "SplitPath path \<noteq> []"
  defines "ok \<equiv> view ns (SplitPath path) = Some V_dir \<and> last (SplitPath path) \<noteq> [] \<and>
    (recursive \<or> \<not> has_children ns (SplitPath path))"
  shows "\<exists>ns'. DeleteDir path visitor recursive ns = Inr (ok, ns') \<and> fs_wf ns' \<and> same_frame ns ns' \<and>
    view ns' = (if ok then (\<lambda>p. if prefix (SplitPath path) p then None else view ns p) else view ns)"
  unfolding ok_def DeleteDir_def
  by (rule remove_if_spec [OF assms(1,2), where visitor = visitor]) (simp add: kind_view_def)

lemma file_no_children:
  assumes "fs_wf ns" and "view ns p = Some V_file"
  shows "\<not> has_children ns p" and "prefix p q \<Longrightarrow> view ns q \<noteq> None \<Longrightarrow> q = p"
proof -
  have t: "tree_ok (fs_heap ns) (fs_root ns)" using assms(1) by (simp add: fs_wf_def)
  have strict: "\<not> strict_prefix p q" if "view ns q \<noteq> None" for q
    using heap_view_prefix [OF t, of q p] that assms(2) by (auto simp: view_def)
  then show "prefix p q \<Longrightarrow> view ns q \<noteq> None \<Longrightarrow> q = p"
    by (auto simp: strict_prefix_def)
  show "\<not> has_children ns p"
    unfolding has_children_def
  proof
    assume "\<exists>x. view ns (p @ [x]) \<noteq> None"
    then obtain x where "view ns (p @ [x]) \<noteq> None" by blast
    from strict [OF this] show False by (simp add: strict_prefix_def)
  qed
qed

lemma RemoveFile_spec:
  assumes "fs_wf ns" and "SplitPath path \<noteq> []"
  defines "ok \<equiv> view ns (SplitPath path) = Some V_file \<and> last (SplitPath path) \<noteq> []"
  shows "\<exists>ns'. RemoveFile path visitor ns = Inr (ok, ns') \<and> fs_wf ns' \<and> same_frame ns ns' \<and>
    view ns' = (if ok then (view ns)(SplitPath path := None) else view ns)"
proof -
  have "\<exists>ns'. RemoveFile path visitor ns = Inr (ok \<and> (False \<or> \<not> has_children ns (SplitPath path)), ns') \<and>
      fs_wf ns' \<and> same_frame ns ns' \<and>
      view ns' = (if ok \<and> (False \<or> \<not> has_children ns (SplitPath path))
        then (\<lambda>p. if prefix (SplitPath path) p then None else view ns p) else view ns)"
    unfolding ok_def RemoveFile_def conj_assoc
    by (rule remove_if_spec [OF assms(1,2), where visitor = visitor]) (simp add: kind_view_def IsFile_IsDir del: IsDir.simps IsFile.simps)
  moreover have "ok \<and> (False \<or> \<not> has_children ns (SplitPath path)) \<longleftrightarrow> ok"
    using file_no_children(1) [OF assms(1)] by (auto simp: ok_def)
  moreover have "(\<lambda>p. if prefix (SplitPath path) p then None else view ns p) = (view ns)(SplitPath path := None)" if ok
  proof
    fix p
    show "(if prefix (SplitPath path) p then None else view ns p) = ((view ns)(SplitPath path := None)) p"
      using file_no_children(2) [OF assms(1), of "SplitPath path" p] that
      by (cases "view ns p") (auto simp: ok_def)
  qed
  ultimately show ?thesis by (cases ok) auto
qed


section \<open>Making directories\<close>

text \<open>The view after all directories from \<open>q\<close> down to \<open>q @ xs\<close> exist.\<close>

definition with_dirs ::
  "string list \<Rightarrow> string list \<Rightarrow> (string list \<Rightarrow> node_view option) \<Rightarrow> string list \<Rightarrow> node_view option"
where
  "with_dirs q xs V = (\<lambda>p. if \<exists>s. prefix s xs \<and> p = q @ s then Some V_dir else V p)"

lemma with_dirs_Nil: "V q = Some V_dir \<Longrightarrow> with_dirs q [] V = V"
  by (auto simp: with_dirs_def fun_eq_iff)

lemma with_dirs_step:
  assumes "V q = Some V_dir"
  shows "with_dirs (q @ [x]) xs (V(q @ [x] \<mapsto> V_dir)) = with_dirs q (x # xs) V"
proof
  fix p
  have "(\<exists>s. prefix s (x # xs) \<and> p = q @ s) \<longleftrightarrow> p = q \<or> (\<exists>s. prefix s xs \<and> p = q @ x # s)"
    by (auto simp: prefix_Cons)
  then show "with_dirs (q @ [x]) xs (V(q @ [x] \<mapsto> V_dir)) p = with_dirs q (x # xs) V p"
    using assms by (auto simp: with_dirs_def)
qed

lemma with_dirs_existing:
  assumes "V q = Some V_dir" and "V (q @ [x]) = Some V_dir"
  shows "with_dirs (q @ [x]) xs V = with_dirs q (x # xs) V"
proof -
  have "V(q @ [x] \<mapsto> V_dir) = V" using assms(2) by (simp add: fun_upd_idem)
  with with_dirs_step [of V q x xs] assms(1) show ?thesis by simp
qed

text \<open>The loop reaches a file on its way exactly when a node on the path is one.\<close>

definition blocked :: "string list \<Rightarrow> string list \<Rightarrow> (string list \<Rightarrow> node_view option) \<Rightarrow> bool" where
  "blocked q xs V \<longleftrightarrow> (\<exists>s. prefix s xs \<and> V (q @ s) = Some V_file)"

lemma blocked_Nil: "V q = Some V_dir \<Longrightarrow> \<not> blocked q [] V"
  by (simp add: blocked_def)

lemma blocked_step:
  "V q = Some V_dir \<Longrightarrow> blocked q (x # xs) V \<longleftrightarrow> blocked (q @ [x]) xs V"
  by (auto simp: blocked_def prefix_Cons)

lemma heap_view_missing:
  assumes "tree_ok h r" and "heap_view h r q = None"
  shows "heap_view h r (q @ s) = None"
proof (rule ccontr)
  assume some: "heap_view h r (q @ s) \<noteq> None"
  with assms(2) have "strict_prefix q (q @ s)" by (auto simp: strict_prefix_def)
  with heap_view_prefix [OF assms(1) some] assms(2) show False by simp
qed

lemma not_blocked_missing:
  assumes "tree_ok h r" and "heap_view h r q = None"
  shows "\<not> blocked q xs (heap_view h r)"
  using heap_view_missing [OF assms] by (simp add: blocked_def)

lemma not_blocked_new:
  assumes "tree_ok h r" and "heap_view h r q = None"
  shows "\<not> blocked q xs ((heap_view h r)(q \<mapsto> V_dir))"
  using heap_view_missing [OF assms] by (auto simp: blocked_def)

text \<open>
  The outcome of the loop from the directory at \<open>q\<close>: blocked by a file; or it leaves the loop
  with all directories in place, and with \<open>new_dir = 0\<close>; or, without \<open>make_parents\<close>, it
  returns false at the first missing parent, with nothing changed.  A level can only be
  missing when \<open>new_dir\<close> is set if the current directory is new and so has no children.
\<close>

text \<open>What the loop over the names \<open>xs\<close> does, from the directory under \<open>q\<close>.\<close>

definition mkdir_loop_ok ::
  "bool \<Rightarrow> string list \<Rightarrow> string list \<Rightarrow> heap \<Rightarrow> addr \<Rightarrow> mkdir_exit outcome \<Rightarrow> bool" where
  "mkdir_loop_ok make_parents q xs h r res \<longleftrightarrow>
     (if blocked q xs (heap_view h r) then res = Inl Bad_cast
      else if make_parents \<or> xs = [] \<or> heap_view h r (q @ butlast xs) = Some V_dir
      then \<exists>i a h'. res = Inr (Left_loop i a 0 h') \<and> tree_ok h' r \<and> heap_view h' r = with_dirs q xs (heap_view h r)
      else res = Inr (Returned_false h))"

text \<open>A name that is a file of the directory.\<close>

lemma MakeDir_loop_file:
  assumes t: "tree_ok h r" and q: "walk h r q = Some a" and k: "kids h a = Some (cs, m)"
    and c: "m x = Some c" "kids h c = None"
  shows "mkdir_loop_ok make_parents q (x # xs) h r (MakeDir_loop now make_parents i (x # xs) a new_dir h)"
proof -
  have "walk h r (q @ [x]) = Some c" using q k c by (simp add: walk_append child_kids)
  then have "heap_view h r (q @ [x]) = Some V_file" using heap_view_file [OF t, of "q @ [x]"] c(2) by auto
  then have "blocked q (x # xs) (heap_view h r)" by (auto simp: blocked_def intro!: exI [of _ "[x]"])
  moreover obtain nc where "cells h c = Some nc" using kids_members(3) [OF t k c(1)] by blast
  with c(2) have "dir_at c h = Inl Bad_cast"
    by (auto simp: dir_at_def deref_def kids_def split: inode_kind.splits)
  ultimately show ?thesis using k c(1) by (simp add: mkdir_loop_ok_def GetChild_child child_kids)
qed

text \<open>A name that is a directory of the directory: the loop goes on in it.\<close>

lemma MakeDir_loop_enter:
  assumes t: "tree_ok h r" and q: "walk h r q = Some a" and k: "kids h a = Some (cs, m)"
    and c: "m x = Some c" "kids h c \<noteq> None"
    and rest: "mkdir_loop_ok make_parents (q @ [x]) xs h r (MakeDir_loop now make_parents (Suc i) xs c new_dir h)"
  shows "mkdir_loop_ok make_parents q (x # xs) h r (MakeDir_loop now make_parents i (x # xs) a new_dir h)"
proof -
  have qdir: "heap_view h r q = Some V_dir" using t q k by (auto simp: heap_view_dir)
  have "walk h r (q @ [x]) = Some c" using q k c by (simp add: walk_append child_kids)
  then have cdir: "heap_view h r (q @ [x]) = Some V_dir" using heap_view_dir [OF t, of "q @ [x]"] c(2) by auto
  obtain km where "dir_at c h = Inr km" using c(2) dir_at_kids by fastforce
  then have run: "MakeDir_loop now make_parents i (x # xs) a new_dir h = MakeDir_loop now make_parents (Suc i) xs c new_dir h"
    using k c(1) by (simp add: GetChild_child child_kids)
  have butl: "heap_view h r (q @ butlast (x # xs)) = Some V_dir \<longleftrightarrow>
      xs = [] \<or> heap_view h r ((q @ [x]) @ butlast xs) = Some V_dir"
    using qdir by simp
  show ?thesis
    using rest
    unfolding mkdir_loop_ok_def run blocked_step [of "heap_view h r" q x xs, OF qdir] butl
      with_dirs_existing [of "heap_view h r" q x xs, OF qdir cdir]
    by (simp only: list.distinct simp_thms)
qed

text \<open>A name that is missing: a new directory, and the loop goes on in it unless it was the last name.\<close>

lemma MakeDir_loop_make:
  assumes t: "tree_ok h r" and q: "walk h r q = Some a" and k: "kids h a = Some (cs, m)"
    and x: "m x = None" "CHR ''/'' \<notin> set x" and mp: "xs = [] \<or> make_parents"
    and rest: "\<And>h' c j nd. xs \<noteq> [] \<Longrightarrow> tree_ok h' r \<Longrightarrow> walk h' r (q @ [x]) = Some c \<Longrightarrow> kids h' c = Some ([], Map.empty) \<Longrightarrow>
      mkdir_loop_ok make_parents (q @ [x]) xs h' r (MakeDir_loop now make_parents j xs c nd h')"
  shows "mkdir_loop_ok make_parents q (x # xs) h r (MakeDir_loop now make_parents i (x # xs) a new_dir h)"
proof -
  let ?n = "new_INodeDirectory now x (Some a)" and ?c = "next_addr h"
  let ?h = "insert_child a ?n h"
  have qdir: "heap_view h r q = Some V_dir" using t q k by (auto simp: heap_view_dir)
  have "walk h r (q @ [x]) = None" using q k x(1) by (simp add: walk_append child_kids)
  then have missing: "heap_view h r (q @ [x]) = None" using heap_view_none [OF t, of "q @ [x]"] by simp
  have free: "\<not> blocked q (x # xs) (heap_view h r)"
    unfolding blocked_step [of "heap_view h r" q x xs, OF qdir] by (rule not_blocked_missing [OF t missing])
  have get: "GetChild x a h = Inr None" using k x(1) by (simp add: GetChild_child child_kids)
  have n: "i_name ?n = x" "kind_view ?n = V_dir"
    by (simp_all add: new_INodeDirectory_def new_INode_def kind_view_def)
  have leaf: "leaf_node a ?n" by (rule leaf_new_nodes(2) [OF x(2)])
  have new: "m (i_name ?n) = None" using x(1) n by simp
  have made: "node_CreateDir now x a h = Inr (Some ?c, ?h)" by (rule node_CreateDir_new [OF t k x(1)])
  have t': "tree_ok ?h r" by (rule insert_child_tree_ok [OF t k leaf new])
  have v': "heap_view ?h r = (heap_view h r)(q @ [x] \<mapsto> V_dir)"
    using heap_view_insert [OF t q k leaf new] n by simp
  show ?thesis
  proof (cases "xs = []")
    case True
    then have "MakeDir_loop now make_parents i (x # xs) a new_dir h = Inr (Left_loop (Suc i) a 0 ?h)"
      using get made by simp
    moreover have "heap_view ?h r = with_dirs q [x] (heap_view h r)"
      using with_dirs_step [of "heap_view h r" q x "[]", OF qdir] by (simp add: v' with_dirs_Nil)
    ultimately show ?thesis using free t' True qdir by (simp add: mkdir_loop_ok_def)
  next
    case False
    have d: "a < ?c" by (rule dir_not_fresh [OF t k])
    have kc: "kids ?h ?c = Some ([], Map.empty)"
      using insert_child_kids [OF k d, of ?n ?c] d by (simp add: new_INodeDirectory_def new_INode_def)
    have wc: "walk ?h r (q @ [x]) = Some ?c"
      using insert_child_walk [OF t k leaf new root_cell [OF t], of "q @ [x]"] q n by auto
    have run: "MakeDir_loop now make_parents i (x # xs) a new_dir h =
        MakeDir_loop now make_parents (Suc i) xs ?c (if new_dir = 0 then i else new_dir) ?h"
      using get made False mp by simp
    have "\<not> blocked (q @ [x]) xs (heap_view ?h r)" unfolding v' by (rule not_blocked_new [OF t missing])
    with rest [OF False t' wc kc, of "Suc i" "if new_dir = 0 then i else new_dir"] mp False free show ?thesis
      unfolding run mkdir_loop_ok_def with_dirs_step [of "heap_view h r" q x xs, OF qdir] v' by simp
  qed
qed

lemma MakeDir_loop_correct:
  assumes "tree_ok h r" and "walk h r q = Some a" and "kids h a \<noteq> None"
    and "\<forall>x \<in> set xs. CHR ''/'' \<notin> set x"
    and "new_dir = 0 \<or> (xs \<noteq> [] \<and> kids h a = Some ([], Map.empty))"
  shows "mkdir_loop_ok make_parents q xs h r (MakeDir_loop now make_parents i xs a new_dir h)"
  using assms
proof (induction xs arbitrary: q a i new_dir h)
  case Nil
  then have "heap_view h r q = Some V_dir" by (simp add: heap_view_dir)
  with Nil show ?case by (simp add: mkdir_loop_ok_def blocked_Nil with_dirs_Nil)
next
  case (Cons x xs)
  note t = Cons.prems(1) and q = Cons.prems(2)
  obtain cs m where k: "kids h a = Some (cs, m)" using Cons.prems(3) by auto
  have plain: "CHR ''/'' \<notin> set x" "\<forall>x \<in> set xs. CHR ''/'' \<notin> set x" using Cons.prems(4) by simp_all
  show ?case
  proof (cases "m x")
    case (Some c)
    then have zero: "new_dir = 0" using Cons.prems(5) k by auto
    have "walk h r (q @ [x]) = Some c" using q k Some by (simp add: walk_append child_kids)
    from MakeDir_loop_file [OF t q k Some] MakeDir_loop_enter [OF t q k Some _ Cons.IH [OF t this _ plain(2) disjI1 [OF zero]]]
    show ?thesis by (cases "kids h c") simp_all
  next
    case None
    have walk: "walk h r (q @ [x]) = None" using q k None by (simp add: walk_append child_kids)
    show ?thesis
    proof (cases "xs = [] \<or> make_parents")
      case True
      show ?thesis
        by (rule MakeDir_loop_make [OF t q k None plain(1) True]) (intro Cons.IH plain(2); simp)
    next
      case False
      have qdir: "heap_view h r q = Some V_dir" using t q k by (auto simp: heap_view_dir)
      have missing: "heap_view h r (q @ [x]) = None" using walk heap_view_none [OF t, of "q @ [x]"] by simp
      have "\<not> blocked q (x # xs) (heap_view h r)"
        unfolding blocked_step [of "heap_view h r" q x xs, OF qdir] by (rule not_blocked_missing [OF t missing])
      moreover have "heap_view h r (q @ butlast (x # xs)) = None"
        using False heap_view_missing [OF t missing, of "butlast xs"] by simp
      ultimately show ?thesis using False None k by (simp add: mkdir_loop_ok_def GetChild_child child_kids)
    qed
  qed
qed

lemmas MakeDir_loop_spec = MakeDir_loop_correct [unfolded mkdir_loop_ok_def]


text \<open>
  \<open>MakeDir\<close> as a whole.  The branch behind the loop that removes what was created is never
  taken: the loop always leaves with \<open>new_dir = 0\<close>.
\<close>

lemma MakeDir_spec:
  fixes path :: string
  assumes wf: "fs_wf ns"
  defines "names \<equiv> SplitPath path"
  shows "if \<exists>p. prefix p names \<and> view ns p = Some V_file
    then MakeDir now path owner make_parents ns = Inl Bad_cast
    else if make_parents \<or> names = [] \<or> view ns (butlast names) = Some V_dir
    then \<exists>ns'. MakeDir now path owner make_parents ns = Inr (True, ns') \<and> fs_wf ns' \<and> same_frame ns ns' \<and>
      view ns' = (\<lambda>p. if prefix p names then Some V_dir else view ns p)
    else MakeDir now path owner make_parents ns = Inr (False, ns)"
proof -
  have t: "tree_ok (fs_heap ns) (fs_root ns)" using wf by (simp add: fs_wf_def)
  have root: "kids (fs_heap ns) (fs_root ns) \<noteq> None"
    by (rule root_dir [OF t]) simp
  have "\<forall>x \<in> set names. CHR ''/'' \<notin> set x" using SplitPath_names by (auto simp: names_def)
  note loop = MakeDir_loop_spec [OF t walk.simps(1) root this disjI1 [OF refl],
      of now make_parents 0, folded view_def, simplified append_Nil]
  have blocked: "blocked [] names (view ns) \<longleftrightarrow> (\<exists>p. prefix p names \<and> view ns p = Some V_file)"
    by (simp add: blocked_def)
  have dirs: "with_dirs [] names (view ns) = (\<lambda>p. if prefix p names then Some V_dir else view ns p)"
    by (simp add: with_dirs_def fun_eq_iff)
  show ?thesis
  proof (cases "blocked [] names (view ns)")
    case True
    with loop blocked show ?thesis by (simp add: MakeDir_def names_def [symmetric])
  next
    case free: False
    show ?thesis
    proof (cases "make_parents \<or> names = [] \<or> view ns (butlast names) = Some V_dir")
      case True
      with loop free obtain i a h where
        run: "MakeDir_loop now make_parents 0 names (fs_root ns) 0 (fs_heap ns) = Inr (Left_loop i a 0 h)"
        and h: "tree_ok h (fs_root ns)" "heap_view h (fs_root ns) = with_dirs [] names (view ns)"
        by auto
      have "MakeDir now path owner make_parents ns = Inr (True, ns\<lparr>fs_heap := h\<rparr>)"
        using run by (simp add: MakeDir_def names_def [symmetric])
      moreover have "fs_wf (ns\<lparr>fs_heap := h\<rparr>)" using h(1) by (simp add: fs_wf_def)
      moreover have "view (ns\<lparr>fs_heap := h\<rparr>) = (\<lambda>p. if prefix p names then Some V_dir else view ns p)"
        using h(2) unfolding dirs by (simp add: view_def)
      ultimately show ?thesis using True free unfolding blocked by (auto intro: same_frame_refl)
    next
      case False
      with loop free have "MakeDir_loop now make_parents 0 names (fs_root ns) 0 (fs_heap ns) =
          Inr (Returned_false (fs_heap ns))" by simp
      then have "MakeDir now path owner make_parents ns = Inr (False, ns)"
        by (simp add: MakeDir_def names_def [symmetric])
      with False free show ?thesis unfolding blocked by simp
    qed
  qed
qed


section \<open>Listings and file information\<close>

lemma each_name:
  assumes "\<And>c. c \<in> set cs \<Longrightarrow> cells h c = Some (node_of c)"
  shows "each_outcome (\<lambda>c. and_then (deref c h) (\<lambda>n. Inr (i_name n))) cs =
    Inr (map (\<lambda>c. i_name (node_of c)) cs)"
  using assms by (induction cs) (auto simp: deref_def)

lemma ListDirName_spec:
  assumes t: "tree_ok h r" and w: "walk h r p = Some d" and k: "kids h d = Some (cs, m)"
  shows "\<exists>names. ListDirName d h = Inr names \<and> distinct names \<and>
    set names = {x. heap_view h r (p @ [x]) \<noteq> None}"
proof -
  let ?node = "\<lambda>c. the (cells h c)" and ?names = "map (\<lambda>c. i_name (the (cells h c))) cs"
  have cell: "cells h c = Some (?node c)" and name: "m (i_name (?node c)) = Some c" if "c \<in> set cs" for c
    using kids_members(2) [OF t k that] by auto
  have "ListDirName d h = Inr ?names"
    using each_name [of cs h ?node] cell by (simp add: ListDirName_def dir_at_kids [OF k])
  moreover have "inj_on (\<lambda>c. i_name (?node c)) (set cs)"
  proof (rule inj_onI)
    fix b c assume "b \<in> set cs" "c \<in> set cs" and same: "i_name (?node b) = i_name (?node c)"
    with name have "m (i_name (?node b)) = Some b" "m (i_name (?node c)) = Some c" by blast+
    then show "b = c" unfolding same by simp
  qed
  then have "distinct ?names" using kids_members(1) [OF t k] by (simp add: distinct_map)
  moreover have "set ?names = {x. heap_view h r (p @ [x]) \<noteq> None}"
  proof -
    have "x \<in> set ?names \<longleftrightarrow> m x \<noteq> None" for x
    proof
      assume "m x \<noteq> None"
      then obtain c where "m x = Some c" by auto
      with kids_members(3) [OF t k this] show "x \<in> set ?names" by force
    qed (use name in auto)
    then show ?thesis
      using heap_view_none [OF t] w by (auto simp: walk_append child_kids [OF k] split: option.splits)
  qed
  ultimately show ?thesis by blast
qed

text \<open>
  Which directory a listing shows: the last name is dropped when it is empty, as after a
  trailing slash.
\<close>

definition listed :: "string \<Rightarrow> string list" where
  "listed path = (if last (SplitPath path) = [] then butlast (SplitPath path) else SplitPath path)"

lemma ListDir_spec:
  assumes wf: "fs_wf ns" and names: "SplitPath path \<noteq> []"
  shows "case view ns (listed path) of
      Some V_dir \<Rightarrow> \<exists>xs. ListDir path ns = Inr xs \<and> distinct xs \<and>
        set xs = {x. view ns (listed path @ [x]) \<noteq> None}
    | Some V_file \<Rightarrow> ListDir path ns = (if last (SplitPath path) = [] then Inr [] else Inl Bad_cast)
    | None \<Rightarrow> ListDir path ns = Inr []"
  using wf names
proof (cases rule: parent_folder_cases)
  case missing
  then show ?thesis
    by (auto simp: ListDir_def listed_def split: option.splits node_view.splits)
next
  case (found d cs m)
  have t: "tree_ok (fs_heap ns) (fs_root ns)" using wf by (simp add: fs_wf_def)
  let ?x = "last (SplitPath path)"
  show ?thesis
  proof (cases "?x = []")
    case True
    then have "ListDir path ns = ListDirName d (fs_heap ns)" using found(2) by (simp add: ListDir_def)
    with True found ListDirName_spec [OF t found(3,4)] show ?thesis
      by (simp add: listed_def view_def)
  next
    case False
    have get: "GetChild ?x d (fs_heap ns) = Inr (m ?x)"
      using found(4) by (simp add: GetChild_child child_kids)
    show ?thesis
    proof (cases "m ?x")
      case None
      then have "view ns (SplitPath path) = None"
        using found(5) heap_view_none [OF t, of "SplitPath path"] by (simp add: view_def)
      with False None get found(2) show ?thesis by (simp add: ListDir_def listed_def)
    next
      case (Some c)
      then have w: "walk (fs_heap ns) (fs_root ns) (SplitPath path) = Some c" using found(5) by simp
      have run: "ListDir path ns = ListDirName c (fs_heap ns)"
        using False Some get found(2) by (simp add: ListDir_def)
      show ?thesis
      proof (cases "kids (fs_heap ns) c")
        case None
        obtain n where "cells (fs_heap ns) c = Some n" using kids_members(3) [OF t found(4) Some] by blast
        with None have "ListDirName c (fs_heap ns) = Inl Bad_cast"
          by (auto simp: ListDirName_def dir_at_def deref_def kids_def split: inode_kind.splits)
        moreover have "view ns (SplitPath path) = Some V_file"
          using heap_view_file [OF t] w None by (simp add: view_def)
        ultimately show ?thesis using run False by (simp add: listed_def)
      next
        case (Some km)
        obtain cs' m' where k: "kids (fs_heap ns) c = Some (cs', m')" using Some by (cases km) auto
        have "view ns (SplitPath path) = Some V_dir"
          using heap_view_dir [OF t] w k by (simp add: view_def)
        with ListDirName_spec [OF t w k] run False show ?thesis by (simp add: listed_def view_def)
      qed
    qed
  qed
qed


text \<open>
  The climb from a file to the root rebuilds its path: every name on the way has no slash, so
  only the root calls itself the root.
\<close>

lemma not_IsRoot:
  assumes "tree_ok h r" and "cells h a = Some n" and "a \<noteq> r"
  shows "\<not> IsRoot n"
  using tree_okD(2) [OF assms] by (auto simp: owned_ok_def IsRoot_def)

lemma climb_walk:
  assumes t: "tree_ok h r"
  shows "walk h r p = Some a \<Longrightarrow> length p < f \<Longrightarrow>
    climb f (Some a) path h = Inr (CHR ''/'' # join_slash (p @ [path]))"
proof (induction p arbitrary: a f path rule: rev_induct)
  case Nil
  obtain n where n: "cells h r = Some n" "IsRoot n" "i_name n = ''/''"
    using t by (auto simp: tree_ok_def IsRoot_def)
  from Nil n show ?case by (cases f) (auto simp: deref_def)
next
  case (snoc x p)
  then obtain b where b: "walk h r p = Some b" "child h b x = Some a"
    unfolding walk_snoc by blast
  obtain k where k: "cells h a = Some k" "i_name k = x" "i_parent k = Some b"
    using t b(2) by (rule child_node)
  have "\<not> IsRoot k" using not_IsRoot [OF t k(1)] child_not_root [OF t b(2)] by simp
  moreover obtain f' where f: "f = Suc f'" using snoc.prems by (cases f) auto
  moreover have "join_slash (p @ [x @ ''/'' @ path]) = join_slash (p @ [x, path])"
    by (induction p rule: join_slash.induct) (auto simp: neq_Nil_conv)
  ultimately show ?case
    using snoc.IH [OF b(1), of f' "x @ ''/'' @ path"] snoc.prems k by (simp add: deref_def)
qed

lemma walk_length:
  assumes t: "tree_ok h r"
  shows "walk h a p = Some b \<Longrightarrow> cells h a \<noteq> None \<Longrightarrow> a + length p \<le> b"
proof (induction p arbitrary: a)
  case (Cons x p)
  then obtain c where c: "child h a x = Some c" "walk h c p = Some b"
    by (auto split: option.splits)
  obtain k where "cells h c = Some k" "a < c" using t c(1) by (rule child_node)
  with Cons.IH [OF c(2)] show ?case by simp
qed simp

text \<open>\<open>ToFileInfo\<close> climbs to the root and finds the path of a file again.\<close>

lemma ToFileInfo_file:
  assumes t: "tree_ok h r" and q: "walk h r q = Some d" and k: "kids h d = Some (cs, m)"
    and c: "child h d x = Some c" and n: "cells h c = Some n" and kind: "i_kind n = File_node sz"
  shows "\<exists>info. ToFileInfo c h = Inr info \<and> fi_path info = CHR ''/'' # join_slash (q @ [x]) \<and> fi_creator info = ''unknown''"
proof -
  obtain n' where "cells h c = Some n'" "i_name n' = x" "i_parent n' = Some d"
    using t c by (rule child_node)
  with n have n': "i_name n = x" "i_parent n = Some d" by simp_all
  have "length q \<le> d" using walk_length [OF t q root_cell [OF t]] by simp
  also have "d < next_addr h" by (rule dir_not_fresh [OF t k])
  finally have "climb (Suc (next_addr h)) (Some d) x h = Inr (CHR ''/'' # join_slash (q @ [x]))"
    by (intro climb_walk [OF t q]) simp
  moreover have "i_owner n = ''unknown''"
    using tree_okD(2) [OF t n] child_not_root [OF t c] by (simp add: owned_ok_def)
  ultimately show ?thesis using n n' kind by (simp add: ToFileInfo_def deref_def)
qed

lemma GetFileInfo_spec:
  assumes wf: "fs_wf ns" and path: "ValidatePath path"
  defines "names \<equiv> SplitPath path"
  shows "if view ns (butlast names) \<noteq> Some V_dir \<or> last names = [] then GetFileInfo path ns = Inr (True, None)
    else case view ns names of
      None \<Rightarrow> GetFileInfo path ns = Inr (False, None)
    | Some V_dir \<Rightarrow> GetFileInfo path ns = Inl Bad_cast
    | Some V_file \<Rightarrow> \<exists>info. GetFileInfo path ns = Inr (True, Some info) \<and> fi_path info = path \<and>
        fi_creator info = ''unknown''"
proof -
  have t: "tree_ok (fs_heap ns) (fs_root ns)" using wf by (simp add: fs_wf_def)
  have names: "SplitPath path \<noteq> []" and path_eq: "path = CHR ''/'' # join_slash (SplitPath path)"
    using valid_path_split [OF path] by blast+
  show ?thesis
    using wf names
  proof (cases rule: parent_folder_cases)
    case missing
    then show ?thesis by (simp add: GetFileInfo_def names_def)
  next
    case (found d cs m)
    let ?x = "last (SplitPath path)" and ?q = "butlast (SplitPath path)"
    have get: "GetChild ?x d (fs_heap ns) = Inr (m ?x)"
      using found(4) by (simp add: GetChild_child child_kids)
    show ?thesis
    proof (cases "?x = [] \<or> m ?x = None")
      case True
      then have "?x \<noteq> [] \<Longrightarrow> view ns (SplitPath path) = None"
        using found(5) heap_view_none [OF t, of "SplitPath path"] by (simp add: view_def)
      with True get found(1,2) show ?thesis by (auto simp: GetFileInfo_def names_def)
    next
      case False
      then obtain c where c: "m ?x = Some c" by auto
      have ch: "child (fs_heap ns) d ?x = Some c" using c found(4) by (simp add: child_kids)
      obtain n where n: "cells (fs_heap ns) c = Some n" "i_name n = ?x" "i_parent n = Some d"
        using t ch by (rule child_node)
      have v: "view ns (SplitPath path) = Some (kind_view n)"
        using found(5) c n by (simp add: view_def heap_view_def)
      have run: "GetFileInfo path ns = and_then (ToFileInfo c (fs_heap ns)) (\<lambda>info. Inr (True, Some info))"
        using False c get found(2) by (simp add: GetFileInfo_def)
      show ?thesis
      proof (cases "i_kind n")
        case (Dir_node cs' m')
        then have "kind_view n = V_dir" "ToFileInfo c (fs_heap ns) = Inl Bad_cast"
          using n by (simp_all add: kind_view_def ToFileInfo_def deref_def)
        with run v False found(1) show ?thesis by (simp add: names_def)
      next
        case (File_node sz)
        have "?q @ [?x] = SplitPath path" using names by simp
        with ToFileInfo_file [OF t found(3,4) ch n(1) File_node] path_eq
        have "\<exists>info. ToFileInfo c (fs_heap ns) = Inr info \<and> fi_path info = path \<and> fi_creator info = ''unknown''"
          by simp
        moreover have "kind_view n = V_file" using File_node by (simp add: kind_view_def)
        ultimately show ?thesis using run v False found(1) by (auto simp: names_def)
      qed
    qed
  qed
qed


section \<open>States a name space can reach\<close>

text \<open>
  Every node of the heap is on a path from the root: nothing that was created is leaked, and
  by the invariant no directory holds a pointer to a freed node.
\<close>

lemma every_node_on_path:
  assumes t: "tree_ok h r"
  shows "cells h a \<noteq> None \<Longrightarrow> \<exists>p. walk h r p = Some a"
proof (induction a rule: less_induct)
  case (less a)
  then obtain n where n: "cells h a = Some n" by auto
  show ?case
  proof (cases "a = r")
    case False
    then obtain p cs m where p: "i_parent n = Some p" "kids h p = Some (cs, m)" "a \<in> set cs"
      using tree_okD(2) [OF t n] by (auto simp: owned_ok_def)
    have "p < a" using kids_members(2) [OF t p(2,3)] by simp
    moreover have "cells h p \<noteq> None" using p(2) by (auto simp: kids_cell)
    ultimately obtain q where "walk h r q = Some p" using less.IH by blast
    moreover obtain x where "child h p x = Some a" using member_child [OF t p(2,3)] by blast
    ultimately have "walk h r (q @ [x]) = Some a" by (simp add: walk_append)
    then show ?thesis by blast
  qed (auto intro: exI [of _ "[]"])
qed

lemma new_FSNamespace_wf: "fs_wf (new_FSNamespace now)"
  by (simp add: fs_wf_def tree_ok_def new_FSNamespace_def new_node_def set_node_at_def IsRoot_def
      new_INodeDirectory_owned_def new_INode_def node_ok_def Let_def)

lemma new_FSNamespace_view: "view (new_FSNamespace now) = [[] \<mapsto> V_dir]"
proof
  fix p
  have "child (fs_heap (new_FSNamespace now)) 0 x = None" for x
    by (simp add: child_def kids_def new_FSNamespace_def new_node_def set_node_at_def
        new_INodeDirectory_owned_def new_INode_def Let_def)
  moreover have "fs_root (new_FSNamespace now) = 0"
    by (simp add: new_FSNamespace_def new_node_def Let_def)
  ultimately show "view (new_FSNamespace now) p = [[] \<mapsto> V_dir] p"
    using heap_view_root [of "fs_heap (new_FSNamespace now)" 0] new_FSNamespace_wf [of now]
    by (cases p) (auto simp: view_def heap_view_def fs_wf_def)
qed

inductive fs_reachable :: "fs_namespace \<Rightarrow> bool" where
  fresh: "fs_reachable (new_FSNamespace now)"
| mkdir: "fs_reachable ns \<Longrightarrow> MakeDir now path owner make_parents ns = Inr (ok, ns') \<Longrightarrow> fs_reachable ns'"
| rmdir: "fs_reachable ns \<Longrightarrow> SplitPath path \<noteq> [] \<Longrightarrow> DeleteDir path visitor recursive ns = Inr (ok, ns') \<Longrightarrow>
    fs_reachable ns'"
| create: "fs_reachable ns \<Longrightarrow> SplitPath path \<noteq> [] \<Longrightarrow> CreateFile now path owner ns = Inr (ok, ns') \<Longrightarrow>
    fs_reachable ns'"
| remove: "fs_reachable ns \<Longrightarrow> SplitPath path \<noteq> [] \<Longrightarrow> RemoveFile path visitor ns = Inr (ok, ns') \<Longrightarrow>
    fs_reachable ns'"
| applied: "fs_reachable ns \<Longrightarrow> fs_reachable (SetCommitedIndex i ns)"

lemma MakeDir_wf:
  assumes "fs_wf ns" and "MakeDir now path owner make_parents ns = Inr (ok, ns')"
  shows "fs_wf ns'"
  using MakeDir_spec [OF assms(1), of path now owner make_parents] assms by (auto split: if_splits)

lemma fs_reachable_wf: "fs_reachable ns \<Longrightarrow> fs_wf ns"
proof (induction rule: fs_reachable.induct)
  case (fresh now)
  show ?case by (rule new_FSNamespace_wf)
next
  case (mkdir ns now path owner make_parents ok ns')
  with MakeDir_wf show ?case by blast
next
  case (rmdir ns path visitor recursive ok ns')
  with DeleteDir_spec [OF rmdir.IH rmdir.hyps(2), of visitor recursive] show ?case by auto
next
  case (create ns path now owner ok ns')
  with CreateFile_spec [OF create.IH create.hyps(2), of now owner] show ?case by auto
next
  case (remove ns path visitor ok ns')
  with RemoveFile_spec [OF remove.IH remove.hyps(2), of visitor] show ?case by auto
next
  case (applied ns i)
  then show ?case by (simp add: fs_wf_def SetCommitedIndex_def)
qed

end
