(* ===== verification/FS_Update.thy ===== *)
theory FS_Update
  imports FS_Spec Raft_Server
begin

text \<open>
  \<open>FSUpdateLoop\<close> of \<open>RaftConsensus\<close>: the thread that applies committed entries of the log to
  the name space.  One pass of its loop runs from the first entry that has not been applied
  to the commit index.  The clock is read for each entry; \<open>now i\<close> is the reading for entry
  \<open>i\<close>.  The pass looks at one state of the consensus object: the code reads it without the
  lock \<open>m\<close>.
\<close>

section \<open>One pass of the loop\<close>

definition OpToStr :: "meta_op \<Rightarrow> string" where
  "OpToStr op = (case op of
     kCreate \<Rightarrow> ''CreateFile'' | kDelete \<Rightarrow> ''DeleteFile'' | kMkdir \<Rightarrow> ''MKDir'' | kRmdir \<Rightarrow> ''RMDir''
   | kGetFileInfo \<Rightarrow> ''FileInfo'' | kListDir \<Rightarrow> ''ListDir'' | _ \<Rightarrow> ''Noop'')"

definition apply_entry :: "int \<Rightarrow> entry \<Rightarrow> fs_namespace \<Rightarrow> (bool option \<times> fs_namespace) outcome" where
  "apply_entry now e ns =
     (let returned = (\<lambda>r. and_then r (\<lambda>(rt, ns'). Inr (Some rt, ns'))) in
      case e_op e of
        kMkdir \<Rightarrow> returned (MakeDir now (e_value e) ''unknown'' True ns)
      | kRmdir \<Rightarrow> returned (DeleteDir (e_value e) ''unknown'' True ns)
      | kCreate \<Rightarrow> returned (CreateFile now (e_value e) ''unknown'' ns)
      | kDelete \<Rightarrow> returned (RemoveFile (e_value e) ''unknown'' ns)
      | _ \<Rightarrow> Inr (None, ns))"

definition may_apply :: "int \<Rightarrow> raft \<Rightarrow> bool" where
  "may_apply i st \<longleftrightarrow>
     (IsLeader st \<and> quorum_size st \<le> int (card (pending_entries st i))) \<or> IsFollower st"

function update_loop ::
  "raft \<Rightarrow> (int \<Rightarrow> int) \<Rightarrow> int \<Rightarrow> int \<Rightarrow> fs_namespace \<Rightarrow> (int \<times> fs_namespace) outcome"
where
  "update_loop st now i commited ns =
     (if i \<le> GetLastCommitIndex (raft_log st) \<and> may_apply i st
      then case GetEntry i (raft_log st) of
             None \<Rightarrow> Inl Null_dereference
           | Some e \<Rightarrow> and_then (apply_entry (now i) e ns) (\<lambda>(_, ns').
               update_loop st now (i + 1) i ns')
      else Inr (commited, ns))"
  by pat_completeness auto
termination
  by (relation "measure (\<lambda>(st, now, i, _). nat (GetLastCommitIndex (raft_log st) + 1 - i))") auto

declare update_loop.simps [simp del]

text \<open>The loop sleeps while the two indices agree; a pass starts with \<open>commited = 0\<close>.\<close>

definition must_update :: "raft \<Rightarrow> fs_namespace \<Rightarrow> bool" where
  "must_update st ns \<longleftrightarrow> GetLastCommitIndex (raft_log st) \<noteq> GetCommitedIndex ns"

definition FSUpdate_pass :: "raft \<Rightarrow> (int \<Rightarrow> int) \<Rightarrow> fs_namespace \<Rightarrow> fs_namespace outcome" where
  "FSUpdate_pass st now ns =
     (if must_update st ns
      then and_then (update_loop st now (GetCommitedIndex ns + 1) 0 ns) (\<lambda>(commited, ns').
           Inr (SetCommitedIndex commited ns'))
      else Inr ns)"


section \<open>Replicated state machines\<close>

text \<open>
  What a replica needs from the machine it drives: an abstract value of its state, a step
  of the specification on that value, and an implementation that follows the specification
  whatever else it reads (\<open>'t\<close>, here the clock).  \<open>None\<close> is the step that the
  implementation does not define.
\<close>

fun apply_all :: "('t \<Rightarrow> 'e \<Rightarrow> 's \<Rightarrow> ('r \<times> 's) outcome) \<Rightarrow> ('t \<times> 'e) list \<Rightarrow> 's \<Rightarrow> 's outcome" where
  "apply_all step [] s = Inr s"
| "apply_all step ((t, e) # es) s = and_then (step t e s) (\<lambda>(_, s'). apply_all step es s')"

fun spec_all :: "('e \<Rightarrow> 'v \<Rightarrow> 'v option) \<Rightarrow> 'e list \<Rightarrow> 'v \<Rightarrow> 'v option" where
  "spec_all spec [] v = Some v"
| "spec_all spec (e # es) v = (case spec e v of None \<Rightarrow> None | Some v' \<Rightarrow> spec_all spec es v')"

locale replicated_machine =
  fixes step :: "'t \<Rightarrow> 'e \<Rightarrow> 's \<Rightarrow> ('r \<times> 's) outcome"
    and value_of :: "'s \<Rightarrow> 'v"
    and spec :: "'e \<Rightarrow> 'v \<Rightarrow> 'v option"
    and inv :: "'s \<Rightarrow> bool"
  assumes undefined_step: "inv s \<Longrightarrow> spec e (value_of s) = None \<Longrightarrow> \<not> defined (step t e s)"
    and defined_step: "inv s \<Longrightarrow> spec e (value_of s) = Some v \<Longrightarrow>
      \<exists>r s'. step t e s = Inr (r, s') \<and> inv s' \<and> value_of s' = v"
begin

text \<open>A sequence of entries does what its specification says.\<close>

lemma apply_all_spec:
  "inv s \<Longrightarrow>
   (case spec_all spec (map snd es) (value_of s) of
      None \<Rightarrow> \<not> defined (apply_all step es s)
    | Some v \<Rightarrow> \<exists>s'. apply_all step es s = Inr s' \<and> inv s' \<and> value_of s' = v)"
proof (induction es arbitrary: s)
  case (Cons te es)
  obtain t e where te: "te = (t, e)" by fastforce
  show ?case
  proof (cases "spec e (value_of s)")
    case None
    with undefined_step [OF Cons.prems] have "\<not> defined (step t e s)" .
    then obtain u where "step t e s = Inl u" by (cases "step t e s") auto
    with None show ?thesis by (simp add: te)
  next
    case (Some v)
    with defined_step [OF Cons.prems this] obtain r s' where
      "step t e s = Inr (r, s')" "inv s'" "value_of s' = v" by blast
    with Some Cons.IH [of s'] show ?thesis by (simp add: te split: option.splits)
  qed
qed simp

text \<open>Two replicas that apply the same entries to equal values stay equal.\<close>

lemma replicas_agree:
  assumes "inv s" "inv u" and "value_of s = value_of u" and "map snd es = map snd fs"
  shows "defined (apply_all step es s) \<longleftrightarrow> defined (apply_all step fs u)"
    and "apply_all step es s = Inr s' \<Longrightarrow> apply_all step fs u = Inr u' \<Longrightarrow> value_of s' = value_of u'"
  using apply_all_spec [OF assms(1), of es] apply_all_spec [OF assms(2), of fs] assms(3,4)
  by (auto split: option.splits)

end


section \<open>The name space as a replicated machine\<close>

text \<open>What an entry does to the view of a name space.\<close>

definition apply_view ::
  "entry \<Rightarrow> (string list \<Rightarrow> node_view option) \<Rightarrow> (string list \<Rightarrow> node_view option) option"
where
  "apply_view e V =
     (let names = SplitPath (e_value e) in
      case e_op e of
        kMkdir \<Rightarrow>
          if list_ex (\<lambda>p. V p = Some V_file) (prefixes names) then None
          else Some (\<lambda>p. if prefix p names then Some V_dir else V p)
      | kRmdir \<Rightarrow>
          if names = [] then None
          else if V names = Some V_dir \<and> last names \<noteq> []
          then Some (\<lambda>p. if prefix names p then None else V p) else Some V
      | kCreate \<Rightarrow>
          if names = [] then None
          else if V (butlast names) = Some V_dir \<and> last names \<noteq> [] \<and> V names = None
          then Some (V(names \<mapsto> V_file)) else Some V
      | kDelete \<Rightarrow>
          if names = [] then None
          else if V names = Some V_file \<and> last names \<noteq> [] then Some (V(names := None)) else Some V
      | _ \<Rightarrow> Some V)"

lemma no_parent_folder: "SplitPath path = [] \<Longrightarrow> GetParentFolderAndChild path ns = Inl Index_out_of_range"
  by (auto simp: GetParentFolderAndChild_def SplitPath_root)

lemma apply_entry_undefined:
  assumes "fs_wf ns" and "apply_view e (view ns) = None"
  shows "\<not> defined (apply_entry now e ns)"
proof (cases "e_op e")
  case kMkdir
  with assms(2) have "\<exists>p. prefix p (SplitPath (e_value e)) \<and> view ns p = Some V_file"
    by (auto simp: apply_view_def list_ex_iff Let_def split: if_splits)
  with MakeDir_spec [OF assms(1), of "e_value e" now "''unknown''" True] kMkdir show ?thesis
    by (simp add: apply_entry_def)
qed (use assms(2) in \<open>auto simp: apply_view_def apply_entry_def DeleteDir_def CreateFile_def RemoveFile_def
      remove_if_def no_parent_folder Let_def split: if_splits\<close>)

lemma apply_entry_defined:
  assumes wf: "fs_wf ns" and spec: "apply_view e (view ns) = Some V"
  shows "\<exists>rt ns'. apply_entry now e ns = Inr (rt, ns') \<and> fs_wf ns' \<and> same_frame ns ns' \<and> view ns' = V"
proof (cases "e_op e")
  case kMkdir
  with spec have free: "\<not> (\<exists>p. prefix p (SplitPath (e_value e)) \<and> view ns p = Some V_file)"
    and V: "V = (\<lambda>p. if prefix p (SplitPath (e_value e)) then Some V_dir else view ns p)"
    by (auto simp: apply_view_def list_ex_iff Let_def split: if_splits)
  with MakeDir_spec [OF wf, of "e_value e" now "''unknown''" True]
  have "\<exists>ns'. MakeDir now (e_value e) ''unknown'' True ns = Inr (True, ns') \<and> fs_wf ns' \<and>
      same_frame ns ns' \<and> view ns' = V" by simp
  with kMkdir show ?thesis by (auto simp: apply_entry_def)
next
  case kRmdir
  with spec have "SplitPath (e_value e) \<noteq> []" by (auto simp: apply_view_def)
  from DeleteDir_spec [OF wf this, of "''unknown''" True] kRmdir spec show ?thesis
    by (auto simp: apply_entry_def apply_view_def Let_def split: if_splits)
next
  case kCreate
  with spec have "SplitPath (e_value e) \<noteq> []" by (auto simp: apply_view_def)
  from CreateFile_spec [OF wf this, of now "''unknown''"] kCreate spec show ?thesis
    by (auto simp: apply_entry_def apply_view_def Let_def split: if_splits)
next
  case kDelete
  with spec have "SplitPath (e_value e) \<noteq> []" by (auto simp: apply_view_def)
  from RemoveFile_spec [OF wf this, of "''unknown''"] kDelete spec show ?thesis
    by (auto simp: apply_entry_def apply_view_def Let_def split: if_splits)
qed (use wf spec in \<open>simp_all add: apply_view_def apply_entry_def\<close>)

text \<open>The value a replica must agree on is the view, together with the applied index.\<close>

definition ns_value :: "fs_namespace \<Rightarrow> (string list \<Rightarrow> node_view option) \<times> int" where
  "ns_value ns = (view ns, commited_index ns)"

definition apply_value ::
  "entry \<Rightarrow> (string list \<Rightarrow> node_view option) \<times> int \<Rightarrow> ((string list \<Rightarrow> node_view option) \<times> int) option"
where
  "apply_value e v = map_option (\<lambda>V. (V, snd v)) (apply_view e (fst v))"

interpretation fs: replicated_machine apply_entry ns_value apply_value fs_wf
proof (unfold_locales, goal_cases)
  case (1 ns e now)
  then show ?case by (intro apply_entry_undefined) (simp_all add: apply_value_def ns_value_def)
next
  case (2 ns e v now)
  then obtain V where "apply_view e (view ns) = Some V" "v = (V, commited_index ns)"
    by (auto simp: apply_value_def ns_value_def)
  with apply_entry_defined [OF 2(1), of e V now] show ?case
    by (auto simp: ns_value_def same_frame_def)
qed


section \<open>A pass applies the committed entries in order\<close>

text \<open>The entries from index \<open>i\<close> on, each with its clock reading.\<close>

definition timed :: "(int \<Rightarrow> int) \<Rightarrow> entry list \<Rightarrow> (int \<times> entry) list" where
  "timed now es = map (\<lambda>e. (now (e_index e), e)) es"

lemma timed_entries [simp]: "map snd (timed now es) = es"
  by (simp add: timed_def comp_def)

definition committed_from :: "int \<Rightarrow> raft \<Rightarrow> entry list" where
  "committed_from i st =
     drop (nat (i - 1)) (take (nat (GetLastCommitIndex (raft_log st))) (memory_log (raft_log st)))"

lemma update_loop_applies:
  assumes wf: "log_wf (raft_log st)" and c: "GetLastCommitIndex (raft_log st) \<le> GetLastLogIndex (raft_log st)"
    and free: "\<And>j. i \<le> j \<Longrightarrow> j \<le> GetLastCommitIndex (raft_log st) \<Longrightarrow> may_apply j st"
    and "1 \<le> i" and "i \<le> GetLastCommitIndex (raft_log st) + 1"
  shows "update_loop st now i commited ns =
    and_then (apply_all apply_entry (timed now (committed_from i st)) ns) (\<lambda>ns'.
      Inr (if i \<le> GetLastCommitIndex (raft_log st) then GetLastCommitIndex (raft_log st) else commited, ns'))"
  using free assms(4,5)
proof (induction "nat (GetLastCommitIndex (raft_log st) + 1 - i)" arbitrary: i commited ns)
  case 0
  then have i: "i = GetLastCommitIndex (raft_log st) + 1" by simp
  then have "committed_from i st = []" by (simp add: committed_from_def)
  with i show ?case by (simp add: update_loop.simps timed_def)
next
  case (Suc k)
  let ?c = "GetLastCommitIndex (raft_log st)"
  have i: "i \<le> ?c" using Suc.hyps(2) by linarith
  have bound: "nat ?c \<le> length (memory_log (raft_log st))" using c wf by (simp add: log_query)
  define e where "e = memory_log (raft_log st) ! nat (i - 1)"
  have get: "GetEntry i (raft_log st) = Some e"
    using Suc.prems(2) i c wf by (simp add: log_query e_def)
  have idx: "e_index e = i"
    using wf Suc.prems(2) i bound by (simp add: e_def log_wf_def numbered_nth)
  have "committed_from i st = e # committed_from (i + 1) st"
  proof -
    have "nat (i - 1) < length (take (nat ?c) (memory_log (raft_log st)))"
      using i Suc.prems(2) bound by simp
    from Cons_nth_drop_Suc [OF this] show ?thesis
      using Suc.prems(2) i by (simp add: committed_from_def e_def nat_diff_distrib Suc_nat_eq_nat_zadd1)
  qed
  moreover have "update_loop st now i commited ns =
      and_then (apply_entry (now i) e ns) (\<lambda>(_, ns'). update_loop st now (i + 1) i ns')"
    using i Suc.prems(1) get by (subst update_loop.simps) simp
  moreover have "update_loop st now (i + 1) i ns' =
      and_then (apply_all apply_entry (timed now (committed_from (i + 1) st)) ns') (\<lambda>ns''. Inr (?c, ns''))" for ns'
  proof -
    have "k = nat (?c + 1 - (i + 1))" using Suc.hyps(2) by linarith
    then have "update_loop st now (i + 1) i ns' =
        and_then (apply_all apply_entry (timed now (committed_from (i + 1) st)) ns') (\<lambda>ns''.
          Inr (if i + 1 \<le> ?c then ?c else i, ns''))"
      by (rule Suc.hyps(1)) (use Suc.prems i in auto)
    also have "(if i + 1 \<le> ?c then ?c else i) = ?c" using i by auto
    finally show ?thesis .
  qed
  ultimately show ?case
    using i idx by (cases "apply_entry (now i) e ns") (auto simp: timed_def split: prod.splits)
qed


text \<open>
  A name space tracks a list of entries when applying them to the fresh view gives its view
  and its applied index is their number.
\<close>

definition fresh_view :: "string list \<Rightarrow> node_view option" where
  "fresh_view = [[] \<mapsto> V_dir]"

definition tracks :: "entry list \<Rightarrow> fs_namespace \<Rightarrow> bool" where
  "tracks es ns \<longleftrightarrow> fs_wf ns \<and> commited_index ns = int (length es) \<and>
     spec_all apply_view es fresh_view = Some (view ns)"

lemma tracks_fresh: "tracks [] (new_FSNamespace now)"
  by (simp add: tracks_def new_FSNamespace_wf new_FSNamespace_view fresh_view_def)
    (simp add: new_FSNamespace_def Let_def new_node_def)

lemma spec_all_append:
  "spec_all spec (es @ fs) v = (case spec_all spec es v of None \<Rightarrow> None | Some w \<Rightarrow> spec_all spec fs w)"
  by (induction es arbitrary: v) (auto split: option.splits)

lemma spec_all_value:
  "spec_all apply_value es (V, c) = map_option (\<lambda>W. (W, c)) (spec_all apply_view es V)"
  by (induction es arbitrary: V) (auto simp: apply_value_def split: option.splits)

lemma FSUpdate_pass_applies:
  assumes "log_wf (raft_log st)" and "GetLastCommitIndex (raft_log st) \<le> GetLastLogIndex (raft_log st)"
    and "\<And>j. GetCommitedIndex ns < j \<Longrightarrow> j \<le> GetLastCommitIndex (raft_log st) \<Longrightarrow> may_apply j st"
    and "0 \<le> GetCommitedIndex ns" and "GetCommitedIndex ns \<le> GetLastCommitIndex (raft_log st)"
  shows "FSUpdate_pass st now ns =
    and_then (apply_all apply_entry (timed now (committed_from (GetCommitedIndex ns + 1) st)) ns)
      (\<lambda>ns'. Inr (SetCommitedIndex (GetLastCommitIndex (raft_log st)) ns'))"
proof (cases "GetLastCommitIndex (raft_log st) = GetCommitedIndex ns")
  case True
  then have "committed_from (GetCommitedIndex ns + 1) st = []" by (simp add: committed_from_def)
  with True show ?thesis
    by (simp add: FSUpdate_pass_def must_update_def timed_def SetCommitedIndex_def GetCommitedIndex_def)
next
  case False
  then have more: "GetCommitedIndex ns + 1 \<le> GetLastCommitIndex (raft_log st)" using assms(5) by simp
  then have "update_loop st now (GetCommitedIndex ns + 1) 0 ns =
    and_then (apply_all apply_entry (timed now (committed_from (GetCommitedIndex ns + 1) st)) ns) (\<lambda>ns'.
      Inr (GetLastCommitIndex (raft_log st), ns'))"
    using update_loop_applies [OF assms(1,2), of "GetCommitedIndex ns + 1" now 0 ns] assms(3,4) by simp
  with False show ?thesis
    by (cases "apply_all apply_entry (timed now (committed_from (GetCommitedIndex ns + 1) st)) ns")
      (simp_all add: FSUpdate_pass_def must_update_def)
qed

lemma committed_split:
  assumes "committed_from 1 st = es @ rest"
  shows "committed_from (int (length es) + 1) st = rest"
proof -
  have "committed_from (int (length es) + 1) st = drop (length es) (committed_from 1 st)"
    by (simp add: committed_from_def)
  with assms show ?thesis by simp
qed

lemma committed_length:
  assumes "log_wf (raft_log st)" and "GetLastCommitIndex (raft_log st) \<le> GetLastLogIndex (raft_log st)"
    and "0 \<le> GetLastCommitIndex (raft_log st)"
  shows "int (length (committed_from 1 st)) = GetLastCommitIndex (raft_log st)"
  using assms by (auto simp: committed_from_def log_query min_def)

lemma tracks_pass:
  assumes wf: "log_wf (raft_log st)"
    and c: "GetLastCommitIndex (raft_log st) \<le> GetLastLogIndex (raft_log st)" "0 \<le> GetLastCommitIndex (raft_log st)"
    and free: "\<And>j. GetCommitedIndex ns < j \<Longrightarrow> j \<le> GetLastCommitIndex (raft_log st) \<Longrightarrow> may_apply j st"
    and tr: "tracks es ns" and rest: "committed_from 1 st = es @ rest"
  shows "case spec_all apply_view (committed_from 1 st) fresh_view of
      None \<Rightarrow> \<not> defined (FSUpdate_pass st now ns)
    | Some V \<Rightarrow> \<exists>ns'. FSUpdate_pass st now ns = Inr ns' \<and> tracks (committed_from 1 st) ns' \<and> view ns' = V"
proof -
  let ?c = "GetLastCommitIndex (raft_log st)"
  have idx: "GetCommitedIndex ns = int (length es)" using tr by (simp add: tracks_def GetCommitedIndex_def)
  have len: "int (length (es @ rest)) = ?c" using committed_length [OF wf c] rest by simp
  have le: "GetCommitedIndex ns \<le> ?c" "0 \<le> GetCommitedIndex ns" using idx len by simp_all
  have run: "FSUpdate_pass st now ns = and_then (apply_all apply_entry (timed now rest) ns)
      (\<lambda>ns'. Inr (SetCommitedIndex ?c ns'))"
    using FSUpdate_pass_applies [OF wf c(1) free le(2,1)] committed_split [OF rest] idx by simp
  have inv: "fs_wf ns" and v: "spec_all apply_view es fresh_view = Some (view ns)"
    using tr by (simp_all add: tracks_def)
  have spec: "spec_all apply_view (es @ rest) fresh_view = spec_all apply_view rest (view ns)"
    using v by (simp add: spec_all_append)
  note all = fs.apply_all_spec [OF inv, of "timed now rest", unfolded timed_entries ns_value_def [of ns]
      spec_all_value]
  show ?thesis
  proof (cases "spec_all apply_view rest (view ns)")
    case None
    with all have "\<not> defined (apply_all apply_entry (timed now rest) ns)" by simp
    then have "\<not> defined (FSUpdate_pass st now ns)" unfolding run
      by (cases "apply_all apply_entry (timed now rest) ns") simp_all
    with None spec rest show ?thesis by simp
  next
    case (Some V)
    with all obtain ns' where ns': "apply_all apply_entry (timed now rest) ns = Inr ns'" "fs_wf ns'" "view ns' = V"
      by (auto simp: ns_value_def)
    have "tracks (es @ rest) (SetCommitedIndex ?c ns')"
      using ns' Some spec len by (simp add: tracks_def SetCommitedIndex_def fs_wf_def view_def)
    moreover have "view (SetCommitedIndex ?c ns') = V"
      using ns'(3) by (simp add: view_def SetCommitedIndex_def)
    ultimately show ?thesis using run ns'(1) Some spec rest by simp
  qed
qed


section \<open>Properties\<close>

lemma follower_may_apply: "current_role st = kFollower \<Longrightarrow> may_apply j st"
  by (simp add: may_apply_def IsFollower_def)


definition sample_replica :: raft where
  "sample_replica = sample_server\<lparr>raft_log := sample_log\<lparr>last_commited_index := 2\<rparr>\<rparr>"

lemma sample_replica_facts:
  "log_wf (raft_log sample_replica)" "GetLastCommitIndex (raft_log sample_replica) = 2"
  "GetLastLogIndex (raft_log sample_replica) = 3" "may_apply j sample_replica"
  "committed_from 1 sample_replica = [] @ [sample_entry 1 1, sample_entry 1 2]"
proof -
  show "log_wf (raft_log sample_replica)"
    using sample_log_wf by (simp add: sample_replica_def log_wf_def)
  show "may_apply j sample_replica"
    by (rule follower_may_apply) (simp add: sample_replica_def)
qed (simp_all add: sample_replica_def GetLastCommitIndex_def GetLastLogIndex_def committed_from_def
    sample_log_def sample_entry_def)

lemma sample_spec:
  "spec_all apply_view [sample_entry 1 1, sample_entry 1 2] fresh_view =
     Some [[] \<mapsto> V_dir, [''d''] \<mapsto> V_dir]"
proof -
  have "SplitPath ''/d'' = [''d'']" by (simp add: SplitPath_def)
  moreover have "(\<lambda>p. if prefix p [''d''] then Some V_dir else [[] \<mapsto> V_dir, [''d''] \<mapsto> V_dir] p) =
      [[] \<mapsto> V_dir, [''d''] \<mapsto> V_dir]"
    "(\<lambda>p. if prefix p [''d''] then Some V_dir else [[] \<mapsto> V_dir] p) = [[] \<mapsto> V_dir, [''d''] \<mapsto> V_dir]"
    by (auto simp: fun_eq_iff prefix_Cons)
  ultimately show ?thesis by (simp add: apply_view_def sample_entry_def fresh_view_def)
qed


text \<open>
  Replicas agree: two servers whose committed entries are the same, each with a name
  space that tracks a prefix of them, possibly of different length and with different clocks,
  show the same tree after a pass, or the pass of both is undefined.
\<close>

theorem replicas_show_same_tree:
  assumes "log_wf (raft_log A)" "log_wf (raft_log B)"
    and "0 \<le> GetLastCommitIndex (raft_log A)" "GetLastCommitIndex (raft_log A) \<le> GetLastLogIndex (raft_log A)"
    and "0 \<le> GetLastCommitIndex (raft_log B)" "GetLastCommitIndex (raft_log B) \<le> GetLastLogIndex (raft_log B)"
    and "current_role A = kFollower" "current_role B = kFollower"
    and "committed_from 1 A = committed_from 1 B"
    and "committed_from 1 A = es @ es'" "committed_from 1 B = fs @ fs'"
    and "tracks es nsA" "tracks fs nsB"
  shows "(defined (FSUpdate_pass A nowA nsA) \<longleftrightarrow> defined (FSUpdate_pass B nowB nsB)) \<and>
    (\<forall>nsA' nsB'. FSUpdate_pass A nowA nsA = Inr nsA' \<and> FSUpdate_pass B nowB nsB = Inr nsB' \<longrightarrow>
       view nsA' = view nsB' \<and> commited_index nsA' = commited_index nsB')"
proof -
  note a = tracks_pass [OF assms(1,4,3) follower_may_apply [OF assms(7)] assms(12,10), of nowA,
      unfolded assms(9)]
  note b = tracks_pass [OF assms(2,6,5) follower_may_apply [OF assms(8)] assms(13,11), of nowB]
  show ?thesis
  proof (cases "spec_all apply_view (committed_from 1 B) fresh_view")
    case None
    with a b show ?thesis by (auto simp: defined_iff)
  next
    case (Some V)
    with a b obtain nsA' nsB' where "FSUpdate_pass A nowA nsA = Inr nsA'" "FSUpdate_pass B nowB nsB = Inr nsB'"
      and "tracks (committed_from 1 B) nsA'" "tracks (committed_from 1 B) nsB'"
      and "view nsA' = V" "view nsB' = V"
      by auto
    then show ?thesis by (simp add: tracks_def)
  qed
qed

theorem replicas_show_same_tree_witness:
  "\<exists>nsA nsB. FSUpdate_pass sample_replica (\<lambda>i. 5) (new_FSNamespace 0) = Inr nsA \<and>
     FSUpdate_pass sample_replica (\<lambda>i. 900) (new_FSNamespace 9) = Inr nsB \<and> view nsA = view nsB"
proof -
  note f = sample_replica_facts
  have role: "current_role sample_replica = kFollower" by (simp add: sample_replica_def)
  have ran: "\<exists>ns'. FSUpdate_pass sample_replica now (new_FSNamespace t) = Inr ns'" for now t
    using tracks_pass [OF f(1) _ _ f(4) tracks_fresh f(5), of now t] f(2,3,5) sample_spec by auto
  obtain nsA nsB where "FSUpdate_pass sample_replica (\<lambda>i. 5) (new_FSNamespace 0) = Inr nsA"
    "FSUpdate_pass sample_replica (\<lambda>i. 900) (new_FSNamespace 9) = Inr nsB"
    using ran by metis
  with replicas_show_same_tree [OF f(1) f(1) _ _ _ _ role role refl f(5) f(5) tracks_fresh tracks_fresh,
      of "\<lambda>i. 5" 0 "\<lambda>i. 900" 9] f(2,3)
  show ?thesis by auto
qed

text \<open>
  A pass that is stopped at its first entry stores 0 as the applied index, whatever had been
  applied before, so the next pass starts again with the first entry of the log.  That is not
  harmless: applied twice, the entries can build another tree.
\<close>

lemma stopped_pass_forgets:
  assumes "must_update st ns" and "\<not> may_apply (GetCommitedIndex ns + 1) st"
  shows "FSUpdate_pass st now ns = Inr (SetCommitedIndex 0 ns)"
  using assms by (simp add: FSUpdate_pass_def update_loop.simps)

lemma candidate_forgets:
  "must_update st ns \<Longrightarrow> current_role st = kCandidate \<Longrightarrow> FSUpdate_pass st now ns = Inr (SetCommitedIndex 0 ns)"
  by (rule stopped_pass_forgets) (simp_all add: may_apply_def IsLeader_def IsFollower_def)

text \<open>
  Nor does it end: a leader that was no leader yet when entry 1 was acknowledged has no
  acknowledgements on record for it, so from the applied index 0 every pass stops at once,
  whatever is committed.
\<close>

lemma reset_leader_stays_behind:
  assumes "current_role st = kLeader" and "commited_index ns = 0"
    and "int (card (pending_entries st 1)) < quorum_size st"
  shows "FSUpdate_pass st now ns = Inr ns"
proof (cases "must_update st ns")
  case True
  have "\<not> may_apply (GetCommitedIndex ns + 1) st"
    using assms by (simp add: may_apply_def GetCommitedIndex_def IsLeader_def IsFollower_def)
  from stopped_pass_forgets [OF True this] show ?thesis
    using assms(2) by (simp add: SetCommitedIndex_def)
qed (simp add: FSUpdate_pass_def)

definition twice_log :: "entry list" where
  "twice_log = [\<lparr>e_term = 1, e_index = 1, e_op = kCreate, e_value = ''/a/f''\<rparr>,
     \<lparr>e_term = 1, e_index = 2, e_op = kMkdir, e_value = ''/a''\<rparr>]"

lemma reapplying_builds_another_tree:
  "\<exists>V W. spec_all apply_view twice_log fresh_view = Some V \<and>
     spec_all apply_view (twice_log @ twice_log) fresh_view = Some W \<and>
     V [''a'', ''f''] = None \<and> W [''a'', ''f''] = Some V_file"
proof -
  have p: "SplitPath ''/a/f'' = [''a'', ''f'']" "SplitPath ''/a'' = [''a'']"
    by (simp_all add: SplitPath_def)
  show ?thesis
    by (simp add: twice_log_def apply_view_def p fresh_view_def Let_def)
qed

end
