(* ===== verification/FS_Thread.thy ===== *)
theory FS_Thread
  imports FS_Update
begin

text \<open>
  \<open>FSUpdateLoop\<close> one iteration at a time.  The thread holds a lock of its own, \<open>fs_m\<close>, and none
  of the consensus object, so between two iterations of its \<open>for\<close> loop every other thread may
  run: each iteration looks at the log, the role and the acknowledgements of its own moment.
  A pass over one state, \<open>FSUpdate_pass\<close>, is the case in which nothing else happens meanwhile.
\<close>

section \<open>The thread\<close>

text \<open>
  Waiting for the two indices to differ, or inside the loop with its variables \<open>i\<close> and
  \<open>commited\<close>.
\<close>

datatype fs_thread = Fs_waiting | Fs_running int int

fun update_iter :: "raft \<Rightarrow> (int \<Rightarrow> int) \<Rightarrow> fs_thread \<Rightarrow> fs_namespace \<Rightarrow> (fs_thread \<times> fs_namespace) outcome" where
  "update_iter st now Fs_waiting ns =
     Inr (if must_update st ns then Fs_running (GetCommitedIndex ns + 1) 0 else Fs_waiting, ns)"
| "update_iter st now (Fs_running i commited) ns =
     (if i \<le> GetLastCommitIndex (raft_log st) \<and> may_apply i st
      then case GetEntry i (raft_log st) of
             None \<Rightarrow> Inl Null_dereference
           | Some e \<Rightarrow> and_then (apply_entry (now i) e ns) (\<lambda>(_, ns'). Inr (Fs_running (i + 1) i, ns'))
      else Inr (Fs_waiting, SetCommitedIndex commited ns))"

text \<open>The entry that an iteration applies, if it applies one.\<close>

fun taken :: "raft \<Rightarrow> fs_thread \<Rightarrow> entry list" where
  "taken st Fs_waiting = []"
| "taken st (Fs_running i commited) =
     (if i \<le> GetLastCommitIndex (raft_log st) \<and> may_apply i st
      then case GetEntry i (raft_log st) of None \<Rightarrow> [] | Some e \<Rightarrow> [e]
      else [])"

lemma taken_applied:
  assumes "update_iter st now th ns = Inr (th', ns')"
  shows "(case taken st th of
      [] \<Rightarrow> fs_heap ns' = fs_heap ns \<and> fs_root ns' = fs_root ns
    | e # _ \<Rightarrow> \<exists>t rt. apply_entry t e ns = Inr (rt, ns'))"
  using assms by (cases th) (auto simp: and_then_eq_Inr SetCommitedIndex_def split: option.splits if_splits)


section \<open>A pass is a run of iterations\<close>

text \<open>Iterations over one state until the thread waits, at most as many as the first argument says.\<close>

fun iterate :: "nat \<Rightarrow> raft \<Rightarrow> (int \<Rightarrow> int) \<Rightarrow> fs_thread \<Rightarrow> fs_namespace \<Rightarrow> (fs_thread \<times> fs_namespace) outcome" where
  "iterate 0 st now th ns = Inr (th, ns)"
| "iterate (Suc k) st now th ns =
     and_then (update_iter st now th ns) (\<lambda>(th', ns').
     if th' = Fs_waiting then Inr (th', ns') else iterate k st now th' ns')"

lemma iterate_loop:
  "nat (GetLastCommitIndex (raft_log st) + 1 - i) < k \<Longrightarrow>
   iterate k st now (Fs_running i commited) ns =
     and_then (update_loop st now i commited ns) (\<lambda>(c, ns'). Inr (Fs_waiting, SetCommitedIndex c ns'))"
proof (induction k arbitrary: i commited ns)
  case (Suc k)
  show ?case
  proof (cases "i \<le> GetLastCommitIndex (raft_log st) \<and> may_apply i st")
    case True
    with Suc.prems have less: "nat (GetLastCommitIndex (raft_log st) + 1 - (i + 1)) < k" by linarith
    show ?thesis
    proof (cases "GetEntry i (raft_log st)")
      case (Some e)
      then show ?thesis
        using True Suc.IH [OF less]
        by (cases "apply_entry (now i) e ns") (auto simp: update_loop.simps [of st now i])
    qed (use True in \<open>simp add: update_loop.simps [of st now i]\<close>)
  qed (auto simp: update_loop.simps [of st now i])
qed simp

lemma pass_is_iterate:
  assumes "nat (GetLastCommitIndex (raft_log st) - GetCommitedIndex ns) + 1 < k"
  shows "iterate k st now Fs_waiting ns = and_then (FSUpdate_pass st now ns) (\<lambda>ns'. Inr (Fs_waiting, ns'))"
proof -
  obtain j where k: "k = Suc j" using assms by (cases k) auto
  have "nat (GetLastCommitIndex (raft_log st) + 1 - (GetCommitedIndex ns + 1)) < j" using assms k by simp
  from iterate_loop [OF this] show ?thesis
    by (cases "update_loop st now (GetCommitedIndex ns + 1) 0 ns") (auto simp: k FSUpdate_pass_def)
qed


section \<open>What an iteration does to a replica\<close>

text \<open>
  A replica that has applied the entries \<open>A\<close>, in order and from the first: its view is what
  they make of a fresh one, and the applied index, or the variables of the loop, count them.
\<close>

definition replica :: "entry list \<Rightarrow> fs_thread \<Rightarrow> fs_namespace \<Rightarrow> bool" where
  "replica A th ns \<longleftrightarrow>
     fs_wf ns \<and> spec_all apply_view A fresh_view = Some (view ns) \<and> numbered_from 1 A \<and>
     (case th of
        Fs_waiting \<Rightarrow> commited_index ns = int (length A)
      | Fs_running i commited \<Rightarrow> i = int (length A) + 1 \<and>
          (commited = int (length A) \<or> commited = 0 \<and> commited_index ns = int (length A)))"

text \<open>
  A loop that ends before its first entry stores 0 as the applied index; that forgets the
  applied entries if there are any.
\<close>

definition forgets :: "raft \<Rightarrow> fs_thread \<Rightarrow> bool" where
  "forgets st th \<longleftrightarrow>
     (case th of Fs_waiting \<Rightarrow> False
      | Fs_running i commited \<Rightarrow> commited = 0 \<and> i \<noteq> 1 \<and>
          \<not> (i \<le> GetLastCommitIndex (raft_log st) \<and> may_apply i st))"

lemma replica_fresh: "replica [] Fs_waiting (new_FSNamespace now)"
  using tracks_fresh [of now] by (simp add: replica_def tracks_def)

lemma replica_iter:
  assumes wf: "log_wf (raft_log st)" and rep: "replica A th ns" and "\<not> forgets st th"
    and run: "update_iter st now th ns = Inr (th', ns')"
  shows "replica (A @ taken st th) th' ns' \<and> set (taken st th) \<subseteq> set (memory_log (raft_log st))"
proof (cases th)
  case Fs_waiting
  with run rep show ?thesis by (auto simp: replica_def GetCommitedIndex_def)
next
  case (Fs_running i commited)
  show ?thesis
  proof (cases "i \<le> GetLastCommitIndex (raft_log st) \<and> may_apply i st")
    case True
    with run Fs_running obtain e rt where e: "GetEntry i (raft_log st) = Some e"
      and ap: "apply_entry (now i) e ns = Inr (rt, ns')" and th': "th' = Fs_running (i + 1) i"
      by (auto simp: and_then_eq_Inr split: option.splits)
    have inv: "fs_wf ns" and v: "spec_all apply_view A fresh_view = Some (view ns)"
      and i: "i = int (length A) + 1" and num: "numbered_from 1 A"
      using rep Fs_running by (simp_all add: replica_def)
    from e wf have mem: "e \<in> set (memory_log (raft_log st))" and idx: "e_index e = i"
      by (auto simp: log_query log_wf_def numbered_nth split: if_splits)
    from ap apply_entry_undefined [OF inv] obtain V where V: "apply_view e (view ns) = Some V"
      by (cases "apply_view e (view ns)") (auto simp: defined_iff)
    from apply_entry_defined [OF inv V, of "now i"] ap have "fs_wf ns'" "view ns' = V" by auto
    then have "replica (A @ [e]) th' ns'"
      using th' i idx num v V by (simp add: replica_def spec_all_append)
    with mem e True Fs_running show ?thesis by simp
  next
    case False
    with run Fs_running have "th' = Fs_waiting" "ns' = SetCommitedIndex commited ns" by auto
    moreover have "commited = int (length A)"
      using rep assms(3) False Fs_running by (auto simp: replica_def forgets_def)
    ultimately have "replica A th' ns'"
      using rep by (simp add: replica_def SetCommitedIndex_def fs_wf_def view_def)
    moreover have "taken st th = []" unfolding Fs_running taken.simps using False by (rule if_not_P)
    ultimately show ?thesis by simp
  qed
qed

end
