(* ===== verification/Raft_System.thy ===== *)
theory Raft_System
  imports Cluster_Run FS_Thread
begin

text \<open>
  The servers with their name spaces: the cluster of consensus objects, and at every server the
  thread of \<open>FSUpdateLoop\<close> that applies its log.  The two meet only in the log, so a step of
  the system is a step of the cluster or one iteration of the thread of one server.
\<close>

section \<open>The system\<close>

record system =
  sys_cluster :: cluster
  sys_fs :: "int \<Rightarrow> fs_namespace"
  sys_thread :: "int \<Rightarrow> fs_thread"

datatype sys_label = Consensus label | Update int

inductive system_step :: "int list \<Rightarrow> system \<Rightarrow> sys_label \<Rightarrow> system \<Rightarrow> bool" for ids where
  consensus: "cluster_step ids (sys_cluster s) l c' \<Longrightarrow> system_step ids s (Consensus l) (s\<lparr>sys_cluster := c'\<rparr>)"
| update: "n \<in> set ids \<Longrightarrow>
    update_iter (node (sys_cluster s) n) now (sys_thread s n) (sys_fs s n) = Inr (th', ns') \<Longrightarrow>
    system_step ids s (Update n) (s\<lparr>sys_fs := (sys_fs s)(n := ns'), sys_thread := (sys_thread s)(n := th')\<rparr>)"

inductive_cases system_stepE: "system_step ids s l s'"

definition initial_system :: "int list \<Rightarrow> system \<Rightarrow> bool" where
  "initial_system ids s \<longleftrightarrow> initial_cluster ids (sys_cluster s) \<and>
     (\<forall>n \<in> set ids. (\<exists>now. sys_fs s n = new_FSNamespace now) \<and> sys_thread s n = Fs_waiting)"

inductive system_reachable :: "(system \<Rightarrow> sys_label \<Rightarrow> bool) \<Rightarrow> int list \<Rightarrow> system \<Rightarrow> bool" for P ids where
  start: "initial_system ids s \<Longrightarrow> system_reachable P ids s"
| step: "system_reachable P ids s \<Longrightarrow> P s l \<Longrightarrow> system_step ids s l s' \<Longrightarrow> system_reachable P ids s'"

text \<open>
  The runs considered: orderly ones for the cluster, and no loop that forgets what it has
  applied.  In \<open>steady_in T\<close> runs all operations are logged in the term \<open>T\<close>; elections may be
  held and other terms may have leaders.
\<close>

fun steady :: "system \<Rightarrow> sys_label \<Rightarrow> bool" where
  "steady s (Consensus l) \<longleftrightarrow> orderly (sys_cluster s) l"
| "steady s (Update n) \<longleftrightarrow> \<not> forgets (node (sys_cluster s) n) (sys_thread s n)"

definition steady_in :: "int \<Rightarrow> system \<Rightarrow> sys_label \<Rightarrow> bool" where
  "steady_in T s l \<longleftrightarrow> steady s l \<and>
     (\<forall>n. l = Consensus (Client n) \<longrightarrow> current_term (node (sys_cluster s) n) = T)"

lemma system_reachable_mono:
  assumes "system_reachable P ids s" and "\<And>s l. P s l \<Longrightarrow> Q s l"
  shows "system_reachable Q ids s"
  using assms(1) by induction (auto intro: system_reachable.intros assms(2))

text \<open>What the system can come to from a state.\<close>

inductive system_run :: "(system \<Rightarrow> sys_label \<Rightarrow> bool) \<Rightarrow> int list \<Rightarrow> system \<Rightarrow> system \<Rightarrow> bool" for P ids s0 where
  here: "system_run P ids s0 s0"
| onward: "system_run P ids s0 s \<Longrightarrow> P s l \<Longrightarrow> system_step ids s l s' \<Longrightarrow> system_run P ids s0 s'"

lemma system_run_reachable:
  assumes "system_reachable P ids s0" and "system_run P ids s0 s"
  shows "system_reachable P ids s"
  using assms(2) by induction (auto intro: assms(1) system_reachable.step)

text \<open>
  A run with what its servers apply: \<open>applied_run\<close> carries, for every server, the list of the
  entries that the iterations of its thread have applied, in their order.  The lists are those
  of \<open>taken\<close>; the steps themselves do not depend on them.
\<close>

fun recorded :: "system \<Rightarrow> sys_label \<Rightarrow> (int \<Rightarrow> entry list) \<Rightarrow> int \<Rightarrow> entry list" where
  "recorded s (Consensus l) A = A"
| "recorded s (Update n) A = A(n := A n @ taken (node (sys_cluster s) n) (sys_thread s n))"

inductive applied_run ::
  "(system \<Rightarrow> sys_label \<Rightarrow> bool) \<Rightarrow> int list \<Rightarrow> system \<Rightarrow> (int \<Rightarrow> entry list) \<Rightarrow> system \<Rightarrow> (int \<Rightarrow> entry list) \<Rightarrow> bool"
for P ids s0 A0 where
  here: "applied_run P ids s0 A0 s0 A0"
| onward: "applied_run P ids s0 A0 s A \<Longrightarrow> P s l \<Longrightarrow> system_step ids s l s' \<Longrightarrow>
    applied_run P ids s0 A0 s' (recorded s l A)"

definition has_applied ::
  "(system \<Rightarrow> sys_label \<Rightarrow> bool) \<Rightarrow> int list \<Rightarrow> system \<Rightarrow> (int \<Rightarrow> entry list) \<Rightarrow> bool"
where
  "has_applied P ids s A \<longleftrightarrow> (\<exists>s0. initial_system ids s0 \<and> applied_run P ids s0 (\<lambda>_. []) s A)"

lemma has_applied_start: "initial_system ids s \<Longrightarrow> has_applied P ids s (\<lambda>_. [])"
  by (auto simp: has_applied_def intro: applied_run.here)

lemma has_applied_step:
  "has_applied P ids s A \<Longrightarrow> P s l \<Longrightarrow> system_step ids s l s' \<Longrightarrow> has_applied P ids s' (recorded s l A)"
  by (auto simp: has_applied_def intro: applied_run.onward)

lemma has_applied_induct [consumes 1, case_names start step]:
  assumes "has_applied P ids s A"
    and "\<And>s. initial_system ids s \<Longrightarrow> Q s (\<lambda>_. [])"
    and "\<And>s A l s'. has_applied P ids s A \<Longrightarrow> Q s A \<Longrightarrow> P s l \<Longrightarrow> system_step ids s l s' \<Longrightarrow> Q s' (recorded s l A)"
  shows "Q s A"
proof -
  obtain s0 where s0: "initial_system ids s0" and run: "applied_run P ids s0 (\<lambda>_. []) s A"
    using assms(1) by (auto simp: has_applied_def)
  from run show ?thesis
  proof induction
    case (onward s A l s')
    from onward.hyps(1) s0 have "has_applied P ids s A" by (auto simp: has_applied_def)
    from assms(3) [OF this onward.IH onward.hyps(2,3)] show ?case .
  qed (rule assms(2) [OF s0])
qed

lemma has_applied_run: "has_applied P ids s A \<Longrightarrow> applied_run P ids s A s' A' \<Longrightarrow> has_applied P ids s' A'"
  by (rotate_tac, induction rule: applied_run.induct) (auto intro: has_applied_step)

text \<open>Every reachable state has its lists, and every run from a state continues them.\<close>

lemma has_applied_reachable: "has_applied P ids s A \<Longrightarrow> system_reachable P ids s"
  by (induction rule: has_applied_induct) (auto intro: system_reachable.intros)

lemma reachable_has_applied: "system_reachable P ids s \<Longrightarrow> \<exists>A. has_applied P ids s A"
  by (induction rule: system_reachable.induct) (blast intro: has_applied_start has_applied_step)+

lemma run_applied: "system_run P ids s s' \<Longrightarrow> \<exists>A'. applied_run P ids s A s' A'"
  by (induction rule: system_run.induct) (blast intro: applied_run.intros)+

lemma applied_run_mono:
  assumes "applied_run P ids s0 A0 s A" and "\<And>s l. P s l \<Longrightarrow> Q s l"
  shows "applied_run Q ids s0 A0 s A"
  using assms(1) by induction (auto intro: applied_run.intros assms(2))

lemma has_applied_mono: "has_applied P ids s A \<Longrightarrow> (\<And>s l. P s l \<Longrightarrow> Q s l) \<Longrightarrow> has_applied Q ids s A"
  by (auto simp: has_applied_def intro: applied_run_mono)

text \<open>The cluster of a reachable system is a reachable cluster.\<close>

lemma system_cluster:
  assumes "system_reachable P ids s"
    and "\<And>s l. P s (Consensus l) \<Longrightarrow> Q (sys_cluster s) l"
  shows "reachable Q ids (sys_cluster s)"
  using assms(1)
proof induction
  case (start s)
  then show ?case by (simp add: initial_system_def reachable.start)
next
  case (step s l s')
  from step.hyps(3) show ?case
  proof cases
    case (consensus l' c')
    with step.hyps(2) step.IH assms(2) show ?thesis by (auto intro: reachable.step)
  next
    case (update n now th' ns')
    with step.IH show ?thesis by simp
  qed
qed


section \<open>The history and the replicas\<close>

text \<open>
  The invariant: over a history \<open>H\<close> of entries for which the invariant of the cluster holds,
  the list \<open>A n\<close> that server \<open>n\<close> has applied is one of entries of the history.
\<close>

definition system_inv :: "int list \<Rightarrow> system \<Rightarrow> entry set \<Rightarrow> (int \<Rightarrow> entry list) \<Rightarrow> bool" where
  "system_inv ids s H A \<longleftrightarrow> entries_inv ids (sys_cluster s) H \<and>
     (\<forall>n \<in> set ids. replica (A n) (sys_thread s n) (sys_fs s n) \<and> set (A n) \<subseteq> H)"

definition sys_grown :: "entry set \<Rightarrow> system \<Rightarrow> sys_label \<Rightarrow> system \<Rightarrow> entry set" where
  "sys_grown H s l s' = (case l of
     Consensus l' \<Rightarrow> grown H (sys_cluster s) l' (sys_cluster s') | Update n \<Rightarrow> H)"

lemma system_inv_step:
  assumes step: "system_step ids s l s'" and P: "steady s l" and inv: "system_inv ids s H A"
    and reach: "reachable orderly ids (sys_cluster s)"
  shows "system_inv ids s' (sys_grown H s l s') (recorded s l A)"
  using step
proof (cases rule: system_step.cases)
  case (consensus l' c')
  have "entries_inv ids c' (grown H (sys_cluster s) l' c')"
    by (rule entries_inv_step [OF consensus(3)])
      (use inv P consensus reach in \<open>auto simp: system_inv_def reachable_election_inv orderly_timely reachable_logs_ok\<close>)
  with inv consensus show ?thesis by (auto simp: system_inv_def sys_grown_def grown_def)
next
  case (update n now th' ns')
  have "log_wf (raft_log (node (sys_cluster s) n))"
    using cluster_logs_okD(1) [OF reachable_logs_ok [OF reach] update(3)] by (simp add: server_logs_ok_def)
  moreover have "replica (A n) (sys_thread s n) (sys_fs s n)" using inv update(3) by (simp add: system_inv_def)
  moreover have "\<not> forgets (node (sys_cluster s) n) (sys_thread s n)" using P update(1) by simp
  ultimately have B: "replica (A n @ taken (node (sys_cluster s) n) (sys_thread s n)) th' ns'"
    "set (taken (node (sys_cluster s) n) (sys_thread s n)) \<subseteq> set (memory_log (raft_log (node (sys_cluster s) n)))"
    using replica_iter update(4) by blast+
  then have "set (taken (node (sys_cluster s) n) (sys_thread s n)) \<subseteq> H"
    using update(3) inv by (auto simp: system_inv_def intro: heldI dest: entries_invD(5))
  with B(1) inv update(1,2) show ?thesis by (auto simp: system_inv_def sys_grown_def)
qed

lemma initial_system_inv: "initial_system ids s \<Longrightarrow> system_inv ids s {} (\<lambda>_. [])"
  using initial_entries_inv replica_fresh by (fastforce simp: initial_system_def system_inv_def)

lemma steady_cluster: "has_applied P ids s A \<Longrightarrow> (\<And>s l. P s l \<Longrightarrow> steady s l) \<Longrightarrow> reachable orderly ids (sys_cluster s)"
  using system_cluster [OF has_applied_reachable, of P ids s A orderly] by (metis steady.simps(1))

lemma applied_inv:
  assumes "has_applied steady ids s A"
  shows "\<exists>H. system_inv ids s H A"
  using assms
proof (induction rule: has_applied_induct)
  case (step s A l s')
  then obtain H where "system_inv ids s H A" by blast
  from system_inv_step [OF step.hyps(3) step.hyps(2) this steady_cluster [OF step.hyps(1)]] show ?case by blast
qed (blast intro: initial_system_inv)


text \<open>In a run that logs in one term only, all entries of the history have that term.\<close>

lemma made_by_term:
  assumes "made_by c l c' e"
  obtains n where "l = Client n" "e_term e = current_term (node c n)"
  using assms by (auto simp: made_by_def)

lemma sys_grown_term:
  assumes "steady_in T s l" and "e \<in> sys_grown H s l s'" and "e \<notin> H"
  shows "e_term e = T"
proof (cases l)
  case (Consensus l')
  with assms(2,3) have "made_by (sys_cluster s) l' (sys_cluster s') e" by (simp add: sys_grown_def grown_def)
  then obtain n where "l' = Client n" "e_term e = current_term (node (sys_cluster s) n)" by (rule made_by_term)
  with assms(1) Consensus show ?thesis by (simp add: steady_in_def)
qed (use assms(2,3) in \<open>simp add: sys_grown_def\<close>)

lemma steady_in_step:
  assumes "has_applied (steady_in T) ids s A" and "steady_in T s l" and "system_step ids s l s'"
    and "system_inv ids s H A" and "\<forall>e \<in> H. e_term e = T"
  shows "system_inv ids s' (sys_grown H s l s') (recorded s l A) \<and> (\<forall>e \<in> sys_grown H s l s'. e_term e = T)"
proof
  have "reachable orderly ids (sys_cluster s)" by (rule steady_cluster [OF assms(1)]) (simp add: steady_in_def)
  with system_inv_step [OF assms(3) _ assms(4)] assms(2)
  show "system_inv ids s' (sys_grown H s l s') (recorded s l A)" by (auto simp: steady_in_def)
  show "\<forall>e \<in> sys_grown H s l s'. e_term e = T" using sys_grown_term [OF assms(2)] assms(5) by blast
qed

lemma steady_in_inv:
  assumes "has_applied (steady_in T) ids s A"
  shows "\<exists>H. system_inv ids s H A \<and> (\<forall>e \<in> H. e_term e = T)"
  using assms
proof (induction rule: has_applied_induct)
  case (step s A l s')
  then show ?case using steady_in_step [OF step.hyps] by blast
qed (use initial_system_inv in fastforce)

text \<open>The history only grows.\<close>

lemma steady_in_run:
  assumes "has_applied (steady_in T) ids s A" and "applied_run (steady_in T) ids s A s' A'"
    and "system_inv ids s H A" and "\<forall>e \<in> H. e_term e = T"
  shows "\<exists>H'. H \<subseteq> H' \<and> system_inv ids s' H' A' \<and> (\<forall>e \<in> H'. e_term e = T)"
  using assms(2)
proof induction
  case here
  with assms(3,4) show ?case by blast
next
  case (onward s1 A1 l s2)
  then obtain H1 where 1: "H \<subseteq> H1" "system_inv ids s1 H1 A1" "\<forall>e \<in> H1. e_term e = T" by blast
  have "H1 \<subseteq> sys_grown H1 s1 l s2" by (auto simp: sys_grown_def grown_def split: sys_label.splits)
  with steady_in_step [OF has_applied_run [OF assms(1) onward.hyps(1)] onward.hyps(2,3) 1(2,3)] 1(1)
  show ?case by blast
qed

lemma replica_length:
  "replica A Fs_waiting ns \<Longrightarrow> commited_index ns = int (length A)"
  by (simp add: replica_def)

lemma applied_nth:
  assumes "system_inv ids s H A" and "n \<in> set ids" "m \<in> set ids" and "k < length (A n)" "k < length (A m)"
    and "e_term (A n ! k) = e_term (A m ! k)"
  shows "A n ! k = A m ! k"
proof -
  have inv: "entries_inv ids (sys_cluster s) H" using assms(1) by (simp add: system_inv_def)
  have "set (A n) \<subseteq> H" "set (A m) \<subseteq> H" using assms(1-3) by (simp_all add: system_inv_def)
  then have "A n ! k \<in> H" "A m ! k \<in> H" using nth_mem [OF assms(4)] nth_mem [OF assms(5)] by blast+
  moreover have "numbered_from 1 (A n)" "numbered_from 1 (A m)"
    using assms(1-3) by (simp_all add: system_inv_def replica_def)
  then have "e_index (A n ! k) = e_index (A m ! k)" using assms(4,5) by (simp add: numbered_nth)
  ultimately show ?thesis using assms(6) entries_invD(1) [OF inv] by blast
qed


section \<open>Computed runs of the system\<close>

text \<open>A run of the cluster, and after it one pass of the loop at a server that applies its first entry.\<close>

definition run_system :: "cluster \<Rightarrow> system" where
  "run_system c = \<lparr>sys_cluster = c, sys_fs = (\<lambda>_. new_FSNamespace 0), sys_thread = (\<lambda>_. Fs_waiting)\<rparr>"

lemma run_system_reachable:
  assumes "reachable Q ids c" and "\<And>s l. Q (sys_cluster s) l \<Longrightarrow> P s (Consensus l)"
  shows "system_reachable P ids (run_system c)"
  using assms(1)
proof induction
  case (start c)
  then show ?case by (intro system_reachable.start) (auto simp: initial_system_def run_system_def)
next
  case (step c l c')
  have "system_step ids (run_system c) (Consensus l) (run_system c\<lparr>sys_cluster := c'\<rparr>)"
    by (rule system_step.consensus) (simp add: run_system_def step.hyps(3))
  then have "system_step ids (run_system c) (Consensus l) (run_system c')" by (simp add: run_system_def)
  moreover have "P (run_system c) (Consensus l)" by (rule assms(2)) (simp add: run_system_def step.hyps(2))
  ultimately show ?case using step.IH system_reachable.step by blast
qed

lemma update_run:
  assumes "system_run P ids s0 s" and "P s (Update n)" and "n \<in> set ids"
    and "update_iter (node (sys_cluster s) n) (\<lambda>_. 0) (sys_thread s n) (sys_fs s n) = Inr (th', ns')"
  shows "system_run P ids s0 (s\<lparr>sys_fs := (sys_fs s)(n := ns'), sys_thread := (sys_thread s)(n := th')\<rparr>)"
  by (rule system_run.onward [OF assms(1,2) system_step.update [OF assms(3,4)]])

lemma first_entry_applied:
  assumes n: "n \<in> set ids"
    and P: "\<And>s. \<not> forgets (node (sys_cluster s) n) (sys_thread s n) \<Longrightarrow> P s (Update n)"
    and fresh: "sys_thread s n = Fs_waiting" "sys_fs s n = new_FSNamespace 0"
    and st: "memory_log (raft_log (node (sys_cluster s) n)) = [e]" "last_commited_index (raft_log (node (sys_cluster s) n)) = 1"
      "e_index e = 1" "may_apply 1 (node (sys_cluster s) n)"
    and V: "apply_view e fresh_view = Some V"
  shows "\<exists>ns'. view ns' = V \<and> commited_index ns' = 1 \<and>
    system_run P ids s (s\<lparr>sys_fs := (sys_fs s)(n := ns')\<rparr>)"
proof -
  let ?st = "node (sys_cluster s) n" and ?ns = "new_FSNamespace 0"
  have ns: "fs_wf ?ns" "commited_index ?ns = 0" "view ?ns = fresh_view"
    using replica_fresh [of 0] by (auto simp: replica_def)
  obtain rt ns1 where ap: "apply_entry 0 e ?ns = Inr (rt, ns1)" "view ns1 = V"
    using apply_entry_defined [of ?ns e V 0] ns V by auto
  have log: "GetLastCommitIndex (raft_log ?st) = 1" "GetEntry 1 (raft_log ?st) = Some e"
    using st by (simp_all add: GetLastCommitIndex_def GetEntry_def)
  define s1 where "s1 = s\<lparr>sys_fs := (sys_fs s)(n := ?ns), sys_thread := (sys_thread s)(n := Fs_running 1 0)\<rparr>"
  define s2 where "s2 = s1\<lparr>sys_fs := (sys_fs s1)(n := ns1), sys_thread := (sys_thread s1)(n := Fs_running 2 1)\<rparr>"
  define s3 where "s3 = s2\<lparr>sys_fs := (sys_fs s2)(n := SetCommitedIndex 1 ns1), sys_thread := (sys_thread s2)(n := Fs_waiting)\<rparr>"
  have "system_run P ids s s1"
    unfolding s1_def
    by (rule update_run [OF system_run.here _ n])
      (use fresh ns(2) log in \<open>auto simp: must_update_def GetCommitedIndex_def intro!: P simp: forgets_def\<close>)
  then have "system_run P ids s s2"
    unfolding s2_def
    by (rule update_run [OF _ _ n])
      (use log st(4) ap in \<open>auto simp: s1_def intro!: P simp: forgets_def\<close>)
  then have "system_run P ids s s3"
    unfolding s3_def
    by (rule update_run [OF _ _ n]) (use log in \<open>auto simp: s1_def s2_def intro!: P simp: forgets_def\<close>)
  moreover have "s3 = s\<lparr>sys_fs := (sys_fs s)(n := SetCommitedIndex 1 ns1)\<rparr>"
    using fresh by (auto simp: s3_def s2_def s1_def fun_eq_iff)
  moreover have "view (SetCommitedIndex 1 ns1) = V" "commited_index (SetCommitedIndex 1 ns1) = 1"
    using ap(2) by (simp_all add: view_def SetCommitedIndex_def)
  ultimately show ?thesis by auto
qed

end
