(* ===== verification/System_Properties.thy ===== *)
theory System_Properties
  imports Raft_System
begin

text \<open>
  What the servers of a running system have in common, and where they part: replicas agree
  while operations are logged in one term, and a run of five servers in which two of them
  apply different operations at the same index.
\<close>

section \<open>Two computed runs\<close>

text \<open>
  In the first run server 1 is elected, logs an operation, and has it acknowledged by three
  others.  A follower answers its first request of a new term with its old one, so server 4
  is asked twice.  The next request tells server 2 of the commit.
\<close>

definition elect_1 :: "run_op list" where
  "elect_1 = [Op_timeout 1, Op_vote 1 2, Op_vote 1 3]"

definition agree_run :: "run_op list" where
  "agree_run = elect_1 @ [Op_client 1 kMkdir ''/a'', Op_append 1 2, Op_append 1 3, Op_append 1 4, Op_append 1 4,
     Op_append 1 2]"

text \<open>
  In the second run the operation of server 1 reaches nobody.  Server 2 is elected for the next
  term, logs another operation, and commits it with the acknowledgements of 3, 4 and 5.  Then
  server 1 gets it, refuses it because its own entry is in the way, and takes over the commit
  index that came with it.
\<close>

definition diverge_run :: "run_op list" where
  "diverge_run = elect_1 @ [Op_client 1 kMkdir ''/a'', Op_timeout 2, Op_vote 2 3, Op_vote 2 4, Op_client 2 kMkdir ''/b'',
     Op_append 2 3, Op_append 2 4, Op_append 2 5, Op_append 2 5, Op_append 2 1]"

definition mkdir_entry :: "int \<Rightarrow> string \<Rightarrow> entry" where
  "mkdir_entry t path = \<lparr>e_term = t, e_index = 1, e_op = kMkdir, e_value = path\<rparr>"

definition holds_committed :: "raft \<Rightarrow> entry \<Rightarrow> bool" where
  "holds_committed st e \<longleftrightarrow> memory_log (raft_log st) = [e] \<and> last_commited_index (raft_log st) = 1 \<and>
     (current_role st = kFollower \<or> current_role st = kLeader \<and> quorum_size st \<le> int (card (pending_entries st 1)))"

lemma holds_committed_facts:
  assumes "holds_committed st (mkdir_entry t path)"
  shows "memory_log (raft_log st) = [mkdir_entry t path]" "last_commited_index (raft_log st) = 1"
    "e_index (mkdir_entry t path) = 1" "may_apply 1 st"
  using assms by (auto simp: holds_committed_def mkdir_entry_def may_apply_def IsLeader_def IsFollower_def)

lemma agree_state:
  "case do_ops [1] agree_run run_start of None \<Rightarrow> False
   | Some sts \<Rightarrow> holds_committed (server_at sts 1) (mkdir_entry 1 ''/a'') \<and>
       holds_committed (server_at sts 2) (mkdir_entry 1 ''/a'')"
  by code_simp

lemma diverge_state:
  "case do_ops [1, 2] diverge_run run_start of None \<Rightarrow> False
   | Some sts \<Rightarrow> holds_committed (server_at sts 1) (mkdir_entry 1 ''/a'') \<and>
       holds_committed (server_at sts 2) (mkdir_entry 2 ''/b'')"
  by code_simp

lemma runs_ok:
  "list_all (\<lambda>x. set (op_hosts x) \<subseteq> set five \<and> distinct (op_hosts x)) agree_run"
  "list_all (\<lambda>x. set (op_hosts x) \<subseteq> set five \<and> distinct (op_hosts x)) diverge_run"
  by (simp_all add: agree_run_def diverge_run_def elect_1_def five_def)

lemma run_reaches:
  assumes "case do_ops terms xs run_start of None \<Rightarrow> False | Some sts \<Rightarrow> Q (server_at sts 1) \<and> R (server_at sts 2)"
    and "list_all (\<lambda>x. set (op_hosts x) \<subseteq> set five \<and> distinct (op_hosts x)) xs" and "admits terms P"
  shows "\<exists>c. reachable P five c \<and> Q (node c 1) \<and> R (node c 2)"
proof -
  obtain sts where sts: "do_ops terms xs run_start = Some sts" and q: "Q (server_at sts 1)" "R (server_at sts 2)"
    using assms(1) by (cases "do_ops terms xs run_start") simp_all
  obtain c where c: "reachable P five c" "\<forall>n \<in> set five. node c n = server_at sts n"
    using computed_run [OF assms(3) sts assms(2)] by blast
  have "node c 1 = server_at sts 1" "node c 2 = server_at sts 2" using c(2) by (simp_all add: five_def)
  with c(1) q show ?thesis by auto
qed

lemma agree_cluster:
  "\<exists>c. reachable (\<lambda>c l. orderly c l \<and> (\<forall>n. l = Client n \<longrightarrow> current_term (node c n) = 1)) five c \<and>
     holds_committed (node c 1) (mkdir_entry 1 ''/a'') \<and> holds_committed (node c 2) (mkdir_entry 1 ''/a'')"
  by (rule run_reaches [OF agree_state runs_ok(1)]) (simp add: admits_def)

lemma diverge_cluster:
  "\<exists>c. reachable orderly five c \<and>
     holds_committed (node c 1) (mkdir_entry 1 ''/a'') \<and> holds_committed (node c 2) (mkdir_entry 2 ''/b'')"
  by (rule run_reaches [OF diverge_state runs_ok(2)]) (simp add: admits_def)

lemma in_five: "1 \<in> set five" "2 \<in> set five"
  by (simp_all add: five_def)

text \<open>A committed \<open>kMkdir\<close> of a name below the root shows in the tree of the server that applies it.\<close>

definition with_dir :: "string \<Rightarrow> string list \<Rightarrow> node_view option" where
  "with_dir x = fresh_view([x] \<mapsto> V_dir)"

lemma mkdir_entry_view:
  assumes "SplitPath path = [x]"
  shows "apply_view (mkdir_entry t path) fresh_view = Some (with_dir x)"
  using assms by (auto simp: apply_view_def mkdir_entry_def with_dir_def fresh_view_def fun_eq_iff prefix_Cons)

lemma split_a: "SplitPath ''/a'' = [''a'']" "SplitPath ''/b'' = [''b'']"
  by (simp_all add: SplitPath_def)

lemma mkdir_run:
  assumes "n \<in> set ids"
    and "\<And>s. \<not> forgets (node (sys_cluster s) n) (sys_thread s n) \<Longrightarrow> P s (Update n)"
    and "sys_thread s n = Fs_waiting" "sys_fs s n = new_FSNamespace 0"
    and "holds_committed (node (sys_cluster s) n) (mkdir_entry t path)" and "SplitPath path = [x]"
  shows "\<exists>ns'. view ns' = with_dir x \<and> commited_index ns' = 1 \<and>
    system_run P ids s (s\<lparr>sys_fs := (sys_fs s)(n := ns')\<rparr>)"
proof (rule first_entry_applied [OF assms(1) _ assms(3,4) holds_committed_facts [OF assms(5)] mkdir_entry_view [OF assms(6)]])
  show "\<not> forgets (node (sys_cluster s) n) (sys_thread s n) \<Longrightarrow> P s (Update n)" for s by (rule assms(2))
qed

lemma mkdir_applied:
  assumes "system_reachable P ids s" and "n \<in> set ids"
    and "\<And>s. \<not> forgets (node (sys_cluster s) n) (sys_thread s n) \<Longrightarrow> P s (Update n)"
    and "sys_thread s n = Fs_waiting" "sys_fs s n = new_FSNamespace 0"
    and "holds_committed (node (sys_cluster s) n) (mkdir_entry t path)" and "SplitPath path = [x]"
  shows "\<exists>ns'. view ns' = with_dir x \<and> commited_index ns' = 1 \<and>
    system_reachable P ids (s\<lparr>sys_fs := (sys_fs s)(n := ns')\<rparr>)"
proof -
  have "\<exists>ns'. view ns' = with_dir x \<and> commited_index ns' = 1 \<and> system_run P ids s (s\<lparr>sys_fs := (sys_fs s)(n := ns')\<rparr>)"
    by (rule mkdir_run [OF assms(2) _ assms(4-7)]) (rule assms(3))
  with system_run_reachable [OF assms(1)] show ?thesis by blast
qed


section \<open>Properties\<close>

lemma agree_system:
  "\<exists>s. system_reachable (steady_in 1) five s \<and> sys_thread s = (\<lambda>_. Fs_waiting) \<and>
     view (sys_fs s 1) = with_dir ''a'' \<and> commited_index (sys_fs s 1) = 1 \<and>
     view (sys_fs s 2) = fresh_view \<and> commited_index (sys_fs s 2) = 0"
proof -
  obtain c where c: "reachable (\<lambda>c l. orderly c l \<and> (\<forall>n. l = Client n \<longrightarrow> current_term (node c n) = 1)) five c"
    "holds_committed (node c 1) (mkdir_entry 1 ''/a'')"
    using agree_cluster by blast
  have "system_reachable (steady_in 1) five (run_system c)"
    by (rule run_system_reachable [OF c(1)]) (auto simp: steady_in_def)
  from mkdir_applied [OF this in_five(1) _ _ _ _ split_a(1), of 1] c(2) obtain ns' where
    "view ns' = with_dir ''a''" "commited_index ns' = 1"
    "system_reachable (steady_in 1) five ((run_system c)\<lparr>sys_fs := (sys_fs (run_system c))(1 := ns')\<rparr>)"
    by (auto simp: run_system_def steady_in_def)
  moreover have "view (new_FSNamespace 0) = fresh_view" "commited_index (new_FSNamespace 0) = 0"
    using replica_fresh [of 0] by (auto simp: replica_def)
  ultimately show ?thesis by (intro exI) (auto simp: run_system_def)
qed

lemma agree_applied:
  "\<exists>s A. has_applied (steady_in 1) five s A \<and> sys_thread s = (\<lambda>_. Fs_waiting) \<and>
     view (sys_fs s 1) = with_dir ''a'' \<and> commited_index (sys_fs s 1) = 1 \<and>
     view (sys_fs s 2) = fresh_view \<and> commited_index (sys_fs s 2) = 0"
  using agree_system reachable_has_applied by meson

text \<open>
  C4. What the servers of a running system have applied: in a run in which vote replies are
  counted in their term, operations are logged by leaders and no loop forgets what it has
  applied, the tree and the applied index of each server are those of the entries that its
  thread has applied, in their order, and where two servers have applied an entry of the same
  term at the same place it is the same entry.
\<close>

theorem applied_entries_agree:
  assumes "has_applied steady ids s A"
  shows "(\<forall>n \<in> set ids. replica (A n) (sys_thread s n) (sys_fs s n)) \<and>
    (\<forall>n \<in> set ids. \<forall>m \<in> set ids. \<forall>k. k < length (A n) \<and> k < length (A m) \<and>
       e_term (A n ! k) = e_term (A m ! k) \<longrightarrow> A n ! k = A m ! k)"
proof -
  obtain H where inv: "system_inv ids s H A" using applied_inv [OF assms] by blast
  have "\<forall>n \<in> set ids. replica (A n) (sys_thread s n) (sys_fs s n)"
    using inv by (simp add: system_inv_def)
  with applied_nth [OF inv] show ?thesis by blast
qed

theorem applied_entries_agree_witness:
  "\<exists>s A. has_applied steady five s A \<and> view (sys_fs s 1) = with_dir ''a'' \<and> length (A 1) = 1 \<and>
     (\<forall>n \<in> set five. replica (A n) (sys_thread s n) (sys_fs s n))"
proof -
  obtain s A where s: "has_applied (steady_in 1) five s A" "view (sys_fs s 1) = with_dir ''a''"
    "sys_thread s = (\<lambda>_. Fs_waiting)" "commited_index (sys_fs s 1) = 1"
    using agree_applied by blast
  have A: "has_applied steady five s A"
    by (rule has_applied_mono [OF s(1)]) (simp add: steady_in_def)
  from applied_entries_agree [OF this] have rep: "\<forall>n \<in> set five. replica (A n) (sys_thread s n) (sys_fs s n)" by blast
  with s(3,4) in_five(1) have "length (A 1) = 1" by (fastforce dest: replica_length)
  with A s(2) rep show ?thesis by blast
qed

text \<open>
  C5. In a run in which vote replies are counted in their term, leaders log all operations in
  one term and no loop forgets what it has applied, a replica that lags behind has applied the
  first of the entries that the one ahead has applied, and the others lead from its tree to
  that one's.  So replicas that have applied equally many entries show the same tree.
\<close>

theorem one_term_replicas_agree:
  assumes "has_applied (steady_in T) ids s A" and "n \<in> set ids" "m \<in> set ids"
    and "sys_thread s n = Fs_waiting" "sys_thread s m = Fs_waiting"
    and "commited_index (sys_fs s n) \<le> commited_index (sys_fs s m)"
  shows "\<exists>rest. A m = A n @ rest \<and> commited_index (sys_fs s n) = int (length (A n)) \<and>
    commited_index (sys_fs s m) = int (length (A m)) \<and>
    spec_all apply_view (A n) fresh_view = Some (view (sys_fs s n)) \<and>
    spec_all apply_view rest (view (sys_fs s n)) = Some (view (sys_fs s m))"
proof -
  obtain H where inv: "system_inv ids s H A" and T: "\<forall>e \<in> H. e_term e = T"
    using steady_in_inv [OF assms(1)] by blast
  have rep: "replica (A n) Fs_waiting (sys_fs s n)" "replica (A m) Fs_waiting (sys_fs s m)"
    and H: "set (A n) \<subseteq> H" "set (A m) \<subseteq> H"
    using inv assms(2-5) by (fastforce simp: system_inv_def)+
  have le: "length (A n) \<le> length (A m)" using assms(6) rep [THEN replica_length] by simp
  have "A n ! k = A m ! k" if "k < length (A n)" for k
  proof (rule applied_nth [OF inv assms(2,3) that])
    show "k < length (A m)" using that le by simp
    then show "e_term (A n ! k) = e_term (A m ! k)" using that H T nth_mem by (metis subsetD)
  qed
  then have "A n = take (length (A n)) (A m)" using le by (intro nth_equalityI) simp_all
  then have split: "A m = A n @ drop (length (A n)) (A m)" by (metis append_take_drop_id)
  have "spec_all apply_view (A n @ drop (length (A n)) (A m)) fresh_view = Some (view (sys_fs s m))"
    using rep(2) split by (simp add: replica_def)
  moreover have "spec_all apply_view (A n) fresh_view = Some (view (sys_fs s n))"
    using rep(1) by (simp add: replica_def)
  ultimately have "spec_all apply_view (drop (length (A n)) (A m)) (view (sys_fs s n)) = Some (view (sys_fs s m))"
    by (simp add: spec_all_append)
  with split rep [THEN replica_length] rep(1) show ?thesis unfolding replica_def by blast
qed

theorem one_term_replicas_agree_witness:
  "\<exists>s A e. has_applied (steady_in 1) five s A \<and> view (sys_fs s 1) = with_dir ''a'' \<and> A 2 = [] \<and> A 1 = [e] \<and>
     view (sys_fs s 2) = fresh_view \<and> apply_view e (view (sys_fs s 2)) = Some (view (sys_fs s 1))"
proof -
  obtain s A where s: "has_applied (steady_in 1) five s A" "sys_thread s = (\<lambda>_. Fs_waiting)"
    "view (sys_fs s 1) = with_dir ''a''" "commited_index (sys_fs s 1) = 1"
    "view (sys_fs s 2) = fresh_view" "commited_index (sys_fs s 2) = 0"
    using agree_applied by blast
  obtain rest where "A 1 = A 2 @ rest" "length (A 2) = 0" "length (A 1) = 1"
    "spec_all apply_view rest (view (sys_fs s 2)) = Some (view (sys_fs s 1))"
    using one_term_replicas_agree [OF s(1), of 2 1] s by (auto simp: five_def)
  then obtain e where "A 2 = []" "A 1 = [e]" "apply_view e (view (sys_fs s 2)) = Some (view (sys_fs s 1))"
    by (cases rest) (auto split: option.splits)
  with s show ?thesis by blast
qed

text \<open>
  C15. Replicas can part: in a run of five servers in which vote replies are counted in their
  term, operations are logged by leaders and no loop forgets what it has applied, two servers
  apply different operations at index 1 and show different trees.
\<close>

theorem replicas_diverge:
  "\<exists>s. system_reachable steady five s \<and> sys_thread s 1 = Fs_waiting \<and> sys_thread s 2 = Fs_waiting \<and>
     commited_index (sys_fs s 1) = 1 \<and> commited_index (sys_fs s 2) = 1 \<and>
     view (sys_fs s 1) [''a''] = Some V_dir \<and> view (sys_fs s 2) [''a''] = None"
proof -
  obtain c where c: "reachable orderly five c" "holds_committed (node c 1) (mkdir_entry 1 ''/a'')"
    "holds_committed (node c 2) (mkdir_entry 2 ''/b'')"
    using diverge_cluster by blast
  have "system_reachable steady five (run_system c)" by (rule run_system_reachable [OF c(1)]) simp
  from mkdir_applied [OF this in_five(1) _ _ _ _ split_a(1), of 1] c(2) obtain ns1 where
    1: "view ns1 = with_dir ''a''" "commited_index ns1 = 1"
      "system_reachable steady five ((run_system c)\<lparr>sys_fs := (sys_fs (run_system c))(1 := ns1)\<rparr>)"
    by (auto simp: run_system_def)
  from mkdir_applied [OF 1(3) in_five(2) _ _ _ _ split_a(2), of 2] c(3) obtain ns2 where
    2: "view ns2 = with_dir ''b''" "commited_index ns2 = 1"
      "system_reachable steady five ((run_system c)\<lparr>sys_fs := (sys_fs (run_system c))(1 := ns1, 2 := ns2)\<rparr>)"
    by (auto simp: run_system_def)
  show ?thesis
    by (rule exI, rule conjI, rule 2(3)) (simp add: run_system_def 1 2 with_dir_def fresh_view_def)
qed

end
