(* ===== verification/Cluster_Commits.thy ===== *)
theory Cluster_Commits
  imports System_Properties
begin

text \<open>
  What a commit index stands for.  A leader counts the positive replies for an index and
  commits when they come from a quorum of its hosts; the others take its commit index over.  So
  behind every commit index of a cluster there is a quorum of servers that have stored an
  entry with that index or a later one, and in runs that log in one term it is the same entry.
\<close>

section \<open>Accepting entries is storing them\<close>

lemma overlay_same:
  assumes "e \<in> set news" and "length news \<le> length olds"
  shows "\<exists>f \<in> set (overlay olds news). same_entry f e"
proof -
  obtain i where i: "i < length news" "news ! i = e" using assms(1) by (auto simp: in_set_conv_nth)
  then have "overlay olds news ! i \<in> set (overlay olds news)" using assms(2) by (intro nth_mem) simp
  moreover have "same_entry (overlay olds news ! i) e" using i assms(2) by simp
  ultimately show ?thesis by blast
qed

lemma append_spec_stores:
  assumes "append_spec log news = Some (True, log')" and "e \<in> set news"
  shows "\<exists>f \<in> set log'. same_entry f e"
proof -
  define p where "p = nat (e_index (hd news) - 1)"
  consider "log' = log @ news" | "log' = take p log @ overlay (drop p log) news" "p + length news \<le> length log"
    using assms(1) by (auto simp: append_spec_def Let_def p_def split: if_splits)
  then show ?thesis
  proof cases
    case 2
    then have "length news \<le> length (drop p log)" by simp
    from overlay_same [OF assms(2) this] 2(1) show ?thesis by auto
  qed (use assms(2) in \<open>auto intro: bexI [of _ e]\<close>)
qed

lemma OnAppendEntries_stores:
  assumes "OnAppendEntries t1 t2 req st = Inr (st', resp)" and "log_wf (raft_log st)" and "ae_request_ok req"
    and "aer_success resp" and "e \<in> set (ae_entries req)"
  shows "\<exists>f \<in> set (memory_log (raft_log st')). same_entry f e"
proof -
  have "\<not> ae_term req < current_term st"
    using assms(1,4) by (auto simp: OnAppendEntries_stale default_ae_response_def)
  then have "ae_log_spec (memory_log (raft_log st)) req = Some (True, memory_log (raft_log st'))"
    using OnAppendEntries_effect(1) [OF assms(2,3) _ assms(1)] assms(4) by simp
  with assms(5) show ?thesis
    by (auto simp: ae_log_spec_def split: if_splits intro: append_spec_stores)
qed


section \<open>Acknowledgements and commit indices of one server\<close>

lemma on_ae_response_pending:
  assumes "on_ae_response t i req resp st = Inr (st', nxt)"
  shows "pending_entries st j \<subseteq> pending_entries st' j \<and>
    (\<forall>k \<in> pending_entries st' j. k \<in> pending_entries st j \<or>
       k = i \<and> aer_success resp \<and> (\<exists>e \<in> set (ae_entries req). e_index e = j))"
  using assms
proof (cases rule: on_ae_response_cases)
  case acked
  then obtain q c n where p: "pending_entries st' = fst (count_acks i q c (ae_entries req) (pending_entries st) n)"
    by (auto elim!: ae_acknowledged_cases)
  have "pending_entries st j \<subseteq> pending_entries st' j" unfolding p by (rule count_acks_grows)
  moreover have "pending_entries st' j \<subseteq> insert i (pending_entries st j)" unfolding p by (rule count_acks_only)
  moreover have "pending_entries st' j = pending_entries st j" if "\<forall>e \<in> set (ae_entries req). e_index e \<noteq> j"
    unfolding p by (rule count_acks_other [OF that])
  ultimately show ?thesis using acked by blast
qed (auto simp: raft_frame)

lemma server_step_pending:
  assumes "server_step st st'"
  shows "pending_entries st j \<subseteq> pending_entries st' j"
  using assms
proof (cases rule: server_step.cases)
  case (append_reply i t req resp nxt)
  then show ?thesis using on_ae_response_pending by blast
qed (auto simp: check_leader_round_state raft_frame elim!: OnAppendEntries_cases split: if_splits)

text \<open>
  A reply that moves the commit index moves it to an index with a quorum of acknowledgements;
  a request, to its own commit index; nothing else moves it.
\<close>

lemma on_ae_response_commits:
  assumes "on_ae_response t i req resp st = Inr (st', nxt)" and "raft_ok st"
  shows "last_commited_index (raft_log st') = last_commited_index (raft_log st) \<or>
    last_commited_index (raft_log st') = 0 \<or>
    quorum_size st \<le> int (card (pending_entries st' (last_commited_index (raft_log st'))))"
  using assms(1)
proof (cases rule: on_ae_response_cases)
  case acked
  let ?c = "GetLastCommitIndex (raft_log st)"
  let ?r = "count_acks i (quorum_size st) ?c (ae_entries req) (pending_entries st) ?c"
  obtain l where l: "raft_log st' = l" "pending_entries st' = fst ?r"
    and set: "l = raft_log st \<and> snd ?r = ?c \<or> SetLastCommitIndex (snd ?r) (raft_log st) = Inr l"
    using acked by (auto elim!: ae_acknowledged_cases)
  show ?thesis
  proof (cases "snd ?r = ?c")
    case True
    with set l show ?thesis by (auto simp: SetLastCommitIndex_def GetLastCommitIndex_def split: if_splits)
  next
    case False
    with count_acks_commit [OF False] raft_ok_finite [OF assms(2)]
    have "quorum_size st \<le> int (card (fst ?r (snd ?r)))" by auto
    moreover have "last_commited_index l = snd ?r \<or> l = raft_log st"
      using False set by (auto simp: SetLastCommitIndex_def split: if_splits)
    ultimately show ?thesis using l by metis
  qed
qed (simp_all add: raft_frame)

lemma OnAppendEntries_commits:
  assumes "OnAppendEntries t1 t2 req st = Inr (st', resp)"
    and "log_wf (raft_log st)" and "ae_request_ok req"
  shows "last_commited_index (raft_log st') = last_commited_index (raft_log st) \<or>
    last_commited_index (raft_log st') = ae_leader_commit_index req"
proof (cases "ae_term req < current_term st")
  case True
  with assms(1) show ?thesis by (auto simp: OnAppendEntries_stale)
next
  case False
  then show ?thesis
    using OnAppendEntries_effect(3) [OF assms(2,3) _ assms(1)] by (simp add: commit_after_def)
qed


section \<open>Behind the commit indices of a cluster\<close>

text \<open>The runs that lead from a reachable state to another one.\<close>

definition leads :: "(cluster \<Rightarrow> label \<Rightarrow> bool) \<Rightarrow> int list \<Rightarrow> cluster \<Rightarrow> cluster \<Rightarrow> bool" where
  "leads P ids c0 c \<longleftrightarrow> reachable P ids c0 \<and> rtranclp (\<lambda>a b. \<exists>l. P a l \<and> cluster_step ids a l b) c0 c"

lemma leads_refl: "reachable P ids c \<Longrightarrow> leads P ids c c"
  by (simp add: leads_def)

lemma leads_step: "leads P ids c0 c \<Longrightarrow> P c l \<Longrightarrow> cluster_step ids c l c' \<Longrightarrow> leads P ids c0 c'"
  unfolding leads_def
  by (elim conjE, intro conjI, assumption, rule rtranclp.rtrancl_into_rtrancl, assumption, blast)

text \<open>Server \<open>i\<close> has stored, in some earlier state of the run, an entry with the index and term of \<open>e\<close>.\<close>

definition has_stored :: "(cluster \<Rightarrow> label \<Rightarrow> bool) \<Rightarrow> int list \<Rightarrow> cluster \<Rightarrow> int \<Rightarrow> entry \<Rightarrow> bool" where
  "has_stored P ids c i e \<longleftrightarrow>
     (\<exists>c0. leads P ids c0 c \<and> (\<exists>f \<in> set (memory_log (raft_log (node c0 i))). same_entry f e))"

text \<open>Server \<open>i\<close> has answered a request of \<open>m\<close> that carried \<open>e\<close> with success.\<close>

definition acknowledged :: "cluster \<Rightarrow> int \<Rightarrow> int \<Rightarrow> entry \<Rightarrow> bool" where
  "acknowledged c m i e \<longleftrightarrow>
     (\<exists>req resp. (m, i, req, resp) \<in> ae_back c \<and> aer_success resp \<and> e \<in> set (ae_entries req))"

definition backed :: "int list \<Rightarrow> cluster \<Rightarrow> int \<Rightarrow> bool" where
  "backed ids c k \<longleftrightarrow> k \<le> 0 \<or>
     (\<exists>m \<in> set ids. \<exists>j \<ge> k. int (card (set ids)) div 2 + 1 \<le> int (card (pending_entries (node c m) j)))"

definition commits_inv :: "(cluster \<Rightarrow> label \<Rightarrow> bool) \<Rightarrow> int list \<Rightarrow> cluster \<Rightarrow> bool" where
  "commits_inv P ids c \<longleftrightarrow>
     (\<forall>m i e. acknowledged c m i e \<longrightarrow> has_stored P ids c i e) \<and>
     (\<forall>m \<in> set ids. \<forall>j. \<forall>i \<in> pending_entries (node c m) j. \<exists>e. acknowledged c m i e \<and> e_index e = j) \<and>
     (\<forall>n \<in> set ids. backed ids c (last_commited_index (raft_log (node c n)))) \<and>
     (\<forall>n i req. (n, i, req) \<in> ae_net c \<longrightarrow> backed ids c (ae_leader_commit_index req))"

lemma commits_invD:
  assumes "commits_inv P ids c"
  shows "acknowledged c m i e \<Longrightarrow> has_stored P ids c i e"
    and "m \<in> set ids \<Longrightarrow> i \<in> pending_entries (node c m) j \<Longrightarrow> \<exists>e. acknowledged c m i e \<and> e_index e = j"
    and "n \<in> set ids \<Longrightarrow> backed ids c (last_commited_index (raft_log (node c n)))"
    and "(n, i, req) \<in> ae_net c \<Longrightarrow> backed ids c (ae_leader_commit_index req)"
  using assms unfolding commits_inv_def by blast+

lemma has_stored_step:
  "has_stored P ids c i e \<Longrightarrow> P c l \<Longrightarrow> cluster_step ids c l c' \<Longrightarrow> has_stored P ids c' i e"
  unfolding has_stored_def using leads_step by blast

lemma acknowledged_step: "acknowledged c m i e \<Longrightarrow> cluster_step ids c l c' \<Longrightarrow> acknowledged c' m i e"
  by (cases rule: cluster_step.cases, assumption) (auto simp: acknowledged_def)

lemma pending_step:
  assumes "cluster_step ids c l c'" and "members_ok ids c" and "messages_ok ids c"
  shows "pending_entries (node c m) j \<subseteq> pending_entries (node c' m) j"
  using assms
proof (cases rule: cluster_step_server)
  case (moved k st')
  with server_step_pending [OF moved(2)] show ?thesis by auto
qed simp

lemma backed_step:
  assumes step: "cluster_step ids c l c'" and m: "members_ok ids c" "messages_ok ids c" and "backed ids c k"
  shows "backed ids c' k"
proof (cases "k \<le> 0")
  case False
  with assms(4) obtain n j where n: "n \<in> set ids" "k \<le> j"
    "int (card (set ids)) div 2 + 1 \<le> int (card (pending_entries (node c n) j))"
    by (auto simp: backed_def)
  have "raft_ok (node c' n)" using members_okD(1) [OF members_ok_step [OF step m] n(1)] .
  then have "card (pending_entries (node c n) j) \<le> card (pending_entries (node c' n) j)"
    by (intro card_mono raft_ok_finite pending_step [OF step m])
  with n show ?thesis unfolding backed_def by (intro disjI2 bexI [of _ n] exI [of _ j]) simp_all
qed (simp add: backed_def)

lemma reachable_members:
  assumes "reachable P ids c"
  shows "members_ok ids c" "messages_ok ids c"
  using reachable_base [OF assms] by simp_all

lemma stored_step:
  assumes step: "cluster_step ids c l c'" and "reachable P ids c" and P: "P c l"
    and inv: "commits_inv P ids c" and ack: "acknowledged c' m i e"
  shows "has_stored P ids c' i e"
proof (cases "acknowledged c m i e")
  case True
  then show ?thesis by (rule has_stored_step [OF commits_invD(1) [OF inv] P step])
next
  case False
  have reach: "reachable P ids c'" by (rule reachable.step [OF assms(2) P step])
  from step False ack obtain req resp t1 t2 st' where net: "(m, i, req) \<in> ae_net c"
    and run: "OnAppendEntries t1 t2 req (node c i) = Inr (st', resp)"
    and c': "node c' i = st'" and ok: "aer_success resp" "e \<in> set (ae_entries req)"
    by (cases rule: cluster_step.cases; auto simp: acknowledged_def)
  have logs: "cluster_logs_ok ids c" by (rule reachable_logs_ok [OF assms(2)])
  have "i \<in> set ids"
    using messages_okD(3) [OF _ net] reachable_members [OF assms(2)] by blast
  then have "log_wf (raft_log (node c i))" using cluster_logs_okD(1) [OF logs] by (simp add: server_logs_ok_def)
  from OnAppendEntries_stores [OF run this cluster_logs_okD(2) [OF logs net] ok] c'
  show ?thesis using leads_refl [OF reach] unfolding has_stored_def by blast
qed

lemma acks_step:
  assumes step: "cluster_step ids c l c'" and m: "members_ok ids c" "messages_ok ids c"
    and inv: "commits_inv P ids c" and n: "n \<in> set ids" and i: "i \<in> pending_entries (node c' n) j"
  shows "\<exists>e. acknowledged c' n i e \<and> e_index e = j"
proof (cases "i \<in> pending_entries (node c n) j")
  case True
  then show ?thesis using commits_invD(2) [OF inv n] acknowledged_step [OF _ step] by blast
next
  case False
  have new: "\<exists>e. acknowledged c' n i e \<and> e_index e = j"
    if "on_ae_response t k req resp (node c n) = Inr (st', nxt)" "(n, k, req, resp) \<in> ae_back c"
      "node c' n = st'" "ae_back c' = ae_back c" for t k req resp st' nxt
  proof -
    from on_ae_response_pending [OF that(1), of j] i False that(3)
    have "i = k" "aer_success resp" "\<exists>e \<in> set (ae_entries req). e_index e = j" by auto
    with that(2,4) show ?thesis by (auto simp: acknowledged_def)
  qed
  have none: False if "on_ae_response t k req default_ae_response (node c n) = Inr (st', nxt)" "node c' n = st'" for t k req st' nxt
    using on_ae_response_pending [OF that(1), of j] i False that(2) by (auto simp: default_ae_response_def)
  show ?thesis using step
  proof (cases rule: cluster_step.cases)
    case (reply_ae k i' req resp t st' nxt)
    then show ?thesis using new i False by (cases "k = n") auto
  next
    case (skip_ae k i' req t st' nxt)
    then show ?thesis using none [of t i' req st' nxt] i False by (cases "k = n") auto
  next
    case (handle_ae k i' req t1 t2 st' resp)
    then show ?thesis
      using i False by (cases "i' = n") (auto simp: raft_frame elim!: OnAppendEntries_cases)
  next
    case (handle_rv k i' req t1 t2 st' resp)
    then show ?thesis
      using i False OnRequestVote_frame [of t1 t2 req "node c i'"] by (cases "i' = n") auto
  qed (use i False in \<open>auto simp: check_leader_round_state raft_frame split: if_splits\<close>)
qed

lemma commit_step:
  assumes step: "cluster_step ids c l c'" and m: "members_ok ids c" "messages_ok ids c"
    and logs: "cluster_logs_ok ids c" and inv: "commits_inv P ids c" and n: "n \<in> set ids"
  shows "backed ids c' (last_commited_index (raft_log (node c' n)))"
proof -
  have old: "backed ids c' (last_commited_index (raft_log (node c n)))"
    by (rule backed_step [OF step m commits_invD(3) [OF inv n]])
  have reply: "backed ids c' (last_commited_index (raft_log (node c' n)))"
    if "on_ae_response t i req resp (node c n) = Inr (st', nxt)" "node c' n = st'" for t i req resp st' nxt
  proof -
    have ok: "raft_ok (node c n)" "quorum_size (node c n) = int (card (set ids)) div 2 + 1"
      using members_okD [OF m(1) n] by simp_all
    from on_ae_response_commits [OF that(1) ok(1)] that(2) old ok(2) n show ?thesis
      by (auto simp: backed_def)
  qed
  have request: "backed ids c' (last_commited_index (raft_log (node c' n)))"
    if "(k, n, req) \<in> ae_net c" "OnAppendEntries t1 t2 req (node c n) = Inr (st', resp)" "node c' n = st'"
    for k req t1 t2 st' resp
  proof -
    have "log_wf (raft_log (node c n))" using cluster_logs_okD(1) [OF logs n] by (simp add: server_logs_ok_def)
    from OnAppendEntries_commits [OF that(2) this cluster_logs_okD(2) [OF logs that(1)]]
      backed_step [OF step m commits_invD(4) [OF inv that(1)]] old that(3)
    show ?thesis by auto
  qed
  show ?thesis using step
  proof (cases rule: cluster_step.cases)
    case (handle_ae k i req t1 t2 st' resp)
    then show ?thesis using old request [of k req t1 t2 st' resp] by (cases "i = n") auto
  next
    case (reply_ae k i req resp t st' nxt)
    then show ?thesis using old reply [of t i req resp st' nxt] by (cases "k = n") auto
  next
    case (skip_ae k i req t st' nxt)
    then show ?thesis using old reply [of t i req default_ae_response st' nxt] by (cases "k = n") auto
  next
    case (handle_rv k i req t1 t2 st' resp)
    then show ?thesis
      using old OnRequestVote_frame [of t1 t2 req "node c i"] by (cases "i = n") auto
  qed (use old in \<open>auto simp: check_leader_round_state raft_frame Append_entry_def meta_append_def Let_def split: if_splits\<close>)
qed

lemma request_step:
  assumes step: "cluster_step ids c l c'" and m: "members_ok ids c" "messages_ok ids c"
    and inv: "commits_inv P ids c" and net: "(n, i, req) \<in> ae_net c'"
  shows "backed ids c' (ae_leader_commit_index req)"
proof (cases "(n, i, req) \<in> ae_net c")
  case True
  then show ?thesis by (rule backed_step [OF step m commits_invD(4) [OF inv]])
next
  case False
  with step net have "n \<in> set ids" and "remote_call i (node c n) = Call_AE req"
    by (cases rule: cluster_step.cases; auto)+
  then have n: "n \<in> set ids" and "ae_leader_commit_index req = GetLastCommitIndex (raft_log (node c n))"
    by (auto simp: remote_call_def make_ae_request_def Let_def split: role.splits)
  then have "backed ids c (ae_leader_commit_index req)"
    using commits_invD(3) [OF inv n] by (auto simp: GetLastCommitIndex_def backed_def)
  then show ?thesis by (rule backed_step [OF step m])
qed

lemma reachable_commits_inv: "reachable P ids c \<Longrightarrow> commits_inv P ids c"
proof (induction rule: reachable.induct)
  case (start c)
  then show ?case
    by (auto simp: commits_inv_def acknowledged_def initial_cluster_def fresh_server_def new_raft_fields
        new_log_def backed_def)
next
  case (step c l c')
  note m = reachable_members [OF step.hyps(1)]
  show ?case
    unfolding commits_inv_def
    using stored_step [OF step.hyps(3,1,2) step.IH] acks_step [OF step.hyps(3) m step.IH]
      commit_step [OF step.hyps(3) m reachable_logs_ok [OF step.hyps(1)] step.IH]
      request_step [OF step.hyps(3) m step.IH] by blast
qed


section \<open>Properties\<close>

lemma commit_behind:
  assumes "reachable P ids c" and "n \<in> set ids" and "0 < GetLastCommitIndex (raft_log (node c n))"
  obtains m k Q where "m \<in> set ids" "GetLastCommitIndex (raft_log (node c n)) \<le> k"
    "Q \<subseteq> set ids - {m}" "card (set ids) div 2 + 1 \<le> card Q"
    "\<And>i. i \<in> Q \<Longrightarrow> \<exists>e. e_index e = k \<and> acknowledged c m i e \<and> has_stored P ids c i e"
proof -
  have inv: "commits_inv P ids c" by (rule reachable_commits_inv [OF assms(1)])
  have "backed ids c (GetLastCommitIndex (raft_log (node c n)))"
    using commits_invD(3) [OF inv assms(2)] assms(3) by (simp add: GetLastCommitIndex_def split: if_splits)
  with assms(3) obtain m k where m: "m \<in> set ids" "GetLastCommitIndex (raft_log (node c n)) \<le> k"
    "int (card (set ids)) div 2 + 1 \<le> int (card (pending_entries (node c m) k))"
    by (auto simp: backed_def)
  show thesis
  proof (rule that [OF m(1,2)])
    show "pending_entries (node c m) k \<subseteq> set ids - {m}"
      using members_okD(1,3) [OF reachable_members(1) [OF assms(1)] m(1)] by (auto simp: raft_ok_def)
    show "card (set ids) div 2 + 1 \<le> card (pending_entries (node c m) k)" using m(3) by linarith
    show "\<exists>e. e_index e = k \<and> acknowledged c m i e \<and> has_stored P ids c i e"
      if "i \<in> pending_entries (node c m) k" for i
      using commits_invD(2) [OF inv m(1) that] commits_invD(1) [OF inv] by blast
  qed
qed

text \<open>
  C6. Behind a commit index there is a quorum: in every run whatever, when a server has a commit
  index, some server \<open>m\<close> has had a request with an entry at that index, or a later one,
  answered with success by at least \<open>N / 2 + 1\<close> other servers, and each of them has stored an
  entry with the index and term of the one it acknowledged.
\<close>

theorem commit_is_stored:
  assumes "reachable P ids c" and "n \<in> set ids" and "0 < GetLastCommitIndex (raft_log (node c n))"
  shows "\<exists>m \<in> set ids. \<exists>Q k. Q \<subseteq> set ids - {m} \<and> card (set ids) div 2 + 1 \<le> card Q \<and>
    GetLastCommitIndex (raft_log (node c n)) \<le> k \<and>
    (\<forall>i \<in> Q. \<exists>e. e_index e = k \<and> acknowledged c m i e \<and> has_stored P ids c i e)"
  by (rule commit_behind [OF assms]) blast

lemma card_five: "card (set five) = 5"
  by (simp add: five_def)

theorem commit_is_stored_witness:
  "\<exists>c. reachable orderly five c \<and> (\<exists>Q k. 3 \<le> card Q \<and> 1 \<le> k \<and>
     (\<forall>i \<in> Q. \<exists>e. e_index e = k \<and> has_stored orderly five c i e))"
proof -
  obtain c where run: "reachable (\<lambda>c l. orderly c l \<and> (\<forall>n. l = Client n \<longrightarrow> current_term (node c n) = 1)) five c"
    and c: "holds_committed (node c 1) (mkdir_entry 1 ''/a'')"
    using agree_cluster by blast
  have "reachable orderly five c" by (rule reachable_mono [OF run]) simp
  note c = this c
  have "GetLastCommitIndex (raft_log (node c 1)) = 1"
    using c holds_committed_facts by (simp add: GetLastCommitIndex_def)
  with commit_is_stored [OF c(1) in_five(1)] have "\<exists>Q k. 3 \<le> card Q \<and> 1 \<le> k \<and>
      (\<forall>i \<in> Q. \<exists>e. e_index e = k \<and> has_stored orderly five c i e)"
    unfolding card_five by force
  with c(1) show ?thesis by blast
qed

text \<open>The runs of a cluster that log in one term only.\<close>

definition in_term :: "int \<Rightarrow> cluster \<Rightarrow> label \<Rightarrow> bool" where
  "in_term T c l \<longleftrightarrow> orderly c l \<and> (\<forall>n. l = Client n \<longrightarrow> current_term (node c n) = T)"

lemma in_term_history:
  assumes "reachable (in_term T) ids c"
  shows "\<exists>H. entries_inv ids c H \<and> (\<forall>e \<in> H. e_term e = T)"
proof -
  have "system_reachable (steady_in T) ids (run_system c)"
    by (rule run_system_reachable [OF assms]) (simp add: steady_in_def in_term_def)
  then obtain A where "has_applied (steady_in T) ids (run_system c) A" using reachable_has_applied by blast
  from steady_in_inv [OF this] show ?thesis by (auto simp: system_inv_def run_system_def)
qed

text \<open>
  While operations are logged in one term, the quorum behind a commit index has stored one and
  the same entry: there is an entry of the term, at the commit index or later, that at least
  \<open>N / 2 + 1\<close> servers other than the one that sent it have acknowledged and stored.
\<close>

theorem one_term_commit_is_stored:
  assumes "reachable (in_term T) ids c" and "n \<in> set ids" and "0 < GetLastCommitIndex (raft_log (node c n))"
  shows "\<exists>e. \<exists>m \<in> set ids. \<exists>Q \<subseteq> set ids - {m}. card (set ids) div 2 + 1 \<le> card Q \<and>
    GetLastCommitIndex (raft_log (node c n)) \<le> e_index e \<and> e_term e = T \<and>
    (\<forall>i \<in> Q. acknowledged c m i e \<and> has_stored (in_term T) ids c i e)"
proof -
  obtain m k Q where m: "m \<in> set ids" and k: "GetLastCommitIndex (raft_log (node c n)) \<le> k"
    and Q: "Q \<subseteq> set ids - {m}" "card (set ids) div 2 + 1 \<le> card Q"
    and each: "\<And>i. i \<in> Q \<Longrightarrow> \<exists>e. e_index e = k \<and> acknowledged c m i e \<and> has_stored (in_term T) ids c i e"
    by (rule commit_behind [OF assms]) blast
  obtain H where H: "entries_inv ids c H" "\<forall>e \<in> H. e_term e = T" using in_term_history [OF assms(1)] by blast
  have in_H: "e \<in> H" if ack: "acknowledged c m i e" for i e
  proof -
    obtain req resp where "(m, i, req, resp) \<in> ae_back c" and e: "e \<in> set (ae_entries req)"
      using ack by (auto simp: acknowledged_def)
    then have "(m, i, req) \<in> ae_net c" using messages_okD(4) reachable_members(2) [OF assms(1)] by blast
    with e show ?thesis by (intro entries_invD(5) [OF H(1)] heldI(2))
  qed
  obtain i where "i \<in> Q" using Q(2) by fastforce
  with each obtain e where e: "e_index e = k" "acknowledged c m i e" by blast
  have "acknowledged c m j e \<and> has_stored (in_term T) ids c j e" if j: "j \<in> Q" for j
  proof -
    obtain f where f: "e_index f = k" "acknowledged c m j f" "has_stored (in_term T) ids c j f" using each [OF j] by blast
    have "f = e" using entries_invD(1) [OF H(1)] in_H [OF f(2)] in_H [OF e(2)] H(2) f(1) e(1) by metis
    with f show ?thesis by simp
  qed
  moreover have "e_term e = T" using in_H [OF e(2)] H(2) by blast
  ultimately show ?thesis using m k Q e(1) by blast
qed

theorem one_term_commit_is_stored_witness:
  "\<exists>c e Q. reachable (in_term 1) five c \<and> 3 \<le> card Q \<and> e_term e = 1 \<and>
     (\<forall>i \<in> Q. has_stored (in_term 1) five c i e)"
proof -
  obtain c where c: "reachable (in_term 1) five c" "holds_committed (node c 1) (mkdir_entry 1 ''/a'')"
    using agree_cluster by (auto simp: in_term_def [abs_def])
  then have "0 < GetLastCommitIndex (raft_log (node c 1))"
    using holds_committed_facts by (simp add: GetLastCommitIndex_def)
  from one_term_commit_is_stored [OF c(1) in_five(1) this] c(1) show ?thesis
    unfolding card_five by force
qed

end
