(* ===== verification/Log_Matching.thy ===== *)
theory Log_Matching
  imports Cluster_Commits
begin

text \<open>
  How the logs of different servers match.  While operations are logged in one term, of two logs
  one is a prefix of the other.  Over several terms two logs can hold the same entry
  behind different ones, because \<open>OnAppendEntries\<close> compares the last index of the log with
  \<open>prev_log_index\<close> but never the terms.
\<close>

section \<open>One term\<close>

lemma numbered_prefix:
  assumes "numbered_from k xs" "numbered_from k ys" and "length xs \<le> length ys"
    and "\<And>x y. x \<in> set xs \<Longrightarrow> y \<in> set ys \<Longrightarrow> e_index x = e_index y \<Longrightarrow> x = y"
  shows "prefix xs ys"
proof -
  have "xs ! i = ys ! i" if "i < length xs" for i
    using that assms by (intro assms(4)) (auto simp: numbered_iff_nth)
  then have "xs = take (length xs) ys" using assms(3) by (intro nth_equalityI) simp_all
  then show ?thesis by (metis take_is_prefix)
qed

text \<open>
  C16. In a run in which vote replies are counted in their term and leaders log all operations
  in one term, the logs of any two servers match: one of them is a prefix of the other, and
  every log is a prefix of that of the leader of the term.
\<close>

theorem one_term_logs_match:
  assumes "reachable (in_term T) ids c" and "n \<in> set ids" "m \<in> set ids"
  shows "(prefix (memory_log (raft_log (node c n))) (memory_log (raft_log (node c m))) \<or>
      prefix (memory_log (raft_log (node c m))) (memory_log (raft_log (node c n)))) \<and>
    (current_role (node c m) = kLeader \<longrightarrow> current_term (node c m) = T \<longrightarrow>
      prefix (memory_log (raft_log (node c n))) (memory_log (raft_log (node c m))))"
proof -
  obtain H where H: "entries_inv ids c H" "\<forall>e \<in> H. e_term e = T" using in_term_history [OF assms(1)] by blast
  have num: "numbered_from 1 (memory_log (raft_log (node c k)))" if "k \<in> set ids" for k
    using cluster_logs_okD(1) [OF reachable_logs_ok [OF assms(1)] that] by (simp add: server_logs_ok_def log_wf_def)
  have in_H: "e \<in> H" if "k \<in> set ids" "e \<in> set (memory_log (raft_log (node c k)))" for k e
    using entries_invD(5) [OF H(1)] heldI(1) [OF that] by blast
  have same: "x = y" if "k \<in> set ids" "l \<in> set ids" "x \<in> set (memory_log (raft_log (node c k)))"
    "y \<in> set (memory_log (raft_log (node c l)))" "e_index x = e_index y" for k l x y
    using entries_invD(1) [OF H(1) in_H in_H] that H(2) in_H by metis
  have pre: "prefix (memory_log (raft_log (node c k))) (memory_log (raft_log (node c l)))"
    if "k \<in> set ids" "l \<in> set ids" "length (memory_log (raft_log (node c k))) \<le> length (memory_log (raft_log (node c l)))" for k l
    using that by (intro numbered_prefix [OF num num] same [OF that(1,2)]) simp_all
  have "length (memory_log (raft_log (node c n))) \<le> length (memory_log (raft_log (node c m)))"
    if "current_role (node c m) = kLeader" "current_term (node c m) = T"
  proof -
    have "set (memory_log (raft_log (node c n))) \<subseteq> set (memory_log (raft_log (node c m)))"
      using entries_invD(2) [OF H(1) assms(3) that(1)] in_H [OF assms(2)] H(2) that(2) by blast
    moreover have "distinct (memory_log (raft_log (node c n)))"
      using num [OF assms(2)] by (auto simp: numbered_iff_nth distinct_conv_nth) (metis nat_int add_left_cancel)
    ultimately show ?thesis by (metis card_length card_mono distinct_card finite_set le_trans)
  qed
  with pre [OF assms(2,3)] pre [OF assms(3,2)] show ?thesis by (meson nat_le_linear)
qed

definition leads_with :: "int \<Rightarrow> entry \<Rightarrow> raft \<Rightarrow> bool" where
  "leads_with t e st \<longleftrightarrow> current_role st = kLeader \<and> current_term st = t \<and> memory_log (raft_log st) = [e]"

lemma agree_leader_state:
  "case do_ops [1] agree_run run_start of None \<Rightarrow> False
   | Some sts \<Rightarrow> leads_with 1 (mkdir_entry 1 ''/a'') (server_at sts 1) \<and> holds_committed (server_at sts 2) (mkdir_entry 1 ''/a'')"
  by code_simp

theorem one_term_logs_match_witness:
  "\<exists>c. reachable (in_term 1) five c \<and> memory_log (raft_log (node c 2)) = [mkdir_entry 1 ''/a''] \<and>
     prefix (memory_log (raft_log (node c 2))) (memory_log (raft_log (node c 1)))"
proof -
  obtain c where c: "reachable (in_term 1) five c" "leads_with 1 (mkdir_entry 1 ''/a'') (node c 1)"
    "holds_committed (node c 2) (mkdir_entry 1 ''/a'')"
    using run_reaches [OF agree_leader_state runs_ok(1), of "in_term 1"] by (auto simp: admits_def in_term_def)
  from one_term_logs_match [OF c(1) in_five(2,1)] c holds_committed_facts(1) [OF c(3)]
  show ?thesis by (auto simp: leads_with_def)
qed


section \<open>Several terms\<close>

text \<open>
  Server 1 logs an operation in term 1 that reaches nobody.  Server 2 is elected for term 2, logs
  another one and has it stored by 3 and 4.  Then server 3 is elected for term 3: it expects
  every log to be as long as its own, and its next operation goes to server 1 with
  \<open>prev_log_index\<close> 1, where it finds a log of length 1.
\<close>

definition mismatch_run :: "run_op list" where
  "mismatch_run = elect_1 @ [Op_client 1 kMkdir ''/a'', Op_timeout 2, Op_vote 2 3, Op_vote 2 4, Op_client 2 kMkdir ''/b'',
     Op_append 2 3, Op_append 2 4, Op_timeout 3, Op_vote 3 4, Op_vote 3 5, Op_client 3 kMkdir ''/c'', Op_append 3 1]"

definition logs_two :: "entry \<Rightarrow> entry \<Rightarrow> raft \<Rightarrow> bool" where
  "logs_two e f st \<longleftrightarrow> memory_log (raft_log st) = [e, f]"

definition mkdir_c :: entry where
  "mkdir_c = \<lparr>e_term = 3, e_index = 2, e_op = kMkdir, e_value = ''/c''\<rparr>"

lemma mismatch_state:
  "case do_ops [1, 2, 3] mismatch_run run_start of None \<Rightarrow> False
   | Some sts \<Rightarrow> logs_two (mkdir_entry 1 ''/a'') mkdir_c (server_at sts 1) \<and>
       logs_two (mkdir_entry 2 ''/b'') mkdir_c (server_at sts 3)"
  by code_simp

text \<open>
  C17. Logs do not match over several terms: in a run of five servers in which vote replies are
  counted in their term and operations are logged by leaders, two servers hold the same entry
  at index 2 behind different entries at index 1.
\<close>

theorem log_matching_fails:
  "\<exists>c. reachable orderly five c \<and>
     memory_log (raft_log (node c 1)) = [mkdir_entry 1 ''/a'', mkdir_c] \<and>
     memory_log (raft_log (node c 3)) = [mkdir_entry 2 ''/b'', mkdir_c]"
proof -
  obtain sts where sts: "do_ops [1, 2, 3] mismatch_run run_start = Some sts"
    "logs_two (mkdir_entry 1 ''/a'') mkdir_c (server_at sts 1)" "logs_two (mkdir_entry 2 ''/b'') mkdir_c (server_at sts 3)"
    using mismatch_state by (auto split: option.splits)
  have "list_all (\<lambda>x. set (op_hosts x) \<subseteq> set five \<and> distinct (op_hosts x)) mismatch_run"
    by (simp add: mismatch_run_def elect_1_def five_def)
  from computed_run [OF _ sts(1) this, of orderly] obtain c where
    "reachable orderly five c" "\<forall>n \<in> set five. node c n = server_at sts n"
    by (auto simp: admits_def)
  then show ?thesis using sts(2,3) by (intro exI [of _ c]) (simp add: logs_two_def five_def)
qed

end
