(* ===== verification/Client_RPC.thy ===== *)
theory Client_RPC
  imports FS_Update
begin

text \<open>
  The handlers of the client service, \<open>server/ClientRPCService\<close>.  A handler fills in the
  response object that the RPC runtime made for it, so a field it does not write keeps the
  value of the generated constructor.  The four metadata handlers have the same body around
  \<open>OnMetaOperation\<close>; \<open>others\<close> is what the other threads do while that call waits.
\<close>

section \<open>Responses\<close>

record meta_response =
  mr_status :: status
  mr_leader_id :: "int option"

record leader_response =
  lr_status :: status
  lr_leader_id :: int

record info_response =
  ir_status :: status
  ir_info :: file_info

record list_response =
  dr_status :: status
  dr_dir_list :: "string list option"

definition default_meta_response :: meta_response where
  "default_meta_response = \<lparr>mr_status = kOK, mr_leader_id = None\<rparr>"

definition default_leader_response :: leader_response where
  "default_leader_response = \<lparr>lr_status = kOK, lr_leader_id = 0\<rparr>"

definition default_file_info :: file_info where
  "default_file_info = \<lparr>fi_path = [], fi_size = Some 0, fi_creator = [], fi_create_time = 0\<rparr>"

definition default_info_response :: info_response where
  "default_info_response = \<lparr>ir_status = kOK, ir_info = default_file_info\<rparr>"

definition default_list_response :: list_response where
  "default_list_response = \<lparr>dr_status = kOK, dr_dir_list = None\<rparr>"


section \<open>Handlers\<close>

definition rpc_GetLeader :: "raft \<Rightarrow> leader_response \<Rightarrow> leader_response" where
  "rpc_GetLeader st ret = ret\<lparr>lr_leader_id := GetLeader st\<rparr>"

definition meta_handler ::
  "meta_op \<Rightarrow> string \<Rightarrow> (raft \<Rightarrow> raft list) \<Rightarrow> raft \<Rightarrow> meta_response \<Rightarrow> (raft \<times> meta_response) outcome"
where
  "meta_handler op path others st ret =
     (if \<not> ValidatePath path then Inr (st, ret\<lparr>mr_status := kPathError\<rparr>)
      else if \<not> IsLeader st then Inr (st, ret\<lparr>mr_status := kNotLeader, mr_leader_id := Some (GetLeader st)\<rparr>)
      else and_then (OnMetaOperation op path others st) (\<lambda>(st', s). Inr (st', ret\<lparr>mr_status := s\<rparr>)))"

definition rpc_Mkdir ::
  "string \<Rightarrow> (raft \<Rightarrow> raft list) \<Rightarrow> raft \<Rightarrow> meta_response \<Rightarrow> (raft \<times> meta_response) outcome" where
  "rpc_Mkdir = meta_handler kMkdir"

definition rpc_Rmdir ::
  "string \<Rightarrow> (raft \<Rightarrow> raft list) \<Rightarrow> raft \<Rightarrow> meta_response \<Rightarrow> (raft \<times> meta_response) outcome" where
  "rpc_Rmdir = meta_handler kRmdir"

definition rpc_CreateFile ::
  "string \<Rightarrow> (raft \<Rightarrow> raft list) \<Rightarrow> raft \<Rightarrow> meta_response \<Rightarrow> (raft \<times> meta_response) outcome" where
  "rpc_CreateFile = meta_handler kCreate"

definition rpc_DeleteFile ::
  "string \<Rightarrow> (raft \<Rightarrow> raft list) \<Rightarrow> raft \<Rightarrow> meta_response \<Rightarrow> (raft \<times> meta_response) outcome" where
  "rpc_DeleteFile = meta_handler kDelete"

definition rpc_InjectTestCase :: "int \<Rightarrow> status \<Rightarrow> status" where
  "rpc_InjectTestCase test_type ret = ret"

definition rpc_GetFileInfo :: "string \<Rightarrow> fs_namespace \<Rightarrow> info_response \<Rightarrow> info_response outcome" where
  "rpc_GetFileInfo file ns ret =
     (if \<not> ValidatePath file then Inr (ret\<lparr>ir_status := kPathError\<rparr>)
      else and_then (GetFileInfo file ns) (\<lambda>(found, info).
        let ret' = (case info of None \<Rightarrow> ret | Some i \<Rightarrow> ret\<lparr>ir_info := i\<rparr>)
        in Inr (ret'\<lparr>ir_status := (if found then kOK else kNotFound)\<rparr>)))"

definition rpc_ListDir :: "string \<Rightarrow> fs_namespace \<Rightarrow> list_response \<Rightarrow> list_response outcome" where
  "rpc_ListDir dir ns ret =
     (if \<not> ValidatePath dir then Inr (ret\<lparr>dr_status := kPathError\<rparr>)
      else and_then (ListDir dir ns) (\<lambda>xs. Inr (ret\<lparr>dr_dir_list := Some xs, dr_status := kOK\<rparr>)))"

text \<open>The metadata handlers by operation, for the properties they share.\<close>

fun rpc_meta :: "meta_op \<Rightarrow> (string \<Rightarrow> (raft \<Rightarrow> raft list) \<Rightarrow> raft \<Rightarrow> meta_response \<Rightarrow> (raft \<times> meta_response) outcome) option" where
  "rpc_meta kMkdir = Some rpc_Mkdir"
| "rpc_meta kRmdir = Some rpc_Rmdir"
| "rpc_meta kCreate = Some rpc_CreateFile"
| "rpc_meta kDelete = Some rpc_DeleteFile"
| "rpc_meta _ = None"

lemma rpc_meta_handler: "rpc_meta op = Some h \<Longrightarrow> h = meta_handler op"
  by (cases op) (auto simp: rpc_Mkdir_def rpc_Rmdir_def rpc_CreateFile_def rpc_DeleteFile_def)

section \<open>Properties\<close>

text \<open>
  C33. The four metadata handlers on a server that satisfies the server invariant: an invalid
  path is answered \<open>kPathError\<close>; a server that is not leader answers \<open>kNotLeader\<close> and names
  the leader it knows, and in both cases nothing changes; a leader logs the operation with
  its path under the next index, in its term, and answers \<open>kOK\<close> when the commit index has
  reached the entry at the end of the wait, \<open>kTimeout\<close> otherwise, and never \<open>kNoLeader\<close>;
  undefined is a wait in which the entry is replaced or erased.
\<close>

theorem meta_handlers:
  assumes "raft_ok st" and "rpc_meta op = Some handler"
  shows "handler path others st default_meta_response =
    (if \<not> ValidatePath path then Inr (st, \<lparr>mr_status = kPathError, mr_leader_id = None\<rparr>)
     else if current_role st \<noteq> kLeader then Inr (st, \<lparr>mr_status = kNotLeader, mr_leader_id = Some (leader_id st)\<rparr>)
     else
       let e = \<lparr>e_term = current_term st, e_index = int (length (memory_log (raft_log st))) + 1, e_op = op, e_value = path\<rparr>;
           st1 = st\<lparr>raft_log := (raft_log st)\<lparr>memory_log := memory_log (raft_log st) @ [e]\<rparr>\<rparr>;
           st' = last (st1 # others st1)
       in if list_all (entry_alive e) (others st1)
          then Inr (st', \<lparr>mr_status = (if e_index e \<le> GetLastCommitIndex (raft_log st') then kOK else kTimeout),
                          mr_leader_id = None\<rparr>)
          else Inl Dangling_pointer)"
proof -
  have h: "handler = meta_handler op" by (rule rpc_meta_handler [OF assms(2)])
  have "current_role st = kLeader \<Longrightarrow> leader_id st \<noteq> -1" using assms(1) by (auto simp: raft_ok_def)
  then show ?thesis
    unfolding h
    by (simp add: meta_handler_def IsLeader_def GetLeader_def default_meta_response_def OnMetaOperation_def
        meta_append_def Append_entry_def meta_entry_def Let_def)
qed

theorem meta_handlers_witness:
  "rpc_Rmdir ''/d'' (\<lambda>s. []) sample_waiting default_meta_response =
     Inr (sample_waiting\<lparr>raft_log := sample_log\<lparr>memory_log := memory_log sample_log @
        [\<lparr>e_term = 2, e_index = 4, e_op = kRmdir, e_value = ''/d''\<rparr>]\<rparr>\<rparr>,
      \<lparr>mr_status = kTimeout, mr_leader_id = None\<rparr>) \<and>
   rpc_Mkdir ''/d'' (\<lambda>s. []) sample_server default_meta_response =
     Inr (sample_server, \<lparr>mr_status = kNotLeader, mr_leader_id = Some (-1)\<rparr>)"
proof
  have v: "ValidatePath ''/d''" by (simp add: ValidatePath_def)
  have w: "current_role sample_waiting = kLeader" "current_term sample_waiting = 2"
    "raft_log sample_waiting = sample_log" by (simp_all add: sample_waiting_def)
  have n: "length (memory_log sample_log) = 3" "last_commited_index sample_log = 1"
    by (simp_all add: sample_log_def)
  show "rpc_Rmdir ''/d'' (\<lambda>s. []) sample_waiting default_meta_response =
     Inr (sample_waiting\<lparr>raft_log := sample_log\<lparr>memory_log := memory_log sample_log @
        [\<lparr>e_term = 2, e_index = 4, e_op = kRmdir, e_value = ''/d''\<rparr>]\<rparr>\<rparr>,
      \<lparr>mr_status = kTimeout, mr_leader_id = None\<rparr>)"
    using meta_handlers [OF sample_waiting_ok rpc_meta.simps(2), of "''/d''" "\<lambda>s. []"]
    by (simp add: v w n GetLastCommitIndex_def)
  have "raft_ok sample_server"
    using new_raft_ok [of 2 "[(1, ''a''), (3, ''c'')]"] by (simp add: sample_server_def raft_ok_def peer_ids_def)
  from meta_handlers [OF this rpc_meta.simps(1), of "''/d''" "\<lambda>s. []"]
  show "rpc_Mkdir ''/d'' (\<lambda>s. []) sample_server default_meta_response =
     Inr (sample_server, \<lparr>mr_status = kNotLeader, mr_leader_id = Some (-1)\<rparr>)"
    by (simp add: v)
qed

text \<open>
  What a handler logs can be applied: an entry with a valid path has defined behaviour on
  every replica, except for a \<open>kMkdir\<close> whose path runs into a file.
\<close>

theorem valid_entries_apply:
  assumes "fs_wf ns" and "ValidatePath (e_value e)"
  shows "defined (apply_entry now e ns) \<longleftrightarrow>
    \<not> (e_op e = kMkdir \<and> (\<exists>p. prefix p (SplitPath (e_value e)) \<and> view ns p = Some V_file))"
proof -
  have "SplitPath (e_value e) \<noteq> []" using valid_path_split [OF assms(2)] by simp
  then have "apply_view e (view ns) = None \<longleftrightarrow>
      e_op e = kMkdir \<and> (\<exists>p. prefix p (SplitPath (e_value e)) \<and> view ns p = Some V_file)"
    by (cases "e_op e") (auto simp: apply_view_def Let_def list_ex_iff)
  moreover have "defined (apply_entry now e ns) \<longleftrightarrow> apply_view e (view ns) \<noteq> None"
    using apply_entry_undefined [OF assms(1)] apply_entry_defined [OF assms(1)] by (fastforce simp: defined_iff)
  ultimately show ?thesis by simp
qed

theorem valid_entries_apply_witness:
  "defined (apply_entry 3 \<lparr>e_term = 1, e_index = 1, e_op = kDelete, e_value = ''/x/y''\<rparr> (new_FSNamespace 0))"
  using valid_entries_apply [OF new_FSNamespace_wf, of "\<lparr>e_term = 1, e_index = 1, e_op = kDelete, e_value = ''/x/y''\<rparr>" 3 0]
  by (simp add: ValidatePath_def)

end
