(* ===== verification/Client_Answers.thy ===== *)
theory Client_Answers
  imports Cluster_Commits Client_RPC
begin

text \<open>
  What the answer to a client's operation says about the cluster: the handler of the leader
  runs while the servers go on, and the states it sees during its wait are those of its own
  server along the run.
\<close>

section \<open>Runs and their history\<close>

text \<open>The history only grows along an orderly run.\<close>

lemma run_through_history:
  assumes "reachable orderly ids c" and "entries_inv ids c H" and "run_through orderly ids c ds"
  shows "\<exists>H'. H \<subseteq> H' \<and> entries_inv ids (last (c # ds)) H'"
  using assms
proof (induction ds arbitrary: c H)
  case (Cons d ds)
  then obtain l where l: "orderly c l" "cluster_step ids c l d" and rest: "run_through orderly ids d ds" by auto
  have d: "reachable orderly ids d" by (rule reachable.step [OF Cons.prems(1) l])
  have "entries_inv ids d (grown H c l d)"
    by (rule entries_inv_step [OF l(2) _ _ Cons.prems(2) l(1)])
      (use Cons.prems(1) in \<open>simp_all add: reachable_election_inv orderly_timely reachable_logs_ok\<close>)
  from Cons.IH [OF d this rest] obtain H' where "grown H c l d \<subseteq> H'" "entries_inv ids (last (d # ds)) H'" by blast
  then show ?case by (intro exI [of _ H']) (auto simp: grown_def)
qed auto


section \<open>Operations that are answered\<close>

lemma answered_entry:
  assumes reach: "reachable orderly ids c" and n: "n \<in> set ids" and leader: "current_role (node c n) = kLeader"
    and c1: "c1 = set_node n (snd (meta_append op path (node c n))) c"
    and run: "run_through orderly ids c1 ds"
    and alive: "entry_alive (fst (meta_append op path (node c n))) (node (last (c1 # ds)) n)"
  shows "fst (meta_append op path (node c n)) \<in> set (memory_log (raft_log (node (last (c1 # ds)) n)))"
proof -
  define e where "e = fst (meta_append op path (node c n))"
  have ok: "raft_ok (node c n)" by (rule members_okD(1) [OF reachable_members(1) [OF reach] n])
  have wf: "log_wf (raft_log (node c n))"
    using cluster_logs_okD(1) [OF reachable_logs_ok [OF reach] n] by (simp add: server_logs_ok_def)
  note app = meta_append_eq [OF wf, of op path, folded e_def]
  have step: "cluster_step ids c (Client n) c1"
    unfolding c1 by (rule cluster_step.client [OF n]) (use ok leader in \<open>auto simp: raft_ok_def\<close>)
  have reach1: "reachable orderly ids c1"
    by (rule reachable.step [OF reach _ step]) (simp add: orderly_def leader)
  obtain H where H: "entries_inv ids c1 H" using reachable_entries_inv [OF reach1] by blast
  obtain H' where H': "H \<subseteq> H'" "entries_inv ids (last (c1 # ds)) H'"
    using run_through_history [OF reach1 H run] by blast
  have "e \<in> set (memory_log (raft_log (node c1 n)))" using app(2) by (simp add: c1)
  then have "e \<in> H'" using H'(1) entries_invD(5) [OF H] heldI(1) [OF n] by blast
  let ?log = "memory_log (raft_log (node (last (c1 # ds)) n))"
  define f where "f = ?log ! nat (e_index e - 1)"
  have same: "e_index e \<le> int (length ?log)" "same_entry f e"
    using alive by (simp_all add: entry_alive_def Size_def e_def f_def)
  have "1 \<le> e_index e" using wf by (simp add: app(1) log_query)
  with same(1) have "f \<in> set ?log" by (auto simp: f_def intro!: nth_mem)
  then have "f \<in> H'" by (intro entries_invD(5) [OF H'(2)] heldI(1) [OF n])
  with \<open>e \<in> H'\<close> same(2) have "f = e" using entries_invD(1) [OF H'(2)] by (auto simp: same_entry_def)
  with \<open>f \<in> set ?log\<close> show ?thesis by (simp add: e_def)
qed

lemma ok_committed:
  assumes "reachable orderly ids c" and "n \<in> set ids" and "rpc_meta op = Some handler"
    and "c1 = set_node n (snd (meta_append op path (node c n))) c" and "run_through orderly ids c1 ds"
    and "handler path (\<lambda>_. map (\<lambda>d. node d n) ds) (node c n) default_meta_response = Inr (st', ret)"
    and "mr_status ret = kOK"
  shows "st' = node (last (c1 # ds)) n \<and>
    fst (meta_append op path (node c n)) \<in> set (memory_log (raft_log st')) \<and>
    e_op (fst (meta_append op path (node c n))) = op \<and> e_value (fst (meta_append op path (node c n))) = path \<and>
    e_term (fst (meta_append op path (node c n))) = current_term (node c n) \<and>
    e_index (fst (meta_append op path (node c n))) \<le> GetLastCommitIndex (raft_log st')"
proof -
  let ?e = "fst (meta_append op path (node c n))"
  have run: "meta_handler op path (\<lambda>_. map (\<lambda>d. node d n) ds) (node c n) default_meta_response = Inr (st', ret)"
    using assms(6) rpc_meta_handler [OF assms(3)] by simp
  have leader: "current_role (node c n) = kLeader"
    using run assms(7) by (auto simp: meta_handler_def IsLeader_def split: if_splits)
  have wf: "log_wf (raft_log (node c n))"
    using cluster_logs_okD(1) [OF reachable_logs_ok [OF assms(1)] assms(2)] by (simp add: server_logs_ok_def)
  note app = meta_append_eq [OF wf, of op path]
  have "OnMetaOperation op path (\<lambda>_. map (\<lambda>d. node d n) ds) (node c n) = Inr (st', kOK)"
    using run assms(7) by (auto simp: meta_handler_def and_then_eq_Inr split: if_splits)
  then have alive: "list_all (entry_alive ?e) (map (\<lambda>d. node d n) ds)"
    and st': "st' = last (snd (meta_append op path (node c n)) # map (\<lambda>d. node d n) ds)"
    and commit: "e_index ?e \<le> GetLastCommitIndex (raft_log st')"
    by (auto simp: OnMetaOperation_eq Let_def split: if_splits)
  have last: "st' = node (last (c1 # ds)) n" by (simp add: st' assms(4) last_map)
  have "entry_alive ?e (node (last (c1 # ds)) n)"
    using alive app(4) by (auto simp: list_all_iff assms(4))
  from answered_entry [OF assms(1,2) leader assms(4,5) this] last
  have "?e \<in> set (memory_log (raft_log st'))" by simp
  with commit last show ?thesis by (simp add: app(1))
qed

text \<open>
  C7. An operation that is answered \<open>kOK\<close> is committed: in a run in which vote replies are
  counted in their term and leaders log the operations, before the call and during its wait,
  when a handler logs the operation and after some further steps of the cluster answers \<open>kOK\<close>, the log of its
  server holds an entry with that operation and that path in the term of the call, at or
  below the commit index.
\<close>

theorem ok_is_committed:
  assumes "reachable orderly ids c" and "n \<in> set ids" and "rpc_meta op = Some handler"
    and "c1 = set_node n (snd (meta_append op path (node c n))) c" and "run_through orderly ids c1 ds"
    and "handler path (\<lambda>_. map (\<lambda>d. node d n) ds) (node c n) default_meta_response = Inr (st', ret)"
    and "mr_status ret = kOK"
  shows "st' = node (last (c1 # ds)) n \<and>
    (\<exists>e \<in> set (memory_log (raft_log st')). e_op e = op \<and> e_value e = path \<and>
       e_term e = current_term (node c n) \<and> e_index e \<le> GetLastCommitIndex (raft_log st'))"
  using ok_committed [OF assms] by blast

text \<open>
  The run of the five servers up to the commit, with the states in between: the handler at
  server 1 is called after the election and sees its entry committed.
\<close>

definition ok_run :: "run_op list" where
  "ok_run = [Op_append 1 2, Op_append 1 3, Op_append 1 4, Op_append 1 4]"

definition ok_entry_alive :: "raft list \<Rightarrow> bool" where
  "ok_entry_alive sts \<longleftrightarrow> entry_alive (mkdir_entry 1 ''/a'') (server_at sts 1)"

lemma ok_states:
  "case do_ops [1] elect_1 run_start of None \<Rightarrow> False | Some sts0 \<Rightarrow>
     IsLeader (server_at sts0 1) \<and> e_index (fst (meta_append kMkdir ''/a'' (server_at sts0 1))) = 1 \<and>
     (case do_op [1] (Op_client 1 kMkdir ''/a'') sts0 of None \<Rightarrow> False | Some sts \<Rightarrow>
        (case do_trace [1] ok_run sts of None \<Rightarrow> False | Some tr \<Rightarrow>
           list_all ok_entry_alive (sts # tr) \<and> holds_committed (server_at (last (sts # tr)) 1) (mkdir_entry 1 ''/a'')))"
  by code_simp

lemma runs_ok_parts:
  "list_all (\<lambda>x. set (op_hosts x) \<subseteq> set five \<and> distinct (op_hosts x)) elect_1"
  "list_all (\<lambda>x. set (op_hosts x) \<subseteq> set five \<and> distinct (op_hosts x)) ok_run"
  by (simp_all add: ok_run_def elect_1_def five_def)

text \<open>The cluster after server 1 has logged the operation.\<close>

definition logged_a :: "cluster \<Rightarrow> cluster" where
  "logged_a c = set_node 1 (snd (meta_append kMkdir ''/a'' (node c 1))) c"

lemma ok_handler:
  assumes "reachable orderly five c" and "IsLeader (node c 1)" and "current_term (node c 1) = 1"
    and "e_index (fst (meta_append kMkdir ''/a'' (node c 1))) = 1"
    and alive: "\<forall>d \<in> set ds. entry_alive (mkdir_entry 1 ''/a'') (node d 1)"
    and commit: "1 \<le> GetLastCommitIndex (raft_log (node (last (logged_a c # ds)) 1))"
  shows "\<exists>st'. rpc_Mkdir ''/a'' (\<lambda>_. map (\<lambda>d. node d 1) ds) (node c 1) default_meta_response =
    Inr (st', \<lparr>mr_status = kOK, mr_leader_id = None\<rparr>)"
proof -
  let ?st1 = "snd (meta_append kMkdir ''/a'' (node c 1))"
  let ?st' = "last (?st1 # map (\<lambda>d. node d 1) ds)"
  have "raft_ok (node c 1)" by (rule members_okD(1) [OF reachable_members(1) [OF assms(1)] in_five(1)])
  then have "leader_id (node c 1) \<noteq> -1" using assms(2) by (auto simp: raft_ok_def IsLeader_def)
  moreover have "log_wf (raft_log (node c 1))"
    using cluster_logs_okD(1) [OF reachable_logs_ok [OF assms(1)] in_five(1)] by (simp add: server_logs_ok_def)
  from meta_append_eq(1) [OF this, of kMkdir "''/a''"] assms(3,4)
  have "fst (meta_append kMkdir ''/a'' (node c 1)) = mkdir_entry 1 ''/a''" by (simp add: mkdir_entry_def)
  moreover have "?st' = node (last (logged_a c # ds)) 1" by (simp add: last_map logged_a_def)
  with commit have "1 \<le> GetLastCommitIndex (raft_log ?st')" by simp
  ultimately have "OnMetaOperation kMkdir ''/a'' (\<lambda>_. map (\<lambda>d. node d 1) ds) (node c 1) = Inr (?st', kOK)"
    using alive unfolding OnMetaOperation_eq Let_def by (simp add: list_all_iff mkdir_entry_def del: last.simps)
  then show ?thesis
    using assms(2) by (simp add: rpc_Mkdir_def meta_handler_def ValidatePath_def default_meta_response_def)
qed

lemma ok_example:
  "\<exists>c ds st'. reachable (in_term 1) five c \<and> run_through (in_term 1) five (logged_a c) ds \<and>
     rpc_Mkdir ''/a'' (\<lambda>_. map (\<lambda>d. node d 1) ds) (node c 1) default_meta_response =
       Inr (st', \<lparr>mr_status = kOK, mr_leader_id = None\<rparr>) \<and>
     reachable (in_term 1) five (logged_a c) \<and>
     holds_committed (node (last (logged_a c # ds)) 1) (mkdir_entry 1 ''/a'')"
proof -
  have admit: "admits [1] (in_term 1)" by (simp add: admits_def in_term_def)
  obtain sts0 sts tr where sts0: "do_ops [1] elect_1 run_start = Some sts0"
    and lead: "IsLeader (server_at sts0 1)" "e_index (fst (meta_append kMkdir ''/a'' (server_at sts0 1))) = 1"
    and sts: "do_op [1] (Op_client 1 kMkdir ''/a'') sts0 = Some sts"
    and tr: "do_trace [1] ok_run sts = Some tr" "list_all ok_entry_alive (sts # tr)"
      "holds_committed (server_at (last (sts # tr)) 1) (mkdir_entry 1 ''/a'')"
    using ok_states by (auto split: option.splits simp del: do_op.simps)
  obtain c where c: "reachable (in_term 1) five c" "follows c sts0"
    using do_ops_run [OF admit reachable.start [OF run_start_follows(1)] run_start_follows(2) runs_ok_parts(1) sts0] by blast
  note at = follows_at(1) [OF c(2) in_five(1)]
  have ok: "current_role (node c 1) = kLeader" "leader_id (node c 1) \<noteq> -1" "current_term (node c 1) = 1"
    and sts_eq: "sts = put_server 1 (snd (meta_append kMkdir ''/a'' (node c 1))) sts0"
    using sts at by (auto simp: Let_def split: if_splits)
  have c1: "follows (logged_a c) sts" unfolding logged_a_def sts_eq by (rule follows_put [OF c(2) in_five(1)]) simp_all
  have reach1: "reachable (in_term 1) five (logged_a c)"
    unfolding logged_a_def
    by (rule reachable.step [OF c(1) _ cluster_step.client [OF in_five(1) ok(2)]]) (simp add: in_term_def orderly_def ok(1,3))
  from do_trace_run [OF admit reach1 c1 runs_ok_parts(2) tr(1)] obtain ds where
    ds: "run_through (in_term 1) five (logged_a c) ds" "follows (last (logged_a c # ds)) (last (sts # tr))"
      "\<forall>d \<in> set ds. \<forall>m \<in> set five. \<exists>s \<in> set (sts # tr). node d m = server_at s m" by blast
  have alive: "\<forall>d \<in> set ds. entry_alive (mkdir_entry 1 ''/a'') (node d 1)"
    using ds(3) tr(2) in_five(1) unfolding list_all_iff ok_entry_alive_def by metis
  have held: "holds_committed (node (last (logged_a c # ds)) 1) (mkdir_entry 1 ''/a'')"
    using tr(3) follows_at(1) [OF ds(2) in_five(1)] by simp
  have "reachable orderly five c" by (rule reachable_mono [OF c(1)]) (simp add: in_term_def)
  from ok_handler [OF this _ ok(3) _ alive] lead at holds_committed_facts(1,2) [OF held]
  have "\<exists>st'. rpc_Mkdir ''/a'' (\<lambda>_. map (\<lambda>d. node d 1) ds) (node c 1) default_meta_response =
      Inr (st', \<lparr>mr_status = kOK, mr_leader_id = None\<rparr>)"
    by (simp add: GetLastCommitIndex_def del: last.simps)
  with c(1) ds(1) reach1 held show ?thesis by blast
qed

theorem ok_is_committed_witness:
  "\<exists>c ds st' ret. reachable orderly five c \<and> run_through orderly five (logged_a c) ds \<and>
     rpc_Mkdir ''/a'' (\<lambda>_. map (\<lambda>d. node d 1) ds) (node c 1) default_meta_response = Inr (st', ret) \<and>
     mr_status ret = kOK \<and> (\<exists>e \<in> set (memory_log (raft_log st')). e_op e = kMkdir \<and> e_value e = ''/a'')"
proof -
  obtain c ds st' where c: "reachable (in_term 1) five c" "run_through (in_term 1) five (logged_a c) ds"
    and ans: "rpc_Mkdir ''/a'' (\<lambda>_. map (\<lambda>d. node d 1) ds) (node c 1) default_meta_response =
      Inr (st', \<lparr>mr_status = kOK, mr_leader_id = None\<rparr>)"
    using ok_example by blast
  have orderly: "reachable orderly five c" "run_through orderly five (logged_a c) ds"
    using reachable_mono [OF c(1)] run_through_mono [OF c(2)] by (simp_all add: in_term_def)
  from ok_is_committed [OF orderly(1) in_five(1) rpc_meta.simps(1) logged_a_def orderly(2) ans]
  have "\<exists>e \<in> set (memory_log (raft_log st')). e_op e = kMkdir \<and> e_value e = ''/a''" by auto
  with orderly ans show ?thesis by fastforce
qed

end
