(* ===== verification/Durable_Answers.thy ===== *)
theory Durable_Answers
  imports Client_Answers
begin

text \<open>
  From the answer of a handler to the trees of the replicas: while operations are logged in one
  term, an operation that is answered \<open>kOK\<close> is in the tree of every replica that has applied as
  far as its entry, at its place among the others, from then on.
\<close>

section \<open>Entries and trees\<close>

lemma applied_at:
  assumes "system_inv ids s H A" and "\<forall>e \<in> H. e_term e = T" and "m \<in> set ids" and "sys_thread s m = Fs_waiting"
    and "e \<in> H" and "1 \<le> e_index e" and "e_index e \<le> commited_index (sys_fs s m)"
  shows "nat (e_index e - 1) < length (A m) \<and> A m ! nat (e_index e - 1) = e \<and>
    spec_all apply_view (A m) fresh_view = Some (view (sys_fs s m))"
proof -
  have rep: "replica (A m) Fs_waiting (sys_fs s m)" and A: "set (A m) \<subseteq> H" and inv: "entries_inv ids (sys_cluster s) H"
    using assms(1,3,4) by (auto simp: system_inv_def)
  define i where "i = nat (e_index e - 1)"
  have i: "i < length (A m)" "int i = e_index e - 1" using assms(6,7) replica_length [OF rep] by (simp_all add: i_def)
  have "e_index (A m ! i) = e_index e" using rep i numbered_nth [of 1 "A m" i] by (simp add: replica_def)
  moreover have "A m ! i \<in> H" using A i(1) nth_mem by blast
  ultimately have "A m ! i = e" using entries_invD(1) [OF inv] assms(2,5) by metis
  with i(1) rep show ?thesis by (simp add: i_def replica_def)
qed

text \<open>
  C8. An answer holds.  Take a run in which vote replies are counted in their term, leaders log
  all operations in one term and no loop forgets what it has applied, and a handler that
  answers \<open>kOK\<close> in it.  The entry that the handler has logged is committed at its server, and
  in every later state of such a run each replica that has applied as far has applied this
  entry, at its index, and shows the tree of the entries that it has applied.
\<close>

theorem ok_is_applied:
  assumes "reachable orderly ids c" and "n \<in> set ids" and "rpc_meta op = Some handler"
    and "c1 = set_node n (snd (meta_append op path (node c n))) c" and "run_through orderly ids c1 ds"
    and "handler path (\<lambda>_. map (\<lambda>d. node d n) ds) (node c n) default_meta_response = Inr (st', ret)"
    and "mr_status ret = kOK"
    and "has_applied (steady_in T) ids s A" and "sys_cluster s = last (c1 # ds)"
  shows "\<exists>e. e = fst (meta_append op path (node c n)) \<and> e_op e = op \<and> e_value e = path \<and>
    e_index e \<le> GetLastCommitIndex (raft_log (node (sys_cluster s) n)) \<and>
    (\<forall>s' A' m. applied_run (steady_in T) ids s A s' A' \<and> m \<in> set ids \<and> sys_thread s' m = Fs_waiting \<and>
       e_index e \<le> commited_index (sys_fs s' m) \<longrightarrow>
       nat (e_index e - 1) < length (A' m) \<and> A' m ! nat (e_index e - 1) = e \<and>
       spec_all apply_view (A' m) fresh_view = Some (view (sys_fs s' m)))"
proof -
  define e where "e = fst (meta_append op path (node c n))"
  from ok_committed [OF assms(1-7)] assms(9) have e: "e \<in> set (memory_log (raft_log (node (sys_cluster s) n)))"
    "e_op e = op" "e_value e = path" "e_index e \<le> GetLastCommitIndex (raft_log (node (sys_cluster s) n))" by (auto simp: e_def)
  have "reachable orderly ids (sys_cluster s)" by (rule steady_cluster [OF assms(8)]) (simp add: steady_in_def)
  from cluster_logs_okD(1) [OF reachable_logs_ok [OF this] assms(2)] e(1) have pos: "1 \<le> e_index e"
    by (auto simp: server_logs_ok_def log_wf_def numbered_iff_nth in_set_conv_nth)
  obtain H where H: "system_inv ids s H A" "\<forall>e \<in> H. e_term e = T" using steady_in_inv [OF assms(8)] by blast
  have "e \<in> H" using H(1) entries_invD(5) heldI(1) [OF assms(2) e(1)] by (auto simp: system_inv_def)
  then have "nat (e_index e - 1) < length (A' m) \<and> A' m ! nat (e_index e - 1) = e \<and>
      spec_all apply_view (A' m) fresh_view = Some (view (sys_fs s' m))"
    if "applied_run (steady_in T) ids s A s' A'" "m \<in> set ids" "sys_thread s' m = Fs_waiting" "e_index e \<le> commited_index (sys_fs s' m)"
    for s' A' m
    using steady_in_run [OF assms(8) that(1) H] applied_at [OF _ _ that(2,3) _ pos that(4)] by blast
  with e(2-4) show ?thesis by (auto simp: e_def)
qed

theorem ok_is_applied_witness:
  "\<exists>s A s' A' e. has_applied (steady_in 1) five s A \<and> applied_run (steady_in 1) five s A s' A' \<and>
     view (sys_fs s' 1) = with_dir ''a'' \<and> e_value e = ''/a'' \<and> A' 1 ! nat (e_index e - 1) = e"
proof -
  obtain c ds st' where c: "reachable (in_term 1) five c" "run_through (in_term 1) five (logged_a c) ds"
    "rpc_Mkdir ''/a'' (\<lambda>_. map (\<lambda>d. node d 1) ds) (node c 1) default_meta_response =
      Inr (st', \<lparr>mr_status = kOK, mr_leader_id = None\<rparr>)"
    "reachable (in_term 1) five (logged_a c)"
    "holds_committed (node (last (logged_a c # ds)) 1) (mkdir_entry 1 ''/a'')"
    using ok_example by blast
  define s where "s = run_system (last (logged_a c # ds))"
  have "system_reachable (steady_in 1) five s"
    unfolding s_def by (rule run_system_reachable [OF run_through_reachable [OF c(4,2)]]) (simp add: steady_in_def in_term_def)
  then obtain A where s: "has_applied (steady_in 1) five s A" using reachable_has_applied by blast
  obtain ns' where ns': "view ns' = with_dir ''a''" "commited_index ns' = 1"
    "system_run (steady_in 1) five s (s\<lparr>sys_fs := (sys_fs s)(1 := ns')\<rparr>)"
    using mkdir_run [OF in_five(1) _ _ _ _ split_a(1), of "steady_in 1" s 1] c(5)
    by (auto simp: s_def run_system_def steady_in_def)
  obtain A' where A': "applied_run (steady_in 1) five s A (s\<lparr>sys_fs := (sys_fs s)(1 := ns')\<rparr>) A'"
    using run_applied [OF ns'(3)] by blast
  have orderly: "reachable orderly five c" "run_through orderly five (logged_a c) ds"
    using reachable_mono [OF c(1)] run_through_mono [OF c(2)] by (simp_all add: in_term_def)
  from ok_is_applied [OF orderly(1) in_five(1) rpc_meta.simps(1) logged_a_def orderly(2) c(3) _ s]
  obtain e where e: "e_value e = ''/a''" "e_index e \<le> GetLastCommitIndex (raft_log (node (sys_cluster s) 1))"
    and all: "\<forall>s' A' m. applied_run (steady_in 1) five s A s' A' \<and> m \<in> set five \<and> sys_thread s' m = Fs_waiting \<and>
       e_index e \<le> commited_index (sys_fs s' m) \<longrightarrow> nat (e_index e - 1) < length (A' m) \<and> A' m ! nat (e_index e - 1) = e \<and>
       spec_all apply_view (A' m) fresh_view = Some (view (sys_fs s' m))"
    by (auto simp: s_def run_system_def)
  have "e_index e \<le> 1" using e(2) holds_committed_facts(1,2) [OF c(5)] by (simp add: s_def run_system_def GetLastCommitIndex_def del: last.simps)
  then have "A' 1 ! nat (e_index e - 1) = e"
    using all A' ns'(2) in_five(1) by (fastforce simp: s_def run_system_def)
  with s A' ns'(1) e(1) show ?thesis by fastforce
qed

end
