(* ===== verification/FS_Print.thy ===== *)
theory FS_Print
  imports FS_Spec "HOL-Library.Multiset"
begin

text \<open>
  The debug output of the file system: \<open>INodeDirectory::Print\<close>, which shows the tree one line
  per node, and the stream operators.  A text is the list of its lines.  The assignment
  operators of the nodes, which no other code calls, are here as well.
\<close>

section \<open>Print\<close>

text \<open>
  \<open>string(n, ' ')\<close>.  The first argument of \<open>Print_fuel\<close> bounds the depth of the tree; casting
  the root of a print is the caller's business, so a file there is a wrong cast.
\<close>

definition spaces :: "nat \<Rightarrow> string" where
  "spaces n = replicate n CHR '' ''"

fun Print_fuel :: "nat \<Rightarrow> nat \<Rightarrow> addr \<Rightarrow> heap \<Rightarrow> string list outcome" where
  "Print_fuel 0 level d h = Inl Out_of_fuel"
| "Print_fuel (Suc f) level d h =
     and_then (deref d h) (\<lambda>n.
     and_then (dir_at d h) (\<lambda>(cs, m).
     and_then (each_outcome (\<lambda>c. and_then (deref c h) (\<lambda>k.
         if IsDir k then Print_fuel f (level + 1) c h
         else Inr [spaces ((level + 1) * 2) @ i_name k])) cs) (\<lambda>texts.
     Inr ((spaces (level * 2) @ i_name n @ ''/'') # concat texts))))"

definition dir_Print :: "nat \<Rightarrow> addr \<Rightarrow> heap \<Rightarrow> string list outcome" where
  "dir_Print level d h = Print_fuel (Suc (next_addr h)) level d h"

definition fs_Print :: "fs_namespace \<Rightarrow> string list outcome" where
  "fs_Print ns = dir_Print 1 (fs_root ns) (fs_heap ns)"


section \<open>Stream operators\<close>

text \<open>
  The operator for a directory writes its first line to the stream it is given and the rest to
  \<open>cout\<close>.  A text is the list of what is written where.
\<close>

datatype sink = Cout | Given_stream

fun put_dir_fuel :: "nat \<Rightarrow> sink \<Rightarrow> addr \<Rightarrow> heap \<Rightarrow> (sink \<times> string) list outcome" where
  "put_dir_fuel 0 os d h = Inl Out_of_fuel"
| "put_dir_fuel (Suc f) os d h =
     and_then (deref d h) (\<lambda>n.
     and_then (dir_at d h) (\<lambda>(cs, m).
     and_then (each_outcome (\<lambda>c. and_then (deref c h) (\<lambda>k.
         if IsFile k then Inr [(Cout, ''  ->''), (Cout, i_name k), (Cout, [CHR 0x0A])]
         else and_then (put_dir_fuel f Cout c h) (\<lambda>inner. Inr ((Cout, '' |->'') # inner @ [(Cout, [CHR 0x0A])])))) cs)
     (\<lambda>texts. Inr ((os, i_name n) # (os, [CHR 0x0A]) # concat texts))))"

definition put_dir :: "sink \<Rightarrow> addr \<Rightarrow> heap \<Rightarrow> (sink \<times> string) list outcome" where
  "put_dir os d h = put_dir_fuel (Suc (next_addr h)) os d h"

text \<open>The operators for a node and for a file write its name.\<close>

definition put_INode :: "sink \<Rightarrow> inode \<Rightarrow> (sink \<times> string) list" where
  "put_INode os n = [(os, i_name n)]"

definition put_fs :: "sink \<Rightarrow> fs_namespace \<Rightarrow> (sink \<times> string) list" where
  "put_fs os ns = []"


section \<open>Assignment\<close>

text \<open>Assignment to itself changes nothing; otherwise the parent is cleared and a file
  takes the size too.  The member \<open>data\<close> of a file is never read and left out.\<close>

definition copy_INodeFile :: "inode \<Rightarrow> inode" where
  "copy_INodeFile n = (copy_INode n)\<lparr>i_kind := i_kind n\<rparr>"

definition assign_INode :: "addr \<Rightarrow> addr \<Rightarrow> heap \<Rightarrow> heap outcome" where
  "assign_INode a b h =
     (if a = b then Inr h
      else and_then (deref a h) (\<lambda>x. and_then (deref b h) (\<lambda>y.
        Inr (set_node_at a (y\<lparr>i_parent := None, i_kind := i_kind x\<rparr>) h))))"

definition assign_INodeFile :: "addr \<Rightarrow> addr \<Rightarrow> heap \<Rightarrow> heap outcome" where
  "assign_INodeFile a b h =
     (if a = b then Inr h
      else and_then (assign_INode a b h) (\<lambda>h1.
        and_then (deref a h1) (\<lambda>x. and_then (deref b h1) (\<lambda>y.
        Inr (set_node_at a (x\<lparr>i_kind := i_kind y\<rparr>) h1)))))"

lemma assign_INodeFile_copies:
  "cells h a \<noteq> None \<Longrightarrow> cells h b = Some y \<Longrightarrow> assign_INodeFile a b h = Inr h' \<Longrightarrow>
    cells h' a = Some (if a = b then y else copy_INodeFile y)"
  by (auto simp: assign_INodeFile_def assign_INode_def copy_INodeFile_def copy_INode_def deref_def set_node_at_def)


section \<open>What is printed\<close>

text \<open>The paths below a node and the line for each of them.\<close>

definition paths :: "heap \<Rightarrow> addr \<Rightarrow> string list set" where
  "paths h a = {p. walk h a p \<noteq> None}"

definition node_line :: "heap \<Rightarrow> nat \<Rightarrow> addr \<Rightarrow> string list \<Rightarrow> string" where
  "node_line h level d p =
     (case walk h d p of None \<Rightarrow> [] | Some a \<Rightarrow>
        spaces ((level + length p) * 2) @
        (case cells h a of None \<Rightarrow> [] | Some n \<Rightarrow> i_name n @ (if IsDir n then ''/'' else [])))"

lemma paths_dir:
  assumes "tree_ok h r" and "kids h d = Some (cs, m)"
  shows "paths h d = insert [] (\<Union>c \<in> set cs. (#) (i_name (the (cells h c))) ` paths h c)"
proof (intro set_eqI iffI)
  fix p assume "p \<in> paths h d"
  then show "p \<in> insert [] (\<Union>c \<in> set cs. (#) (i_name (the (cells h c))) ` paths h c)"
    using kids_members(3) [OF assms] child_kids [OF assms(2)]
    by (cases p) (fastforce simp: paths_def split: option.splits)+
next
  fix p assume "p \<in> insert [] (\<Union>c \<in> set cs. (#) (i_name (the (cells h c))) ` paths h c)"
  then show "p \<in> paths h d"
    using kids_members(2) [OF assms] child_kids [OF assms(2)] by (fastforce simp: paths_def)
qed

lemma paths_file: "kids h a = None \<Longrightarrow> paths h a = {[]}"
proof -
  assume "kids h a = None"
  then have "walk h a p \<noteq> None \<longleftrightarrow> p = []" for p by (cases p) (auto simp: child_def)
  then show ?thesis by (auto simp: paths_def)
qed

lemma mset_set_disjoint_list:
  "distinct xs \<Longrightarrow> (\<And>x. x \<in> set xs \<Longrightarrow> finite (A x)) \<Longrightarrow>
   (\<And>x y. x \<in> set xs \<Longrightarrow> y \<in> set xs \<Longrightarrow> x \<noteq> y \<Longrightarrow> A x \<inter> A y = {}) \<Longrightarrow>
   mset_set (\<Union>x \<in> set xs. A x) = sum_list (map (\<lambda>x. mset_set (A x)) xs)"
proof (induction xs)
  case (Cons x xs)
  have "A x \<inter> (\<Union>y \<in> set xs. A y) = {}" using Cons.prems by fastforce
  then have "mset_set (A x \<union> (\<Union>y \<in> set xs. A y)) = mset_set (A x) + mset_set (\<Union>y \<in> set xs. A y)"
    using Cons.prems(2) by (intro mset_set_Union) auto
  with Cons show ?case by auto
qed simp

lemma each_outcome_all:
  "(\<And>x. x \<in> set xs \<Longrightarrow> f x = Inr (g x)) \<Longrightarrow> each_outcome f xs = Inr (map g xs)"
  by (induction xs) auto


lemma node_line_child:
  assumes "tree_ok h r" and "kids h d = Some (cs, m)" and "c \<in> set cs"
  shows "node_line h level d (i_name (the (cells h c)) # p) = node_line h (level + 1) c p"
  using kids_members(2) [OF assms] child_kids [OF assms(2)] by (auto simp: node_line_def split: option.splits)

lemma image_sum_list: "image_mset f (sum_list (map g xs)) = sum_list (map (\<lambda>x. image_mset f (g x)) xs)"
  by (induction xs) auto

text \<open>The lines of a directory: its own and those of its children, one level deeper.\<close>

lemma lines_dir:
  assumes t: "tree_ok h r" and k: "kids h d = Some (cs, m)" and fin: "\<And>c. c \<in> set cs \<Longrightarrow> finite (paths h c)"
  shows "image_mset (node_line h level d) (mset_set (paths h d)) =
    add_mset (node_line h level d []) (sum_list (map (\<lambda>c. image_mset (node_line h (level + 1) c) (mset_set (paths h c))) cs))"
    (is "_ = add_mset _ (sum_list (map ?lines cs))")
proof -
  let ?nm = "\<lambda>c. i_name (the (cells h c))" and ?U = "\<Union>c \<in> set cs. (#) (i_name (the (cells h c))) ` paths h c"
  have inj: "?nm b = ?nm c \<Longrightarrow> b = c" if "b \<in> set cs" "c \<in> set cs" for b c
    using kids_members(2) [OF t k that(1)] kids_members(2) [OF t k that(2)] by auto
  have "mset_set ?U = sum_list (map (\<lambda>c. mset_set ((#) (?nm c) ` paths h c)) cs)"
    using kids_members(1) [OF t k] fin inj by (intro mset_set_disjoint_list) auto
  also have "\<dots> = sum_list (map (\<lambda>c. image_mset ((#) (?nm c)) (mset_set (paths h c))) cs)"
    by (simp add: image_mset_mset_set)
  finally have "image_mset (node_line h level d) (mset_set ?U) = sum_list (map ?lines cs)"
    using node_line_child [OF t k]
    by (auto simp: image_sum_list multiset.map_comp comp_def intro!: arg_cong [of _ _ sum_list])
  moreover have "finite ?U" "[] \<notin> ?U" using fin by auto
  ultimately show ?thesis by (simp add: paths_dir [OF t k])
qed

lemma Print_fuel_lines:
  assumes t: "tree_ok h r"
  shows "kids h d = Some (cs, m) \<Longrightarrow> next_addr h - d \<le> f \<Longrightarrow>
    \<exists>text. Print_fuel f level d h = Inr text \<and> finite (paths h d) \<and>
      mset text = image_mset (node_line h level d) (mset_set (paths h d))"
proof (induction f arbitrary: level d cs m)
  case 0
  with dir_not_fresh [OF t] show ?case by fastforce
next
  case (Suc f)
  note k = Suc.prems(1)
  obtain n where n: "cells h d = Some n" "i_kind n = Dir_node cs m" using k by (auto simp: kids_cell)
  let ?piece = "\<lambda>c. and_then (deref c h) (\<lambda>k. if IsDir k then Print_fuel f (level + 1) c h
         else Inr [spaces ((level + 1) * 2) @ i_name k])"
  have "\<forall>c \<in> set cs. \<exists>text. ?piece c = Inr text \<and> finite (paths h c) \<and>
      mset text = image_mset (node_line h (level + 1) c) (mset_set (paths h c))"
  proof
    fix c assume c: "c \<in> set cs"
    from kids_members(2) [OF t k c] obtain kc where kc: "cells h c = Some kc" "d < c" by blast
    show "\<exists>text. ?piece c = Inr text \<and> finite (paths h c) \<and>
      mset text = image_mset (node_line h (level + 1) c) (mset_set (paths h c))"
    proof (cases "kids h c")
      case None
      with kc IsDir_kids [OF kc(1)] show ?thesis
        by (simp add: deref_def paths_file node_line_def del: IsDir.simps)
    next
      case (Some km)
      then obtain cs' m' where "kids h c = Some (cs', m')" by (cases km) auto
      moreover have "next_addr h - c \<le> f" using Suc.prems(2) kc(2) by simp
      ultimately show ?thesis
        using Suc.IH IsDir_kids [OF kc(1)] Some by (simp add: deref_def kc(1) del: IsDir.simps)
    qed
  qed
  from bchoice [OF this] obtain g where g: "\<And>c. c \<in> set cs \<Longrightarrow> ?piece c = Inr (g c) \<and> finite (paths h c) \<and>
      mset (g c) = image_mset (node_line h (level + 1) c) (mset_set (paths h c))" by blast
  then have "each_outcome ?piece cs = Inr (map g cs)" by (intro each_outcome_all) blast
  then have "Print_fuel (Suc f) level d h = Inr ((spaces (level * 2) @ i_name n @ ''/'') # concat (map g cs))"
    using n k by (simp add: deref_def dir_at_kids del: IsDir.simps)
  moreover have "finite (paths h d)" using g by (simp add: paths_dir [OF t k])
  moreover have "node_line h level d [] = spaces (level * 2) @ i_name n @ ''/''"
    using n by (simp add: node_line_def)
  moreover have "mset (concat (map g cs)) = sum_list (map (\<lambda>c. image_mset (node_line h (level + 1) c) (mset_set (paths h c))) cs)"
    using g by (simp add: mset_concat comp_def cong: map_cong)
  ultimately show ?case using lines_dir [OF t k, of level] g by simp
qed

text \<open>The line of a path of the view: its last name, with a slash for a directory.\<close>

definition view_line :: "fs_namespace \<Rightarrow> string list \<Rightarrow> string" where
  "view_line ns p =
     spaces ((1 + length p) * 2) @ (if p = [] then ''/'' else last p) @ (if view ns p = Some V_dir then ''/'' else [])"

lemma walk_name:
  assumes "tree_ok h r" and "walk h r p = Some a"
  shows "i_name (the (cells h a)) = (if p = [] then ''/'' else last p)"
proof (cases p rule: rev_exhaust)
  case Nil
  with assms root_dir [OF assms(1)] show ?thesis by fastforce
next
  case (snoc q x)
  with assms(2) obtain b where "child h b x = Some a" by (auto simp: walk_snoc)
  from assms(1) this obtain k where "cells h a = Some k" "i_name k = x" by (rule child_node)
  with snoc show ?thesis by simp
qed

text \<open>
  \<open>Print\<close> shows the tree: on a well formed name space it comes to an end and writes
  exactly one line for every path of the view.
\<close>

theorem print_shows_view:
  assumes "fs_wf ns"
  shows "\<exists>text. fs_Print ns = Inr text \<and> finite (dom (view ns)) \<and>
    mset text = image_mset (view_line ns) (mset_set (dom (view ns)))"
proof -
  let ?h = "fs_heap ns" and ?r = "fs_root ns"
  from assms have t: "tree_ok ?h ?r" by (simp add: fs_wf_def)
  obtain cs m where k: "kids ?h ?r = Some (cs, m)" using root_dir [OF t] by blast
  have dom: "dom (view ns) = paths ?h ?r"
    using heap_view_none [OF t] by (auto simp: view_def paths_def dom_def)
  have "node_line ?h 1 ?r p = view_line ns p" if p: "p \<in> paths ?h ?r" for p
  proof -
    from p obtain a where a: "walk ?h ?r p = Some a" by (auto simp: paths_def)
    then obtain n where n: "cells ?h a = Some n" using walk_root_cell [OF t] by blast
    with a walk_name [OF t a] show ?thesis
      by (simp add: node_line_def view_line_def view_def heap_view_def kind_view_def del: IsDir.simps)
  qed
  then have "image_mset (node_line ?h 1 ?r) (mset_set (paths ?h ?r)) = image_mset (view_line ns) (mset_set (dom (view ns)))"
    unfolding dom by (intro image_mset_cong) (metis elem_mset_set empty_iff mset_set.infinite set_mset_empty)
  with Print_fuel_lines [OF t k, of "Suc (next_addr ?h)" 1] dom show ?thesis
    by (simp add: fs_Print_def dir_Print_def del: Print_fuel.simps)
qed

text \<open>Whatever stream a directory is put into, only its own name goes there.\<close>

lemma each_outcome_in:
  "each_outcome f xs = Inr ys \<Longrightarrow> y \<in> set ys \<Longrightarrow> \<exists>x \<in> set xs. f x = Inr y"
  by (induction xs arbitrary: ys) (auto simp: and_then_def split: sum.splits)

lemma put_dir_fuel_sinks:
  "put_dir_fuel f os d h = Inr out \<Longrightarrow>
    \<exists>n rest. cells h d = Some n \<and> out = (os, i_name n) # (os, [CHR 0x0A]) # rest \<and> fst ` set rest \<subseteq> {Cout}"
proof (induction f arbitrary: os d out)
  case (Suc f)
  let ?piece = "\<lambda>c. and_then (deref c h) (\<lambda>k.
         if IsFile k then Inr [(Cout, ''  ->''), (Cout, i_name k), (Cout, [CHR 0x0A])]
         else and_then (put_dir_fuel f Cout c h) (\<lambda>inner. Inr ((Cout, '' |->'') # inner @ [(Cout, [CHR 0x0A])])))"
  from Suc.prems obtain n cs m texts where n: "cells h d = Some n"
    and texts: "each_outcome ?piece cs = Inr texts"
    and out: "out = (os, i_name n) # (os, [CHR 0x0A]) # concat texts"
    by (auto simp: and_then_def deref_def simp del: IsFile.simps split: sum.splits option.splits)
  have "fst ` set ls \<subseteq> {Cout}" if "?piece c = Inr ls" for c ls
  proof -
    from that obtain k where k: "cells h c = Some k" by (auto simp: and_then_def deref_def split: option.splits)
    show ?thesis
    proof (cases "IsFile k")
      case False
      with that k obtain inner where "put_dir_fuel f Cout c h = Inr inner"
        and ls: "ls = (Cout, '' |->'') # inner @ [(Cout, [CHR 0x0A])]"
        by (auto simp: and_then_def deref_def simp del: IsFile.simps split: sum.splits)
      from Suc.IH [OF this(1)] obtain k' rest where "cells h c = Some k'"
        and "inner = (Cout, i_name k') # (Cout, [CHR 0x0A]) # rest" and "fst ` set rest \<subseteq> {Cout}" by blast
      with ls show ?thesis by simp
    qed (use that k in \<open>auto simp: deref_def simp del: IsFile.simps\<close>)
  qed
  with each_outcome_in [OF texts] have "fst ` set (concat texts) \<subseteq> {Cout}" by fastforce
  with n out show ?case by blast
qed simp

lemma put_dir_leaks:
  assumes "put_dir Given_stream d h = Inr out"
  shows "\<exists>n. cells h d = Some n \<and> filter (\<lambda>e. fst e = Given_stream) out = [(Given_stream, i_name n), (Given_stream, [CHR 0x0A])]"
proof -
  from put_dir_fuel_sinks assms obtain n rest where "cells h d = Some n"
    and "out = (Given_stream, i_name n) # (Given_stream, [CHR 0x0A]) # rest" and "fst ` set rest \<subseteq> {Cout}"
    unfolding put_dir_def by blast
  then show ?thesis by (fastforce simp: filter_empty_conv)
qed

end
