(* ===== verification/FS_Properties.thy ===== *)
theory FS_Properties
  imports FS_Spec
begin

text \<open>
  The properties of the name space, each on every branch of its operation, with the states
  of one small tree as examples.
\<close>

section \<open>Examples\<close>

lemma sample_paths:
  "SplitPath ''/a'' = [''a'']" "SplitPath ''/f'' = [''f'']" "SplitPath ''/a/b'' = [''a'', ''b'']"
  "SplitPath ''/f/g'' = [''f'', ''g'']" "SplitPath ''/'' = [[]]"
  by (simp_all add: SplitPath_def)

text \<open>A name space with a file \<open>/f\<close> and directories \<open>/a\<close> and \<open>/a/b\<close>.\<close>

definition sample_view :: "string list \<Rightarrow> node_view option" where
  "sample_view = [[] \<mapsto> V_dir, [''f''] \<mapsto> V_file, [''a''] \<mapsto> V_dir, [''a'', ''b''] \<mapsto> V_dir]"

lemma sample_exists: "\<exists>ns. fs_reachable ns \<and> fs_wf ns \<and> view ns = sample_view"
proof -
  let ?ns = "new_FSNamespace 0"
  have wf: "fs_wf ?ns" by (rule new_FSNamespace_wf)
  have names: "SplitPath ''/f'' \<noteq> []" by (simp add: sample_paths)
  from CreateFile_spec [OF wf names, of 0 "''unknown''"]
  obtain ns1 where one: "CreateFile 0 ''/f'' ''unknown'' ?ns = Inr (True, ns1)" "fs_wf ns1"
    "view ns1 = [[] \<mapsto> V_dir, [''f''] \<mapsto> V_file]"
    by (auto simp: sample_paths new_FSNamespace_view)
  have reach: "fs_reachable ns1"
    by (rule fs_reachable.create [OF fs_reachable.fresh names one(1)])
  have "\<not> (\<exists>p. prefix p [''a'', ''b''] \<and> view ns1 p = Some V_file)"
    by (auto simp: one(3) prefix_Cons)
  with MakeDir_spec [OF one(2), of "''/a/b''" 0 "''unknown''" True]
  obtain ns2 where two: "MakeDir 0 ''/a/b'' ''unknown'' True ns1 = Inr (True, ns2)" "fs_wf ns2"
    "view ns2 = (\<lambda>p. if prefix p [''a'', ''b''] then Some V_dir else view ns1 p)"
    by (auto simp: sample_paths)
  have "view ns2 = sample_view"
    unfolding two(3) one(3) sample_view_def by (auto simp: fun_eq_iff prefix_Cons)
  with two(2) fs_reachable.mkdir [OF reach two(1)] show ?thesis by blast
qed


section \<open>The tree\<close>

text \<open>
  C18. In every state a name space can reach by its operations the heap is a tree: vectors
  and maps of all directories agree, no directory refers to a freed node, and every node on
  the heap is on exactly one path from the root, so nothing is leaked.
\<close>

theorem namespace_is_tree:
  assumes "fs_reachable ns"
  shows "tree_ok (fs_heap ns) (fs_root ns) \<and>
    (\<forall>a. cells (fs_heap ns) a \<noteq> None \<longrightarrow> (\<exists>!p. walk (fs_heap ns) (fs_root ns) p = Some a))"
proof -
  have t: "tree_ok (fs_heap ns) (fs_root ns)"
    using fs_reachable_wf [OF assms] by (simp add: fs_wf_def)
  moreover have "\<exists>!p. walk (fs_heap ns) (fs_root ns) p = Some a" if "cells (fs_heap ns) a \<noteq> None" for a
    using every_node_on_path [OF t that] walk_inj [OF t] by blast
  ultimately show ?thesis by blast
qed

theorem namespace_is_tree_witness:
  "\<exists>ns. view ns = sample_view \<and> tree_ok (fs_heap ns) (fs_root ns)"
  using sample_exists namespace_is_tree by blast


section \<open>Operations\<close>

text \<open>
  C30. \<open>MakeDir\<close>: a file on the path makes it cast a file to a directory; otherwise, with
  \<open>make_parents\<close> or when the parent is there, it succeeds and afterwards exactly the nodes on
  the path have been added, as directories; and without \<open>make_parents\<close> under a missing parent
  it returns false and changes nothing.
\<close>

theorem make_dir_outcome:
  assumes "fs_wf ns"
  shows "if \<exists>p. prefix p (SplitPath path) \<and> view ns p = Some V_file
    then MakeDir now path owner make_parents ns = Inl Bad_cast
    else if make_parents \<or> SplitPath path = [] \<or> view ns (butlast (SplitPath path)) = Some V_dir
    then \<exists>ns'. MakeDir now path owner make_parents ns = Inr (True, ns') \<and> fs_wf ns' \<and> same_frame ns ns' \<and>
      view ns' = (\<lambda>p. if prefix p (SplitPath path) then Some V_dir else view ns p)
    else MakeDir now path owner make_parents ns = Inr (False, ns)"
  by (rule MakeDir_spec [OF assms])

theorem make_dir_outcome_witness:
  "\<exists>ns ns'. view ns = sample_view \<and> MakeDir 7 ''/f/g'' ''u'' True ns = Inl Bad_cast \<and>
     MakeDir 7 ''/a'' ''u'' False ns = Inr (True, ns') \<and> view ns' = sample_view"
proof -
  obtain ns where ns: "fs_wf ns" "view ns = sample_view" using sample_exists by blast
  have "\<exists>p. prefix p (SplitPath ''/f/g'') \<and> view ns p = Some V_file"
    by (intro exI [of _ "[''f'']"]) (simp add: sample_paths ns sample_view_def)
  with make_dir_outcome [OF ns(1), of "''/f/g''" 7 "''u''" True]
  have bad: "MakeDir 7 ''/f/g'' ''u'' True ns = Inl Bad_cast" by simp
  have free: "\<not> (\<exists>p. prefix p (SplitPath ''/a'') \<and> view ns p = Some V_file)"
    by (auto simp: sample_paths ns sample_view_def prefix_Cons)
  moreover have "view ns (butlast (SplitPath ''/a'')) = Some V_dir"
    by (simp add: sample_paths ns sample_view_def)
  ultimately obtain ns' where ns': "MakeDir 7 ''/a'' ''u'' False ns = Inr (True, ns')"
    "view ns' = (\<lambda>p. if prefix p [''a''] then Some V_dir else view ns p)"
    using make_dir_outcome [OF ns(1), of "''/a''" 7 "''u''" False]
    by (auto simp: sample_paths split: if_splits)
  then have "view ns' = sample_view"
    unfolding ns'(2) ns(2) by (auto simp: fun_eq_iff prefix_Cons sample_view_def)
  with ns bad ns' show ?thesis by blast
qed

text \<open>
  \<open>CreateFile\<close> returns true exactly when the parent is a directory, the last name is not
  empty and the path is free; then the path names a file and nothing else changes, and on
  false nothing changes at all.
\<close>

theorem create_file_outcome:
  assumes "fs_wf ns" and "SplitPath path \<noteq> []"
  shows "\<exists>ok ns'. CreateFile now path owner ns = Inr (ok, ns') \<and> fs_wf ns' \<and> same_frame ns ns' \<and>
    (ok \<longleftrightarrow> view ns (butlast (SplitPath path)) = Some V_dir \<and> last (SplitPath path) \<noteq> [] \<and>
      view ns (SplitPath path) = None) \<and>
    view ns' = (if ok then (view ns)(SplitPath path \<mapsto> V_file) else view ns)"
  using CreateFile_spec [OF assms] by blast

theorem create_file_outcome_witness:
  "\<exists>ns ns'. view ns = sample_view \<and> CreateFile 7 ''/a/f'' ''u'' ns = Inr (True, ns') \<and>
     view ns' = sample_view([''a'', ''f''] \<mapsto> V_file)"
proof -
  obtain ns where ns: "fs_wf ns" "view ns = sample_view" using sample_exists by blast
  have p: "SplitPath ''/a/f'' = [''a'', ''f'']" by (simp add: SplitPath_def)
  then have "SplitPath ''/a/f'' \<noteq> []" by simp
  from create_file_outcome [OF ns(1) this, of 7 "''u''"] ns show ?thesis
    by (auto simp: p sample_view_def)
qed

text \<open>
  \<open>RemoveFile\<close> returns true exactly when the path names a file; then that path is free
  and nothing else changes, and on false nothing changes at all.
\<close>

theorem remove_file_outcome:
  assumes "fs_wf ns" and "SplitPath path \<noteq> []"
  shows "\<exists>ok ns'. RemoveFile path visitor ns = Inr (ok, ns') \<and> fs_wf ns' \<and> same_frame ns ns' \<and>
    (ok \<longleftrightarrow> view ns (SplitPath path) = Some V_file \<and> last (SplitPath path) \<noteq> []) \<and>
    view ns' = (if ok then (view ns)(SplitPath path := None) else view ns)"
  using RemoveFile_spec [OF assms] by blast

theorem remove_file_outcome_witness:
  "\<exists>ns ns'. view ns = sample_view \<and> RemoveFile ''/f'' ''u'' ns = Inr (True, ns') \<and>
     view ns' = sample_view([''f''] := None)"
proof -
  obtain ns where ns: "fs_wf ns" "view ns = sample_view" using sample_exists by blast
  have "SplitPath ''/f'' \<noteq> []" by (simp add: sample_paths)
  from remove_file_outcome [OF ns(1) this, of "''u''"] ns show ?thesis
    by (auto simp: sample_paths sample_view_def)
qed

text \<open>
  C31. \<open>DeleteDir\<close> returns true exactly when the path names a directory other than the root,
  with a non-empty last name, that is empty or deleted recursively; the recursion ends, frees
  the whole subtree, and takes exactly the paths at and below it out of the view.
\<close>

theorem delete_dir_outcome:
  assumes "fs_wf ns" and "SplitPath path \<noteq> []"
  shows "\<exists>ok ns'. DeleteDir path visitor recursive ns = Inr (ok, ns') \<and> fs_wf ns' \<and> same_frame ns ns' \<and>
    (ok \<longleftrightarrow> view ns (SplitPath path) = Some V_dir \<and> last (SplitPath path) \<noteq> [] \<and>
      (recursive \<or> \<not> has_children ns (SplitPath path))) \<and>
    view ns' = (if ok then (\<lambda>p. if prefix (SplitPath path) p then None else view ns p) else view ns)"
  using DeleteDir_spec [OF assms, of visitor recursive] by blast

theorem delete_dir_outcome_witness:
  "\<exists>ns ns'. view ns = sample_view \<and> DeleteDir ''/a'' ''u'' True ns = Inr (True, ns') \<and>
     view ns' = [[] \<mapsto> V_dir, [''f''] \<mapsto> V_file]"
proof -
  obtain ns where ns: "fs_wf ns" "view ns = sample_view" using sample_exists by blast
  have names: "SplitPath ''/a'' \<noteq> []" by (simp add: sample_paths)
  have "view ns [''a''] = Some V_dir" by (simp add: ns sample_view_def)
  with delete_dir_outcome [OF ns(1) names, of "''u''" True]
  obtain ns' where ns': "DeleteDir ''/a'' ''u'' True ns = Inr (True, ns')"
    "view ns' = (\<lambda>p. if prefix [''a''] p then None else view ns p)"
    by (auto simp: sample_paths)
  have "view ns' = [[] \<mapsto> V_dir, [''f''] \<mapsto> V_file]"
    unfolding ns'(2) ns(2) by (auto simp: fun_eq_iff sample_view_def)
  with ns ns' show ?thesis by blast
qed


text \<open>
  \<open>ListDir\<close>: of a directory it returns the names of its children, each once; of a file it
  casts a file to a directory; of anything else it returns the empty list.  A trailing slash
  is ignored, and then a file gives the empty list as well.
\<close>

theorem list_dir_outcome:
  assumes "fs_wf ns" and "SplitPath path \<noteq> []"
  shows "case view ns (listed path) of
      Some V_dir \<Rightarrow> \<exists>xs. ListDir path ns = Inr xs \<and> distinct xs \<and>
        set xs = {x. view ns (listed path @ [x]) \<noteq> None}
    | Some V_file \<Rightarrow> ListDir path ns = (if last (SplitPath path) = [] then Inr [] else Inl Bad_cast)
    | None \<Rightarrow> ListDir path ns = Inr []"
  by (rule ListDir_spec [OF assms])

theorem list_dir_outcome_witness:
  "\<exists>ns xs. view ns = sample_view \<and> ListDir ''/'' ns = Inr xs \<and> distinct xs \<and> set xs = {''a'', ''f''} \<and>
     ListDir ''/f'' ns = Inl Bad_cast"
proof -
  obtain ns where ns: "fs_wf ns" "view ns = sample_view" using sample_exists by blast
  have "SplitPath ''/'' \<noteq> []" "SplitPath ''/f'' \<noteq> []" by (simp_all add: sample_paths)
  note h = list_dir_outcome [OF ns(1) this(1)] list_dir_outcome [OF ns(1) this(2)]
  have "listed ''/'' = []" "listed ''/f'' = [''f'']" "last (SplitPath ''/f'') \<noteq> []"
    by (simp_all add: listed_def sample_paths)
  with h have "\<exists>xs. ListDir ''/'' ns = Inr xs \<and> distinct xs \<and> set xs = {x. view ns [x] \<noteq> None}"
    and f: "ListDir ''/f'' ns = Inl Bad_cast"
    by (simp_all add: ns sample_view_def)
  moreover have "{x. view ns [x] \<noteq> None} = {''a'', ''f''}"
    by (auto simp: ns sample_view_def)
  ultimately show ?thesis using ns by metis
qed

text \<open>
  \<open>GetFileInfo\<close>: of a file it reports true with the path it was asked for, rebuilt by
  climbing to the root, so splitting a path and climbing back are inverse; of a directory it
  casts a directory to a file; of a missing node under an existing directory it returns
  false; and when the parent is no directory, or the last name is empty, it returns true and
  leaves the info as it was.
\<close>

theorem file_info_outcome:
  assumes "fs_wf ns" and "ValidatePath path"
  shows "if view ns (butlast (SplitPath path)) \<noteq> Some V_dir \<or> last (SplitPath path) = []
    then GetFileInfo path ns = Inr (True, None)
    else case view ns (SplitPath path) of
      None \<Rightarrow> GetFileInfo path ns = Inr (False, None)
    | Some V_dir \<Rightarrow> GetFileInfo path ns = Inl Bad_cast
    | Some V_file \<Rightarrow> \<exists>info. GetFileInfo path ns = Inr (True, Some info) \<and> fi_path info = path \<and>
        fi_creator info = ''unknown''"
  by (rule GetFileInfo_spec [OF assms])

theorem file_info_outcome_witness:
  "\<exists>ns info. view ns = sample_view \<and> GetFileInfo ''/f'' ns = Inr (True, Some info) \<and>
     fi_path info = ''/f'' \<and> GetFileInfo ''/x/y'' ns = Inr (True, None)"
proof -
  obtain ns where ns: "fs_wf ns" "view ns = sample_view" using sample_exists by blast
  have p: "SplitPath ''/x/y'' = [''x'', ''y'']" by (simp add: SplitPath_def)
  have "ValidatePath ''/f''" "ValidatePath ''/x/y''" by (simp_all add: ValidatePath_def)
  note h = file_info_outcome [OF ns(1) this(1)] file_info_outcome [OF ns(1) this(2)]
  from h(1) have "\<exists>info. GetFileInfo ''/f'' ns = Inr (True, Some info) \<and> fi_path info = ''/f''"
    by (auto simp: sample_paths ns sample_view_def)
  moreover from h(2) have "GetFileInfo ''/x/y'' ns = Inr (True, None)"
    by (simp add: p ns sample_view_def)
  ultimately show ?thesis using ns by blast
qed

text \<open>
  C34. Splitting a valid path and joining the names gives the path back, and every non-empty
  list of names without slashes is the split of exactly one valid path.
\<close>

theorem split_path_roundtrip:
  "(ValidatePath path \<longrightarrow> SplitPath path \<noteq> [] \<and> CHR ''/'' # join_slash (SplitPath path) = path) \<and>
   (names \<noteq> [] \<and> (\<forall>x \<in> set names. CHR ''/'' \<notin> set x) \<longrightarrow>
     ValidatePath (CHR ''/'' # join_slash names) \<and> SplitPath (CHR ''/'' # join_slash names) = names)"
  using valid_path_split split_join by (auto simp: ValidatePath_def SplitPath_def)

theorem split_path_roundtrip_witness:
  "SplitPath ''/a/b'' = [''a'', ''b''] \<and> CHR ''/'' # join_slash (SplitPath ''/a/b'') = ''/a/b''"
proof -
  have "SplitPath (CHR ''/'' # join_slash [''a'', ''b'']) = [''a'', ''b'']"
    using split_path_roundtrip [of "''/a/b''" "[''a'', ''b'']"] by simp
  then show ?thesis by simp
qed

end
