(* ===== verification/FS_Destroy.thy ===== *)
theory FS_Destroy
  imports FS_Properties
begin

text \<open>
  The end of a name space.  The destructors of \<open>FSNamespace\<close> and \<open>INode\<close> are empty; the nodes go
  with the pointers that own them: the name space owns the root, and the vector of a directory
  its children.
\<close>

section \<open>Destruction\<close>

text \<open>
  The destructor of a directory destroys the members of its vector in order, then the node is
  freed.  A pointer to a node that is no longer there is freed twice, which is undefined.  The
  first argument bounds the depth of the tree.
\<close>

fun destroy_all :: "(addr \<Rightarrow> heap \<Rightarrow> heap outcome) \<Rightarrow> addr list \<Rightarrow> heap \<Rightarrow> heap outcome" where
  "destroy_all destroy [] h = Inr h"
| "destroy_all destroy (c # cs) h = and_then (destroy c h) (destroy_all destroy cs)"

fun destroy_INode :: "nat \<Rightarrow> addr \<Rightarrow> heap \<Rightarrow> heap outcome" where
  "destroy_INode 0 a h = Inl Out_of_fuel"
| "destroy_INode (Suc f) a h =
     and_then (deref a h) (\<lambda>n.
     case i_kind n of
       File_node _ \<Rightarrow> Inr (free_node a h)
     | Dir_node cs m \<Rightarrow> and_then (destroy_all (destroy_INode f) cs h) (\<lambda>h1. Inr (free_node a h1)))"

definition delete_FSNamespace :: "fs_namespace \<Rightarrow> heap outcome" where
  "delete_FSNamespace ns = destroy_INode (Suc (next_addr (fs_heap ns))) (fs_root ns) (fs_heap ns)"


section \<open>What it frees\<close>

definition without :: "heap \<Rightarrow> addr set \<Rightarrow> heap" where
  "without h X = h\<lparr>cells := (\<lambda>b. if b \<in> X then None else cells h b)\<rparr>"

lemma without_simps [simp]:
  "without h {} = h" "without (without h X) Y = without h (X \<union> Y)" "free_node a (without h X) = without h (insert a X)"
  "cells (without h X) b = (if b \<in> X then None else cells h b)"
  by (simp_all add: without_def free_node_def fun_eq_iff)

lemma free_without: "free_node a h = without h {a}"
  by (simp add: without_def free_node_def fun_eq_iff)

lemma below_single: "below h {c} = subtree h c"
  by (simp add: below_def)

text \<open>The trees below two children of a directory have no node in common.\<close>

lemma subtrees_apart:
  assumes t: "tree_ok h r" and k: "kids h d = Some (cs, m)" and "c \<in> set cs" and "X \<subseteq> set cs" and "c \<notin> X"
  shows "subtree h c \<inter> below h X = {}"
proof -
  have False if X: "c' \<in> X" and "walk h c p = Some e" "walk h c' q = Some e" for c' p q e
  proof -
    obtain x where x: "child h d x = Some c" using member_child [OF t k assms(3)] by blast
    obtain y where y: "child h d y = Some c'" using member_child [OF t k subsetD [OF assms(4) X]] by blast
    from x y that have "x # p = y # q" by (intro walk_inj [OF t, of d _ e]) simp_all
    with x y assms(5) X show False by simp
  qed
  then show ?thesis unfolding below_def subtree_def by blast
qed

lemma destroy_all_spec:
  assumes t: "tree_ok h0 r" and k: "kids h0 a = Some (cs, m)"
    and each: "\<And>c h. c \<in> set cs \<Longrightarrow> \<forall>b \<in> subtree h0 c. cells h b = cells h0 b \<Longrightarrow>
      destroy c h = Inr (without h (subtree h0 c))"
    and "set xs \<subseteq> set cs" and "distinct xs" and "\<forall>b \<in> below h0 (set xs). cells h b = cells h0 b"
  shows "destroy_all destroy xs h = Inr (without h (below h0 (set xs)))"
  using assms(4-6)
proof (induction xs arbitrary: h)
  case Nil
  then show ?case by (simp add: below_def)
next
  case (Cons c xs)
  have apart: "subtree h0 c \<inter> below h0 (set xs) = {}" using Cons.prems by (intro subtrees_apart [OF t k]) auto
  have "destroy c h = Inr (without h (subtree h0 c))" using Cons.prems by (intro each) (auto simp: below_insert)
  moreover have "destroy_all destroy xs (without h (subtree h0 c)) =
      Inr (without (without h (subtree h0 c)) (below h0 (set xs)))"
    using Cons.prems apart by (intro Cons.IH) (auto simp: below_insert)
  ultimately show ?case by (simp add: below_insert)
qed

lemma destroy_INode_spec:
  assumes t: "tree_ok h0 r"
  shows "cells h0 a \<noteq> None \<Longrightarrow> \<forall>b \<in> subtree h0 a. cells h b = cells h0 b \<Longrightarrow> next_addr h0 - a \<le> f \<Longrightarrow>
    destroy_INode f a h = Inr (without h (subtree h0 a))"
proof (induction f arbitrary: a h)
  case 0
  then show ?case using tree_okD(3) [OF t] by fastforce
next
  case (Suc f)
  then obtain n where n: "cells h0 a = Some n" "cells h a = Some n" by auto
  show ?case
  proof (cases "i_kind n")
    case (File_node sz)
    then have "kids h0 a = None" using n(1) by (simp add: kids_def)
    then have "subtree h0 a = {a}" using below_leaf [OF t, of a] by (simp add: below_single)
    with n File_node show ?thesis by (simp add: deref_def free_without)
  next
    case (Dir_node cs m)
    with n(1) have k: "kids h0 a = Some (cs, m)" by (simp add: kids_cell)
    have sub: "subtree h0 a = insert a (below h0 (set cs))" using below_dir [OF t k] by (simp add: below_single)
    have "destroy_all (destroy_INode f) cs h = Inr (without h (below h0 (set cs)))"
    proof (rule destroy_all_spec [OF t k])
      fix c and h :: heap assume c: "c \<in> set cs" and same: "\<forall>b \<in> subtree h0 c. cells h b = cells h0 b"
      with kids_members(2) [OF t k c] Suc.prems(3) tree_okD(3) [OF t]
      show "destroy_INode f c h = Inr (without h (subtree h0 c))" by (intro Suc.IH) auto
    qed (use kids_members(1) [OF t k] Suc.prems(2) sub in auto)
    with n Dir_node sub show ?thesis by (simp add: deref_def)
  qed
qed

text \<open>
  C19. The end of a name space frees every node exactly once: in every state that it can reach
  the destruction of its root is defined, so no node is freed twice, and leaves an empty heap.
\<close>

theorem destroyed_once:
  assumes "fs_reachable ns"
  shows "\<exists>h. delete_FSNamespace ns = Inr h \<and> cells h = Map.empty"
proof -
  have t: "tree_ok (fs_heap ns) (fs_root ns)" using fs_reachable_wf [OF assms] by (simp add: fs_wf_def)
  have "delete_FSNamespace ns = Inr (without (fs_heap ns) (subtree (fs_heap ns) (fs_root ns)))"
    unfolding delete_FSNamespace_def by (rule destroy_INode_spec [OF t]) (simp_all add: root_cell [OF t])
  moreover have "cells (fs_heap ns) b = None" if "b \<notin> subtree (fs_heap ns) (fs_root ns)" for b
    using every_node_on_path [OF t, of b] that unfolding subtree_def by blast
  ultimately show ?thesis by (auto simp: fun_eq_iff)
qed

theorem destroyed_once_witness:
  "\<exists>ns h. view ns = sample_view \<and> delete_FSNamespace ns = Inr h \<and> cells h = Map.empty"
  using sample_exists destroyed_once by blast

end
