(* ===== verification/Client_FS.thy ===== *)
theory Client_FS
  imports Client_RPC
begin

text \<open>
  The client library, \<open>client/RaftFS\<close>: an \<open>FSClient\<close> asks some host, its follower, who the
  leader is, sends changes to the leader and reads to the follower.

  Sockets and calls belong to the RPC library, so they are an argument: a \<open>network\<close> is the
  operations of its sockets over a state \<open>'w\<close> of the world outside the client.  A call is
  answered or throws.  The locale \<open>transport\<close> names what the client relies on, and the
  \<open>direct_net\<close> at the end connects clients to the handlers of the modelled servers.
\<close>

section \<open>Sockets and calls\<close>

datatype thrown = Transport_exception | Other_exception

record 'w network =
  new_sock :: "string \<Rightarrow> int \<Rightarrow> 'w \<Rightarrow> nat \<times> 'w"
  open_sock :: "nat \<Rightarrow> 'w \<Rightarrow> bool \<times> 'w"
  close_sock :: "nat \<Rightarrow> 'w \<Rightarrow> 'w"
  sock_open :: "nat \<Rightarrow> 'w \<Rightarrow> bool"
  sock_host :: "nat \<Rightarrow> 'w \<Rightarrow> string"
  call_leader :: "nat \<Rightarrow> 'w \<Rightarrow> (thrown + leader_response) \<times> 'w"
  call_meta :: "nat \<Rightarrow> meta_op \<Rightarrow> string \<Rightarrow> 'w \<Rightarrow> (thrown + meta_response) \<times> 'w"
  call_info :: "nat \<Rightarrow> string \<Rightarrow> 'w \<Rightarrow> (thrown + info_response) \<times> 'w"
  call_list :: "nat \<Rightarrow> string \<Rightarrow> 'w \<Rightarrow> (thrown + list_response) \<times> 'w"

text \<open>
  The client object.  A null pointer is \<open>None\<close>; a socket and the RPC client on it are named by
  the socket.
\<close>

record fs_client =
  c_port :: int
  c_leader_id :: int
  c_follower_id :: int
  c_hosts :: "string list"
  c_leader_sock :: "nat option"
  c_follower_sock :: "nat option"
  c_leader_rpc :: "nat option"
  c_follower_rpc :: "nat option"

text \<open>
  A method returns or throws, and leaves the client and the world; or its behaviour is
  undefined.
\<close>

type_synonym ('a, 'w) call_result = "((thrown + 'a) \<times> fs_client \<times> 'w) outcome"

definition c_return :: "'a \<Rightarrow> fs_client \<Rightarrow> 'w \<Rightarrow> ('a, 'w) call_result" where
  "c_return v cl w = Inr (Inr v, cl, w)"

definition c_then :: "('a, 'w) call_result \<Rightarrow> ('a \<Rightarrow> fs_client \<Rightarrow> 'w \<Rightarrow> ('b, 'w) call_result) \<Rightarrow> ('b, 'w) call_result" where
  "c_then r f = and_then r (\<lambda>(x, cl, w). case x of Inl e \<Rightarrow> Inr (Inl e, cl, w) | Inr v \<Rightarrow> f v cl w)"

lemma c_then_simps [simp]:
  "c_then (Inl u) f = Inl u"
  "c_then (Inr (Inl e, cl, w)) f = Inr (Inl e, cl, w)"
  "c_then (Inr (Inr v, cl, w)) f = f v cl w"
  "c_then (c_return v cl w) f = f v cl w"
  by (simp_all add: c_then_def c_return_def)


section \<open>Connections\<close>

text \<open>\<open>hosts[i - 1]\<close>; the operator does not check its index.\<close>

definition host_at :: "fs_client \<Rightarrow> int \<Rightarrow> string outcome" where
  "host_at cl i =
     (if 1 \<le> i \<and> i \<le> int (length (c_hosts cl)) then Inr (c_hosts cl ! nat (i - 1)) else Inl Index_out_of_range)"

definition ResetSock :: "'w network \<Rightarrow> int \<Rightarrow> nat option \<Rightarrow> string \<Rightarrow> 'w \<Rightarrow> nat \<times> 'w" where
  "ResetSock net port sock host w =
     (let w1 = (case sock of None \<Rightarrow> w | Some s \<Rightarrow> if sock_open net s w then close_sock net s w else w)
      in new_sock net host port w1)"

definition ResetRPCClient :: "'w network \<Rightarrow> int \<Rightarrow> nat option \<Rightarrow> string \<Rightarrow> 'w \<Rightarrow> bool \<times> nat \<times> 'w" where
  "ResetRPCClient net port sock host w =
     (let (s, w1) = ResetSock net port sock host w;
          (ok, w2) = open_sock net s w1
      in (ok, s, w2))"

definition reset_follower :: "'w network \<Rightarrow> string \<Rightarrow> fs_client \<Rightarrow> 'w \<Rightarrow> bool \<times> fs_client \<times> 'w" where
  "reset_follower net host cl w =
     (let (ok, s, w1) = ResetRPCClient net (c_port cl) (c_follower_sock cl) host w
      in (ok, cl\<lparr>c_follower_sock := Some s, c_follower_rpc := Some s\<rparr>, w1))"

definition reset_leader :: "'w network \<Rightarrow> string \<Rightarrow> fs_client \<Rightarrow> 'w \<Rightarrow> bool \<times> fs_client \<times> 'w" where
  "reset_leader net host cl w =
     (let (ok, s, w1) = ResetRPCClient net (c_port cl) (c_leader_sock cl) host w
      in (ok, cl\<lparr>c_leader_sock := Some s, c_leader_rpc := Some s\<rparr>, w1))"

definition next_follower :: "fs_client \<Rightarrow> int" where
  "next_follower cl = (c_follower_id cl + 1) mod int (length (c_hosts cl)) + 1"

lemma reset_client:
  "snd (reset_follower net h cl w) = (cl', w') \<Longrightarrow> \<exists>s. cl' = cl\<lparr>c_follower_sock := Some s, c_follower_rpc := Some s\<rparr>"
  "snd (reset_leader net h cl w) = (cl', w') \<Longrightarrow> \<exists>s. cl' = cl\<lparr>c_leader_sock := Some s, c_leader_rpc := Some s\<rparr>"
  by (auto simp: reset_follower_def reset_leader_def Let_def split: prod.splits)

text \<open>The loop of \<open>ConnectFollower\<close>: it tries one host after the other, once more than there are hosts.\<close>

function connect_loop :: "'w network \<Rightarrow> nat \<Rightarrow> fs_client \<Rightarrow> 'w \<Rightarrow> (fs_client \<times> 'w) outcome" where
  "connect_loop net retry cl w =
     and_then (host_at cl (c_follower_id cl)) (\<lambda>h.
     let (ok, cl1, w1) = reset_follower net h cl w in
     if \<not> ok \<and> retry < length (c_hosts cl)
     then connect_loop net (Suc retry) (cl1\<lparr>c_follower_id := next_follower cl\<rparr>) w1
     else Inr (cl1, w1))"
  by pat_completeness auto
termination
proof (relation "measure (\<lambda>(net, retry, cl, w). length (c_hosts cl) - retry)", simp, goal_cases)
  case (1 net retry cl w h x ok y cl1 w1)
  then obtain s where "cl1 = cl\<lparr>c_follower_sock := Some s, c_follower_rpc := Some s\<rparr>"
    using reset_client(1) [of net h cl w cl1 w1] by (metis snd_conv)
  with 1(4) show ?case by (simp add: diff_less_mono2)
qed

declare connect_loop.simps [simp del]

definition ConnectFollower :: "'w network \<Rightarrow> fs_client \<Rightarrow> 'w \<Rightarrow> (bool, 'w) call_result" where
  "ConnectFollower net cl w =
     and_then (if (case c_follower_sock cl of None \<Rightarrow> True | Some s \<Rightarrow> \<not> sock_open net s w)
               then connect_loop net 0 cl w else Inr (cl, w)) (\<lambda>(cl1, w1).
     case c_follower_sock cl1 of
       None \<Rightarrow> Inl Null_dereference
     | Some s \<Rightarrow> c_return (sock_open net s w1) cl1 w1)"



section \<open>Finding the leader\<close>

text \<open>
  \<open>GetLeader\<close> asks the follower when no leader is known.  The call is not guarded, so an
  exception leaves the method.  The status of the reply is the one that the server's handler
  left in it.
\<close>

definition adopt_leader :: "'w network \<Rightarrow> int \<Rightarrow> fs_client \<Rightarrow> 'w \<Rightarrow> (unit, 'w) call_result" where
  "adopt_leader net l cl w =
     (let cl1 = cl\<lparr>c_leader_id := l\<rparr> in
      and_then (host_at cl1 l) (\<lambda>h.
      let (_, cl2, w2) = reset_leader net h cl1 w in
      if l = c_follower_id cl2
      then (let cl3 = cl2\<lparr>c_follower_id := next_follower cl2\<rparr> in
            and_then (host_at cl3 (c_follower_id cl3)) (\<lambda>h'.
            let (_, cl4, w4) = reset_follower net h' cl3 w2 in c_return () cl4 w4))
      else c_return () cl2 w2))"

definition client_GetLeader :: "'w network \<Rightarrow> fs_client \<Rightarrow> 'w \<Rightarrow> (int, 'w) call_result" where
  "client_GetLeader net cl w =
     (if c_leader_id cl = -1
      then c_then (ConnectFollower net cl w) (\<lambda>connected cl1 w1.
           if \<not> connected then c_return (c_leader_id cl1) cl1 w1
           else case c_follower_rpc cl1 of
                  None \<Rightarrow> Inl Null_dereference
                | Some s \<Rightarrow>
                    (case call_leader net s w1 of
                       (Inl e, w2) \<Rightarrow> Inr (Inl e, cl1, w2)
                     | (Inr resp, w2) \<Rightarrow>
                         if lr_status resp = kOK
                         then c_then (adopt_leader net (lr_leader_id resp) cl1 w2) (\<lambda>_ cl2 w3.
                              c_return (c_leader_id cl2) cl2 w3)
                         else c_return (c_leader_id cl1) cl1 w2))
      else c_return (c_leader_id cl) cl w)"

text \<open>
  The constructor picks its follower at random: \<open>rnd\<close> is what \<open>rand()\<close> returns.  With no
  hosts the remainder divides by zero.
\<close>

definition new_FSClient :: "'w network \<Rightarrow> int \<Rightarrow> string list \<Rightarrow> nat \<Rightarrow> 'w \<Rightarrow> (unit, 'w) call_result" where
  "new_FSClient net port hosts rnd w =
     (if hosts = [] then Inl Division_by_zero
      else
        let cl = \<lparr>c_port = port, c_leader_id = -1, c_follower_id = int (rnd mod length hosts) + 1,
                  c_hosts = hosts, c_leader_sock = None, c_follower_sock = None,
                  c_leader_rpc = None, c_follower_rpc = None\<rparr>
        in and_then (host_at cl (c_follower_id cl)) (\<lambda>h.
           let (_, cl1, w1) = reset_follower net h cl w in
           c_then (client_GetLeader net cl1 w1) (\<lambda>l cl2 w2.
           if l \<noteq> -1 then and_then (host_at cl2 l) (\<lambda>_. c_return () cl2 w2) else c_return () cl2 w2)))"

definition delete_FSClient :: "'w network \<Rightarrow> fs_client \<Rightarrow> 'w \<Rightarrow> 'w" where
  "delete_FSClient net cl w =
     (let close_open = (\<lambda>sock w. case sock of None \<Rightarrow> w
            | Some s \<Rightarrow> if sock_open net s w then close_sock net s w else w)
      in close_open (c_leader_sock cl) (close_open (c_follower_sock cl) w))"

definition GetFollowerName :: "'w network \<Rightarrow> fs_client \<Rightarrow> 'w \<Rightarrow> string outcome" where
  "GetFollowerName net cl w =
     (case c_follower_sock cl of None \<Rightarrow> Inl Null_dereference | Some s \<Rightarrow> Inr (sock_host net s w))"

text \<open>\<open>CheckLeaders\<close> connects to every host in turn and asks it for the leader.\<close>

fun check_leaders :: "'w network \<Rightarrow> string list \<Rightarrow> fs_client \<Rightarrow> 'w \<Rightarrow> (unit, 'w) call_result" where
  "check_leaders net [] cl w = c_return () cl w"
| "check_leaders net (h # hs) cl w =
     (let (_, cl1, w1) = reset_follower net h cl w in
      c_then (client_GetLeader net (cl1\<lparr>c_leader_id := -1\<rparr>) w1) (\<lambda>_ cl2 w2. check_leaders net hs cl2 w2))"

definition CheckLeaders :: "'w network \<Rightarrow> fs_client \<Rightarrow> 'w \<Rightarrow> (unit, 'w) call_result" where
  "CheckLeaders net cl w = check_leaders net (c_hosts cl) cl w"


section \<open>Operations\<close>

text \<open>
  A change goes to the leader; a transport exception is answered \<open>kCommError\<close>.  \<open>Mkdir\<close> and
  \<open>Rmdir\<close> connect to the leader when they have no RPC client, \<open>CreateFile\<close> and \<open>DeleteFile\<close>
  follow the pointer.
\<close>

definition meta_call ::
  "'w network \<Rightarrow> meta_op \<Rightarrow> string \<Rightarrow> fs_client \<Rightarrow> 'w \<Rightarrow> (status + meta_response, 'w) call_result"
where
  "meta_call net op path cl w =
     (case c_leader_rpc cl of
        None \<Rightarrow> Inl Null_dereference
      | Some s \<Rightarrow>
          (case call_meta net s op path w of
             (Inl Transport_exception, w1) \<Rightarrow> c_return (Inl kCommError) cl w1
           | (Inl Other_exception, w1) \<Rightarrow> Inr (Inl Other_exception, cl, w1)
           | (Inr resp, w1) \<Rightarrow> c_return (Inr resp) cl w1))"

definition ensure_leader_rpc :: "'w network \<Rightarrow> fs_client \<Rightarrow> 'w \<Rightarrow> (unit, 'w) call_result" where
  "ensure_leader_rpc net cl w =
     (if c_leader_rpc cl = None
      then and_then (host_at cl (c_leader_id cl)) (\<lambda>h.
           let (_, cl1, w1) = reset_leader net h cl w in c_return () cl1 w1)
      else c_return () cl w)"

definition answer :: "status + meta_response \<Rightarrow> status" where
  "answer r = (case r of Inl s \<Rightarrow> s | Inr resp \<Rightarrow> mr_status resp)"

definition client_dir_op :: "meta_op \<Rightarrow> 'w network \<Rightarrow> string \<Rightarrow> fs_client \<Rightarrow> 'w \<Rightarrow> (status, 'w) call_result" where
  "client_dir_op op net path cl w =
     c_then (client_GetLeader net cl w) (\<lambda>l cl1 w1.
     if l = -1 then c_return kNoLeader cl1 w1
     else c_then (ensure_leader_rpc net cl1 w1) (\<lambda>_ cl2 w2.
          c_then (meta_call net op path cl2 w2) (\<lambda>r cl3 w3. c_return (answer r) cl3 w3)))"

definition client_Mkdir :: "'w network \<Rightarrow> string \<Rightarrow> fs_client \<Rightarrow> 'w \<Rightarrow> (status, 'w) call_result" where
  "client_Mkdir = client_dir_op kMkdir"

definition client_Rmdir :: "'w network \<Rightarrow> string \<Rightarrow> fs_client \<Rightarrow> 'w \<Rightarrow> (status, 'w) call_result" where
  "client_Rmdir = client_dir_op kRmdir"

definition client_CreateFile :: "'w network \<Rightarrow> string \<Rightarrow> fs_client \<Rightarrow> 'w \<Rightarrow> (status, 'w) call_result" where
  "client_CreateFile net path cl w =
     c_then (client_GetLeader net cl w) (\<lambda>l cl1 w1.
     if l = -1 then c_return kNoLeader cl1 w1
     else c_then (meta_call net kCreate path cl1 w1) (\<lambda>r cl2 w2. c_return (answer r) cl2 w2))"

text \<open>\<open>DeleteFile\<close> follows the leader id of an answer, but only of one with status \<open>kOK\<close>.\<close>

definition delete_answer :: "'w network \<Rightarrow> status + meta_response \<Rightarrow> fs_client \<Rightarrow> 'w \<Rightarrow> (status, 'w) call_result" where
  "delete_answer net r cl w =
     (case r of
        Inl s \<Rightarrow> c_return s cl w
      | Inr resp \<Rightarrow>
          (case mr_leader_id resp of
             Some new \<Rightarrow>
               if mr_status resp = kOK \<and> new \<noteq> c_leader_id cl
               then (let cl1 = cl\<lparr>c_leader_id := new\<rparr> in
                     and_then (host_at cl1 new) (\<lambda>h.
                     let (_, cl2, w2) = reset_leader net h cl1 w in c_return (mr_status resp) cl2 w2))
               else c_return (mr_status resp) cl w
           | None \<Rightarrow> c_return (mr_status resp) cl w))"

definition client_DeleteFile :: "'w network \<Rightarrow> string \<Rightarrow> fs_client \<Rightarrow> 'w \<Rightarrow> (status, 'w) call_result" where
  "client_DeleteFile net path cl w =
     c_then (client_GetLeader net cl w) (\<lambda>l cl1 w1.
     if l = -1 then c_return kNoLeader cl1 w1
     else c_then (meta_call net kDelete path cl1 w1) (\<lambda>r cl2 w2. delete_answer net r cl2 w2))"

text \<open>Reads go to the follower; \<open>ListDir\<close> asks the leader when the follower finds nothing.\<close>

definition client_ListDir ::
  "'w network \<Rightarrow> string \<Rightarrow> fs_client \<Rightarrow> 'w \<Rightarrow> (status \<times> string list option, 'w) call_result"
where
  "client_ListDir net dir cl w =
     c_then (ConnectFollower net cl w) (\<lambda>connected cl1 w1.
     let reply = (\<lambda>resp w'. c_return (dr_status resp,
                   Some (case dr_dir_list resp of None \<Rightarrow> [] | Some xs \<Rightarrow> xs)) cl1 w') in
     if \<not> connected then c_return (kCommError, None) cl1 w1
     else case c_follower_rpc cl1 of
            None \<Rightarrow> Inl Null_dereference
          | Some s \<Rightarrow>
              (case call_list net s dir w1 of
                 (Inl Transport_exception, w2) \<Rightarrow> c_return (kCommError, None) cl1 w2
               | (Inl Other_exception, w2) \<Rightarrow> Inr (Inl Other_exception, cl1, w2)
               | (Inr resp, w2) \<Rightarrow>
                   if dr_status resp = kNotFound
                   then case c_leader_rpc cl1 of
                          None \<Rightarrow> Inl Null_dereference
                        | Some s' \<Rightarrow>
                            (case call_list net s' dir w2 of
                               (Inl Transport_exception, w3) \<Rightarrow> c_return (kCommError, None) cl1 w3
                             | (Inl Other_exception, w3) \<Rightarrow> Inr (Inl Other_exception, cl1, w3)
                             | (Inr resp', w3) \<Rightarrow> reply resp' w3)
                   else reply resp w2))"

definition client_GetFileInfo ::
  "'w network \<Rightarrow> string \<Rightarrow> fs_client \<Rightarrow> 'w \<Rightarrow> (status \<times> file_info option, 'w) call_result"
where
  "client_GetFileInfo net file cl w =
     c_then (ConnectFollower net cl w) (\<lambda>connected cl1 w1.
     if \<not> connected then c_return (kCommError, None) cl1 w1
     else case c_follower_rpc cl1 of
            None \<Rightarrow> Inl Null_dereference
          | Some s \<Rightarrow>
              (case call_info net s file w1 of
                 (Inl Transport_exception, w2) \<Rightarrow> c_return (kCommError, None) cl1 w2
               | (Inl Other_exception, w2) \<Rightarrow> Inr (Inl Other_exception, cl1, w2)
               | (Inr resp, w2) \<Rightarrow>
                   c_return (ir_status resp, if ir_status resp = kOK then Some (ir_info resp) else None) cl1 w2))"



section \<open>The invariant of the client\<close>

text \<open>
  The follower is a listed host; the leader is unknown or a listed host that the client has
  an RPC client for.
\<close>

definition listed_id :: "fs_client \<Rightarrow> int \<Rightarrow> bool" where
  "listed_id cl i \<longleftrightarrow> 1 \<le> i \<and> i \<le> int (length (c_hosts cl))"

definition client_ok :: "fs_client \<Rightarrow> bool" where
  "client_ok cl \<longleftrightarrow> listed_id cl (c_follower_id cl) \<and> c_follower_rpc cl = c_follower_sock cl \<and>
     (c_leader_id cl \<noteq> -1 \<longrightarrow> listed_id cl (c_leader_id cl) \<and> c_leader_rpc cl \<noteq> None)"

lemma host_at_listed: "listed_id cl i \<Longrightarrow> host_at cl i = Inr (c_hosts cl ! nat (i - 1))"
  by (simp add: host_at_def listed_id_def)

lemma next_follower_listed: "listed_id cl i \<Longrightarrow> listed_id cl (next_follower cl)"
  unfolding listed_id_def next_follower_def
  using pos_mod_bound [of "int (length (c_hosts cl))" "c_follower_id cl + 1"]
    pos_mod_sign [of "int (length (c_hosts cl))" "c_follower_id cl + 1"] by linarith

lemma listed_id_cong: "c_hosts cl' = c_hosts cl \<Longrightarrow> listed_id cl' i = listed_id cl i"
  by (simp add: listed_id_def)

text \<open>What moves when the follower is changed, and what stays.\<close>

definition same_leader :: "fs_client \<Rightarrow> fs_client \<Rightarrow> bool" where
  "same_leader cl cl' \<longleftrightarrow> c_hosts cl' = c_hosts cl \<and> c_port cl' = c_port cl \<and> c_leader_id cl' = c_leader_id cl \<and>
     c_leader_rpc cl' = c_leader_rpc cl \<and> c_leader_sock cl' = c_leader_sock cl"

lemma same_leader_refl: "same_leader cl cl"
  by (simp add: same_leader_def)

lemma same_leader_trans: "same_leader cl cl1 \<Longrightarrow> same_leader cl1 cl2 \<Longrightarrow> same_leader cl cl2"
  by (simp add: same_leader_def)

lemma reset_follower_cases:
  obtains ok s w' where "reset_follower net h cl w = (ok, cl\<lparr>c_follower_sock := Some s, c_follower_rpc := Some s\<rparr>, w')"
    "ResetRPCClient net (c_port cl) (c_follower_sock cl) h w = (ok, s, w')"
  by (cases "ResetRPCClient net (c_port cl) (c_follower_sock cl) h w") (auto simp: reset_follower_def)

lemma reset_leader_cases:
  obtains ok s w' where "reset_leader net h cl w = (ok, cl\<lparr>c_leader_sock := Some s, c_leader_rpc := Some s\<rparr>, w')"
  by (cases "ResetRPCClient net (c_port cl) (c_leader_sock cl) h w") (auto simp: reset_leader_def)

lemma connect_loop_ok:
  "client_ok cl \<Longrightarrow> \<exists>cl' w'. connect_loop net retry cl w = Inr (cl', w') \<and> client_ok cl' \<and> same_leader cl cl' \<and>
     c_follower_sock cl' \<noteq> None"
proof (induction net retry cl w rule: connect_loop.induct)
  case (1 net retry cl w)
  let ?h = "c_hosts cl ! nat (c_follower_id cl - 1)"
  have at: "host_at cl (c_follower_id cl) = Inr ?h"
    using "1.prems" by (simp add: client_ok_def host_at_listed)
  obtain ok s w1 where r: "reset_follower net ?h cl w = (ok, cl\<lparr>c_follower_sock := Some s, c_follower_rpc := Some s\<rparr>, w1)"
    by (rule reset_follower_cases)
  let ?cl1 = "cl\<lparr>c_follower_sock := Some s, c_follower_rpc := Some s\<rparr>"
  have ok1: "client_ok ?cl1" "same_leader cl ?cl1"
    using "1.prems" by (simp_all add: client_ok_def same_leader_def listed_id_def)
  show ?case
  proof (cases "\<not> ok \<and> retry < length (c_hosts cl)")
    case True
    let ?cl2 = "?cl1\<lparr>c_follower_id := next_follower cl\<rparr>"
    have "client_ok ?cl2" "same_leader cl ?cl2"
      using "1.prems" next_follower_listed by (auto simp: client_ok_def same_leader_def listed_id_def)
    moreover have "connect_loop net retry cl w = connect_loop net (Suc retry) ?cl2 w1"
      using at r True by (subst connect_loop.simps) simp
    ultimately show ?thesis
      using "1.IH" [of "reset_follower net ?h cl w" ?h ok "(?cl1, w1)" ?cl1 w1] r True
        same_leader_trans by metis
  next
    case False
    with ok1 show ?thesis
      by (subst connect_loop.simps) (auto simp: at r)
  qed
qed

lemma ConnectFollower_ok:
  assumes "client_ok cl"
  obtains b cl' w' where "ConnectFollower net cl w = c_return b cl' w'" "client_ok cl'" "same_leader cl cl'"
    "c_follower_sock cl' \<noteq> None"
proof (cases "case c_follower_sock cl of None \<Rightarrow> True | Some s \<Rightarrow> \<not> sock_open net s w")
  case True
  obtain cl' w' where "connect_loop net 0 cl w = Inr (cl', w')" "client_ok cl'" "same_leader cl cl'" "c_follower_sock cl' \<noteq> None"
    using connect_loop_ok [OF assms, of net 0 w] by blast
  with True that show thesis by (auto simp: ConnectFollower_def split: option.splits)
next
  case False
  with that [of _ cl w] assms same_leader_refl show thesis
    by (auto simp: ConnectFollower_def split: option.splits)
qed


text \<open>
  The servers name listed hosts only: what an answer with status \<open>kOK\<close> says about the leader.
\<close>

definition leaders_listed :: "'w network \<Rightarrow> nat \<Rightarrow> bool" where
  "leaders_listed net N \<longleftrightarrow>
     (\<forall>s w resp w'. call_leader net s w = (Inr resp, w') \<and> lr_status resp = kOK \<longrightarrow>
        1 \<le> lr_leader_id resp \<and> lr_leader_id resp \<le> int N) \<and>
     (\<forall>s op p w resp w' l. call_meta net s op p w = (Inr resp, w') \<and> mr_status resp = kOK \<and>
        mr_leader_id resp = Some l \<longrightarrow> 1 \<le> l \<and> l \<le> int N)"

text \<open>A method that is defined and keeps the invariant and the hosts.\<close>

definition well_behaved :: "fs_client \<Rightarrow> ('a, 'w) call_result \<Rightarrow> bool" where
  "well_behaved cl r \<longleftrightarrow> (\<exists>x cl' w'. r = Inr (x, cl', w') \<and> client_ok cl' \<and> c_hosts cl' = c_hosts cl)"

lemma well_behaved_return:
  "client_ok cl' \<Longrightarrow> c_hosts cl' = c_hosts cl \<Longrightarrow> well_behaved cl (c_return v cl' w)"
  "client_ok cl' \<Longrightarrow> c_hosts cl' = c_hosts cl \<Longrightarrow> well_behaved cl (Inr (Inl e, cl', w))"
  by (auto simp: well_behaved_def c_return_def)

lemma well_behaved_then:
  assumes "well_behaved cl r"
    and "\<And>v cl' w'. r = c_return v cl' w' \<Longrightarrow> client_ok cl' \<Longrightarrow> c_hosts cl' = c_hosts cl \<Longrightarrow> well_behaved cl (f v cl' w')"
  shows "well_behaved cl (c_then r f)"
proof -
  obtain x cl' w' where r: "r = Inr (x, cl', w')" "client_ok cl'" "c_hosts cl' = c_hosts cl"
    using assms(1) by (auto simp: well_behaved_def)
  then show ?thesis
    using assms(2) by (cases x) (auto simp: c_return_def well_behaved_return)
qed

lemma well_behaved_ConnectFollower: "client_ok cl \<Longrightarrow> well_behaved cl (ConnectFollower net cl w)"
  by (rule ConnectFollower_ok [of cl net w]) (auto simp: same_leader_def intro: well_behaved_return)

lemma adopt_leader_ok:
  assumes "client_ok cl" and "listed_id cl l"
  obtains cl' w' where "adopt_leader net l cl w = c_return () cl' w'" "client_ok cl'" "c_hosts cl' = c_hosts cl"
    "c_leader_id cl' = l"
proof -
  let ?cl1 = "cl\<lparr>c_leader_id := l\<rparr>"
  let ?h = "c_hosts cl ! nat (l - 1)"
  obtain ok s w1 where r: "reset_leader net ?h ?cl1 w = (ok, ?cl1\<lparr>c_leader_sock := Some s, c_leader_rpc := Some s\<rparr>, w1)"
    by (rule reset_leader_cases)
  let ?cl2 = "?cl1\<lparr>c_leader_sock := Some s, c_leader_rpc := Some s\<rparr>"
  let ?cl3 = "?cl2\<lparr>c_follower_id := next_follower ?cl2\<rparr>"
  have at: "host_at ?cl1 l = Inr ?h"
    using host_at_listed [of ?cl1 l] assms(2) by (simp add: listed_id_def)
  have ok2: "client_ok ?cl2" using assms by (simp add: client_ok_def listed_id_def)
  have moved: "listed_id ?cl3 (c_follower_id ?cl3)"
    using next_follower_listed [of ?cl2 l] assms(2) by (simp add: listed_id_def)
  obtain ok' s' w2 where r': "reset_follower net (c_hosts cl ! nat (c_follower_id ?cl3 - 1)) ?cl3 w1
      = (ok', ?cl3\<lparr>c_follower_sock := Some s', c_follower_rpc := Some s'\<rparr>, w2)"
    by (rule reset_follower_cases)
  let ?cl4 = "?cl3\<lparr>c_follower_sock := Some s', c_follower_rpc := Some s'\<rparr>"
  have ok4: "client_ok ?cl4" using ok2 moved assms(2) by (simp add: client_ok_def listed_id_def)
  show thesis
  proof (cases "l = c_follower_id ?cl2")
    case True
    then have "adopt_leader net l cl w = c_return () ?cl4 w2"
      using at r r' host_at_listed [OF moved] by (simp add: adopt_leader_def Let_def)
    with ok4 that show thesis by simp
  next
    case False
    then have "adopt_leader net l cl w = c_return () ?cl2 w1"
      using at r by (simp add: adopt_leader_def Let_def)
    with ok2 that show thesis by simp
  qed
qed

lemma GetLeader_well_behaved:
  assumes "client_ok cl" and net: "leaders_listed net (length (c_hosts cl))"
  shows "well_behaved cl (client_GetLeader net cl w)"
proof (cases "c_leader_id cl = -1")
  case True
  have "well_behaved cl (case c_follower_rpc cl1 of
      None \<Rightarrow> Inl Null_dereference
    | Some s \<Rightarrow> (case call_leader net s w1 of
         (Inl e, w2) \<Rightarrow> Inr (Inl e, cl1, w2)
       | (Inr resp, w2) \<Rightarrow>
           if lr_status resp = kOK
           then c_then (adopt_leader net (lr_leader_id resp) cl1 w2) (\<lambda>_ cl2 w3. c_return (c_leader_id cl2) cl2 w3)
           else c_return (c_leader_id cl1) cl1 w2))"
    if "ConnectFollower net cl w = c_return b cl1 w1" for b cl1 w1
  proof -
    from that have c: "client_ok cl1" "same_leader cl cl1" "c_follower_sock cl1 \<noteq> None"
      by (auto intro: ConnectFollower_ok [OF assms(1), of net w] simp: c_return_def)
    then have hosts: "c_hosts cl1 = c_hosts cl" by (simp add: same_leader_def)
    obtain s where s: "c_follower_rpc cl1 = Some s" using c by (auto simp: client_ok_def)
    obtain x w2 where call: "call_leader net s w1 = (x, w2)" by fastforce
    show ?thesis
    proof (cases x)
      case (Inl e)
      with c hosts show ?thesis by (simp add: s call well_behaved_return)
    next
      case (Inr resp)
      then have listed: "listed_id cl1 (lr_leader_id resp)" if "lr_status resp = kOK"
        using net call that by (auto simp: leaders_listed_def listed_id_def hosts)
      show ?thesis
      proof (cases "lr_status resp = kOK")
        case True
        obtain cl' w' where "adopt_leader net (lr_leader_id resp) cl1 w2 = c_return () cl' w'" "client_ok cl'"
          "c_hosts cl' = c_hosts cl1"
          by (rule adopt_leader_ok [OF c(1) listed [OF True], of net w2])
        with True Inr hosts show ?thesis by (simp add: s call well_behaved_return)
      qed (use c hosts Inr in \<open>simp add: s call well_behaved_return\<close>)
    qed
  qed
  then show ?thesis
    using True well_behaved_ConnectFollower [OF assms(1), of net w]
    unfolding client_GetLeader_def by (auto intro!: well_behaved_then well_behaved_return)
qed (use assms in \<open>simp add: client_GetLeader_def well_behaved_return\<close>)


lemma c_then_eq_return:
  assumes "c_then r f = c_return v cl w"
  obtains u cl1 w1 where "r = c_return u cl1 w1" "f u cl1 w1 = c_return v cl w"
proof (cases r)
  case (Inr t)
  obtain x cl1 w1 where t: "t = (x, cl1, w1)" by (cases t)
  with Inr assms that show thesis by (cases x) (auto simp: c_return_def)
qed (use assms in \<open>simp add: c_return_def\<close>)

lemma c_return_eq [simp]: "c_return v cl w = c_return v' cl' w' \<longleftrightarrow> v = v' \<and> cl = cl' \<and> w = w'"
  "c_return v cl w \<noteq> Inl u" "Inl u \<noteq> c_return v cl w"
  "c_return v cl w \<noteq> Inr (Inl e, cl', w')" "Inr (Inl e, cl', w') \<noteq> c_return v cl w"
  by (auto simp: c_return_def)

lemma GetLeader_result:
  assumes "client_GetLeader net cl w = c_return l cl1 w1"
  shows "l = c_leader_id cl1"
  using assms unfolding client_GetLeader_def
  by (auto elim!: c_then_eq_return split: if_splits option.splits prod.splits sum.splits)

lemma meta_call_ok:
  assumes "c_leader_rpc cl \<noteq> None"
  obtains r w' where "meta_call net op path cl w = c_return r cl w'"
      "\<forall>resp. r = Inr resp \<longrightarrow> (\<exists>s. call_meta net s op path w = (Inr resp, w'))"
  | w' where "meta_call net op path cl w = Inr (Inl Other_exception, cl, w')"
proof -
  obtain s x w' where s: "c_leader_rpc cl = Some s" and call: "call_meta net s op path w = (x, w')"
    using assms by fastforce
  show thesis
  proof (cases x)
    case (Inl e)
    with s call that show thesis by (cases e) (auto simp: meta_call_def)
  next
    case (Inr resp)
    with s call that(1) [of "Inr resp" w'] show thesis by (auto simp: meta_call_def)
  qed
qed

lemma meta_call_well_behaved:
  assumes "client_ok cl" and "c_leader_id cl \<noteq> -1" and "c_hosts cl = c_hosts cl0"
  shows "well_behaved cl0 (meta_call net op path cl w)"
proof -
  have "c_leader_rpc cl \<noteq> None" using assms by (simp add: client_ok_def)
  then show ?thesis
    by (cases rule: meta_call_ok [of cl net op path w]) (use assms in \<open>auto intro: well_behaved_return\<close>)
qed

lemma ensure_leader_rpc_id:
  "client_ok cl \<Longrightarrow> c_leader_id cl \<noteq> -1 \<Longrightarrow> ensure_leader_rpc net cl w = c_return () cl w"
  by (auto simp: ensure_leader_rpc_def client_ok_def)

lemma dir_op_well_behaved:
  assumes "client_ok cl" and "leaders_listed net (length (c_hosts cl))"
  shows "well_behaved cl (client_dir_op op net path cl w)"
  unfolding client_dir_op_def
proof (rule well_behaved_then [OF GetLeader_well_behaved [OF assms]])
  fix l cl1 w1
  assume get: "client_GetLeader net cl w = c_return l cl1 w1" and c: "client_ok cl1" "c_hosts cl1 = c_hosts cl"
  show "well_behaved cl (if l = -1 then c_return kNoLeader cl1 w1
     else c_then (ensure_leader_rpc net cl1 w1) (\<lambda>_ cl2 w2.
          c_then (meta_call net op path cl2 w2) (\<lambda>r cl3 w3. c_return (answer r) cl3 w3)))"
    using c GetLeader_result [OF get]
    by (auto simp: ensure_leader_rpc_id intro!: well_behaved_return well_behaved_then [OF meta_call_well_behaved])
qed

lemma CreateFile_well_behaved:
  assumes "client_ok cl" and "leaders_listed net (length (c_hosts cl))"
  shows "well_behaved cl (client_CreateFile net path cl w)"
  unfolding client_CreateFile_def
proof (rule well_behaved_then [OF GetLeader_well_behaved [OF assms]])
  fix l cl1 w1
  assume get: "client_GetLeader net cl w = c_return l cl1 w1" and c: "client_ok cl1" "c_hosts cl1 = c_hosts cl"
  show "well_behaved cl (if l = -1 then c_return kNoLeader cl1 w1
     else c_then (meta_call net kCreate path cl1 w1) (\<lambda>r cl2 w2. c_return (answer r) cl2 w2))"
    using c GetLeader_result [OF get]
    by (auto intro!: well_behaved_return well_behaved_then [OF meta_call_well_behaved])
qed

text \<open>The answer to \<open>DeleteFile\<close>.\<close>

lemma delete_answer_stays:
  assumes "\<And>resp new. r = Inr resp \<Longrightarrow> mr_leader_id resp = Some new \<Longrightarrow> mr_status resp = kOK \<Longrightarrow> new = c_leader_id cl"
  shows "delete_answer net r cl w = c_return (answer r) cl w"
  using assms by (auto simp: delete_answer_def answer_def split: sum.splits option.splits)

lemma delete_answer_follows:
  assumes "client_ok cl" and "listed_id cl new" and "mr_leader_id resp = Some new" "mr_status resp = kOK"
  shows "well_behaved cl (delete_answer net (Inr resp) cl w)"
proof (cases "new = c_leader_id cl")
  case False
  let ?cl1 = "cl\<lparr>c_leader_id := new\<rparr>"
  obtain ok s w' where "reset_leader net (c_hosts cl ! nat (new - 1)) ?cl1 w =
      (ok, ?cl1\<lparr>c_leader_sock := Some s, c_leader_rpc := Some s\<rparr>, w')"
    by (rule reset_leader_cases)
  moreover have "host_at ?cl1 new = Inr (c_hosts cl ! nat (new - 1))"
    using host_at_listed [of ?cl1 new] assms(2) by (simp add: listed_id_def)
  ultimately show ?thesis
    using assms False
    by (simp add: delete_answer_def Let_def) (rule well_behaved_return; simp add: client_ok_def listed_id_def)
qed (use assms in \<open>simp add: delete_answer_def well_behaved_return\<close>)

lemma delete_answer_well_behaved:
  assumes "client_ok cl" and "leaders_listed net (length (c_hosts cl))"
    and "\<forall>resp. r = Inr resp \<longrightarrow> (\<exists>s. call_meta net s op path w = (Inr resp, w'))"
  shows "well_behaved cl (delete_answer net r cl w')"
proof (cases "\<exists>resp new. r = Inr resp \<and> mr_leader_id resp = Some new \<and> mr_status resp = kOK")
  case True
  then obtain resp new where r: "r = Inr resp" "mr_leader_id resp = Some new" "mr_status resp = kOK" by blast
  with assms(2,3) have "listed_id cl new"
    unfolding leaders_listed_def listed_id_def by blast
  with r show ?thesis using delete_answer_follows [OF assms(1)] by simp
next
  case False
  then have "delete_answer net r cl w' = c_return (answer r) cl w'"
    by (intro delete_answer_stays) blast
  with assms(1) show ?thesis by (simp add: well_behaved_return)
qed

lemma well_behaved_hosts: "c_hosts cl' = c_hosts cl \<Longrightarrow> well_behaved cl' r \<longleftrightarrow> well_behaved cl r"
  by (simp add: well_behaved_def)

lemma DeleteFile_well_behaved:
  assumes "client_ok cl" and net: "leaders_listed net (length (c_hosts cl))"
  shows "well_behaved cl (client_DeleteFile net path cl w)"
  unfolding client_DeleteFile_def
proof (rule well_behaved_then [OF GetLeader_well_behaved [OF assms]])
  fix l cl1 w1
  assume get: "client_GetLeader net cl w = c_return l cl1 w1" and c: "client_ok cl1" "c_hosts cl1 = c_hosts cl"
  show "well_behaved cl (if l = -1 then c_return kNoLeader cl1 w1
     else c_then (meta_call net kDelete path cl1 w1) (\<lambda>r cl2 w2. delete_answer net r cl2 w2))"
  proof (cases "l = -1")
    case False
    then have "c_leader_rpc cl1 \<noteq> None" using c GetLeader_result [OF get] by (simp add: client_ok_def)
    then show ?thesis
    proof (cases rule: meta_call_ok [of cl1 net kDelete path w1])
      case (1 r w')
      with False delete_answer_well_behaved [OF c(1) _ 1(2)] net c(2) show ?thesis
        by (simp add: well_behaved_hosts [OF c(2)])
    qed (use False c in \<open>simp add: well_behaved_return\<close>)
  qed (use c in \<open>simp add: well_behaved_return\<close>)
qed

end
