(* ===== verification/Client_Net.thy ===== *)
theory Client_Net
  imports Client_FS
begin

text \<open>
  The client on a network: what it relies on, stated as the locale \<open>transport\<close>, which hosts
  its search for a follower reaches, and clients connected to the handlers of the modelled
  servers.
\<close>

section \<open>The order of the search\<close>

text \<open>The host that the \<open>k\<close>-th attempt of the search tries: the index moves by two.\<close>

definition probe :: "fs_client \<Rightarrow> nat \<Rightarrow> string" where
  "probe cl k = c_hosts cl ! ((nat (c_follower_id cl - 1) + 2 * k) mod length (c_hosts cl))"

lemma probe_0: "client_ok cl \<Longrightarrow> probe cl 0 = c_hosts cl ! nat (c_follower_id cl - 1)"
  by (simp add: probe_def client_ok_def listed_id_def mod_less nat_less_iff)

lemma probe_next:
  assumes "client_ok cl"
  shows "probe (cl\<lparr>c_follower_sock := s, c_follower_rpc := s, c_follower_id := next_follower cl\<rparr>) k = probe cl (Suc k)"
proof -
  define g where "g = nat (c_follower_id cl - 1)"
  have "c_follower_id cl = int g + 1" using assms by (simp add: client_ok_def listed_id_def g_def)
  then have "next_follower cl - 1 = (int g + 2) mod int (length (c_hosts cl))"
    by (simp add: next_follower_def add.commute)
  then have "nat (next_follower cl - 1) = (g + 2) mod length (c_hosts cl)"
    by (metis nat_int of_nat_add of_nat_numeral zmod_int)
  then show ?thesis
    by (simp add: probe_def g_def [symmetric] mod_add_left_eq)
qed

text \<open>With an odd number of hosts the steps of two reach every host.\<close>

lemma steps_of_two:
  assumes "odd n" and "g < n" and "j < (n :: nat)"
  shows "\<exists>k \<le> n. (g + 2 * k) mod n = j"
proof -
  obtain q where n: "n = 2 * q + 1" using assms(1) by (auto elim: oddE)
  define d where "d = j + (n - g)"
  define k where "k = (d * (q + 1)) mod n"
  have "(g + 2 * k) mod n = (g + 2 * (d * (q + 1))) mod n"
    unfolding k_def by (metis mod_add_right_eq mod_mult_right_eq)
  also have "g + 2 * (d * (q + 1)) = g + d + d * n"
    by (simp add: n algebra_simps)
  also have "(g + d + d * n) mod n = (g + d) mod n" by simp
  also have "g + d = j + n" using assms(2) by (simp add: d_def)
  also have "(j + n) mod n = j" using assms(3) by simp
  finally have "(g + 2 * k) mod n = j" .
  moreover have "k \<le> n" using n by (simp add: k_def order_less_imp_le)
  ultimately show ?thesis by blast
qed

lemma probe_all:
  assumes "client_ok cl" and "odd (length (c_hosts cl))" and "h \<in> set (c_hosts cl)"
  shows "\<exists>k \<le> length (c_hosts cl). probe cl k = h"
proof -
  obtain j where "j < length (c_hosts cl)" "c_hosts cl ! j = h" using assms(3) by (auto simp: in_set_conv_nth)
  moreover have "nat (c_follower_id cl - 1) < length (c_hosts cl)"
    using assms(1) by (auto simp: client_ok_def listed_id_def)
  ultimately show ?thesis using steps_of_two [OF assms(2)] unfolding probe_def by metis
qed

lemma probe_in: "client_ok cl \<Longrightarrow> probe cl k \<in> set (c_hosts cl)"
  unfolding probe_def client_ok_def listed_id_def by (intro nth_mem mod_less_divisor) linarith


section \<open>What the client relies on\<close>

text \<open>
  Opening a new socket succeeds exactly when the host accepts connections; a socket is open
  when opening it has succeeded; and the client's work on sockets does not change which hosts
  accept.
\<close>

locale transport =
  fixes net :: "'w network" and up :: "string \<Rightarrow> 'w \<Rightarrow> bool"
  assumes new_up: "new_sock net h p w = (s, w') \<Longrightarrow> up h' w' = up h' w"
    and open_new: "new_sock net h p w = (s, w1) \<Longrightarrow> open_sock net s w1 = (ok, w2) \<Longrightarrow> ok = up h w"
    and open_up: "open_sock net s w = (ok, w') \<Longrightarrow> up h w' = up h w \<and> sock_open net s w' = ok"
    and close_up: "up h (close_sock net s w) = up h w"
begin

lemma ResetRPCClient_spec:
  assumes "ResetRPCClient net port sock h w = (ok, s, w')"
  shows "ok = up h w" "sock_open net s w' = ok" "up h' w' = up h' w"
proof -
  define w0 where "w0 = (case sock of None \<Rightarrow> w | Some s \<Rightarrow> if sock_open net s w then close_sock net s w else w)"
  have w0: "up h' w0 = up h' w" for h' by (auto simp: w0_def close_up split: option.splits)
  obtain w1 where n: "new_sock net h port w0 = (s, w1)" and o: "open_sock net s w1 = (ok, w')"
    using assms by (auto simp: ResetRPCClient_def ResetSock_def w0_def Let_def split: prod.splits)
  show "ok = up h w" using open_new [OF n o] w0 by simp
  show "sock_open net s w' = ok" using open_up [OF o] by simp
  show "up h' w' = up h' w" using open_up [OF o] new_up [OF n] w0 by simp
qed

lemma connect_loop_spec:
  "client_ok cl \<Longrightarrow> retry \<le> length (c_hosts cl) \<Longrightarrow>
   \<exists>cl' w' s. connect_loop net retry cl w = Inr (cl', w') \<and> c_follower_sock cl' = Some s \<and>
     (sock_open net s w' \<longleftrightarrow> (\<exists>k \<le> length (c_hosts cl) - retry. up (probe cl k) w)) \<and>
     (sock_open net s w' \<longrightarrow> up (c_hosts cl ! nat (c_follower_id cl' - 1)) w)"
proof (induction "length (c_hosts cl) - retry" arbitrary: retry cl w)
  case less: 0
  then have r: "retry = length (c_hosts cl)" by simp
  obtain ok s w1 where reset: "reset_follower net (probe cl 0) cl w =
      (ok, cl\<lparr>c_follower_sock := Some s, c_follower_rpc := Some s\<rparr>, w1)"
    and call: "ResetRPCClient net (c_port cl) (c_follower_sock cl) (probe cl 0) w = (ok, s, w1)"
    by (rule reset_follower_cases)
  have "connect_loop net retry cl w = Inr (cl\<lparr>c_follower_sock := Some s, c_follower_rpc := Some s\<rparr>, w1)"
    using reset r less(2) by (subst connect_loop.simps) (simp add: probe_0 client_ok_def host_at_listed)
  then show ?case using ResetRPCClient_spec [OF call] less(2) r by (simp add: probe_0)
next
  case (Suc m)
  obtain ok s w1 where reset: "reset_follower net (probe cl 0) cl w =
      (ok, cl\<lparr>c_follower_sock := Some s, c_follower_rpc := Some s\<rparr>, w1)"
    and call: "ResetRPCClient net (c_port cl) (c_follower_sock cl) (probe cl 0) w = (ok, s, w1)"
    by (rule reset_follower_cases)
  note spec = ResetRPCClient_spec [OF call]
  let ?cl1 = "cl\<lparr>c_follower_sock := Some s, c_follower_rpc := Some s\<rparr>"
  let ?cl2 = "?cl1\<lparr>c_follower_id := next_follower cl\<rparr>"
  have at: "host_at cl (c_follower_id cl) = Inr (probe cl 0)"
    using Suc.prems(1) by (simp add: probe_0 client_ok_def host_at_listed)
  show ?case
  proof (cases ok)
    case True
    then have "connect_loop net retry cl w = Inr (?cl1, w1)"
      using reset at by (subst connect_loop.simps) simp
    then show ?thesis using spec True Suc.prems(1) by (auto simp: probe_0 [symmetric])
  next
    case False
    have r: "retry < length (c_hosts cl)" using Suc.hyps(2) by simp
    then have step: "connect_loop net retry cl w = connect_loop net (Suc retry) ?cl2 w1"
      using reset at False by (subst connect_loop.simps) simp
    have "client_ok ?cl2"
      using Suc.prems(1) next_follower_listed [of cl "c_follower_id cl"] by (simp add: client_ok_def listed_id_def)
    moreover have "m = length (c_hosts ?cl2) - Suc retry" using Suc.hyps(2) by simp
    ultimately obtain cl' w' t where run: "connect_loop net (Suc retry) ?cl2 w1 = Inr (cl', w')"
      "c_follower_sock cl' = Some t"
      "sock_open net t w' \<longleftrightarrow> (\<exists>k \<le> m. up (probe ?cl2 k) w1)"
      "sock_open net t w' \<longrightarrow> up (c_hosts cl ! nat (c_follower_id cl' - 1)) w1"
      using Suc.hyps(1) [of ?cl2 "Suc retry" w1] r by auto
    have "(\<exists>k \<le> m. up (probe ?cl2 k) w1) \<longleftrightarrow> (\<exists>k \<le> m. up (probe cl (Suc k)) w)"
      using spec(3) probe_next [OF Suc.prems(1), of "Some s"] by simp
    also have "\<dots> \<longleftrightarrow> (\<exists>k \<le> Suc m. up (probe cl k) w)"
      using spec(1) False by (metis Suc_le_mono not0_implies_Suc)
    finally show ?thesis
      using run step spec(3) Suc.hyps(2) by (metis)
  qed
qed

end



section \<open>Clients of the modelled servers\<close>

text \<open>
  The world of \<open>direct_net\<close>: sockets with their host, and the servers that run, each with its
  consensus state and its name space.  A call on an open socket runs the handler on the
  default response; a handler with undefined behaviour takes its server down.
\<close>

record world =
  w_socks :: "(string \<times> bool) list"
  w_servers :: "string \<rightharpoonup> raft \<times> fs_namespace"

definition direct_new :: "string \<Rightarrow> int \<Rightarrow> world \<Rightarrow> nat \<times> world" where
  "direct_new h p w = (length (w_socks w), w\<lparr>w_socks := w_socks w @ [(h, False)]\<rparr>)"

definition direct_is_open :: "nat \<Rightarrow> world \<Rightarrow> bool" where
  "direct_is_open s w \<longleftrightarrow> s < length (w_socks w) \<and> snd (w_socks w ! s)"

definition direct_host :: "nat \<Rightarrow> world \<Rightarrow> string" where
  "direct_host s w = (if s < length (w_socks w) then fst (w_socks w ! s) else [])"

definition direct_set :: "bool \<Rightarrow> nat \<Rightarrow> world \<Rightarrow> world" where
  "direct_set b s w = w\<lparr>w_socks := (w_socks w)[s := (direct_host s w, b)]\<rparr>"

definition direct_open :: "nat \<Rightarrow> world \<Rightarrow> bool \<times> world" where
  "direct_open s w =
     (let ok = (s < length (w_socks w) \<and> w_servers w (direct_host s w) \<noteq> None) in (ok, direct_set ok s w))"

definition direct_call ::
  "(raft \<times> fs_namespace \<Rightarrow> ((raft \<times> fs_namespace) \<times> 'r) outcome) \<Rightarrow> nat \<Rightarrow> world \<Rightarrow> (thrown + 'r) \<times> world"
where
  "direct_call handler s w =
     (if \<not> direct_is_open s w then (Inl Transport_exception, w)
      else case w_servers w (direct_host s w) of
             None \<Rightarrow> (Inl Transport_exception, w)
           | Some srv \<Rightarrow>
               (case handler srv of
                  Inl _ \<Rightarrow> (Inl Transport_exception, w\<lparr>w_servers := (w_servers w)(direct_host s w := None)\<rparr>)
                | Inr (srv', resp) \<Rightarrow> (Inr resp, w\<lparr>w_servers := (w_servers w)(direct_host s w \<mapsto> srv')\<rparr>)))"

definition serve_leader :: "raft \<times> fs_namespace \<Rightarrow> ((raft \<times> fs_namespace) \<times> leader_response) outcome" where
  "serve_leader srv = Inr (srv, rpc_GetLeader (fst srv) default_leader_response)"

definition serve_meta ::
  "(raft \<Rightarrow> raft list) \<Rightarrow> meta_op \<Rightarrow> string \<Rightarrow> raft \<times> fs_namespace \<Rightarrow> ((raft \<times> fs_namespace) \<times> meta_response) outcome"
where
  "serve_meta waiting op path srv =
     and_then (meta_handler op path waiting (fst srv) default_meta_response) (\<lambda>(st', resp). Inr ((st', snd srv), resp))"

definition serve_info :: "string \<Rightarrow> raft \<times> fs_namespace \<Rightarrow> ((raft \<times> fs_namespace) \<times> info_response) outcome" where
  "serve_info file srv = and_then (rpc_GetFileInfo file (snd srv) default_info_response) (\<lambda>resp. Inr (srv, resp))"

definition serve_list :: "string \<Rightarrow> raft \<times> fs_namespace \<Rightarrow> ((raft \<times> fs_namespace) \<times> list_response) outcome" where
  "serve_list dir srv = and_then (rpc_ListDir dir (snd srv) default_list_response) (\<lambda>resp. Inr (srv, resp))"

definition direct_net :: "(raft \<Rightarrow> raft list) \<Rightarrow> world network" where
  "direct_net waiting =
     \<lparr>new_sock = direct_new, open_sock = direct_open, close_sock = direct_set False, sock_open = direct_is_open,
      sock_host = direct_host, call_leader = direct_call serve_leader,
      call_meta = (\<lambda>s op path. direct_call (serve_meta waiting op path) s),
      call_info = (\<lambda>s file. direct_call (serve_info file) s), call_list = (\<lambda>s dir. direct_call (serve_list dir) s)\<rparr>"

definition accepts :: "string \<Rightarrow> world \<Rightarrow> bool" where
  "accepts h w \<longleftrightarrow> w_servers w h \<noteq> None"

interpretation direct: transport "direct_net waiting" accepts for waiting
proof (unfold_locales, goal_cases)
  case (1 h p w s w' h')
  then show ?case by (auto simp: direct_net_def direct_new_def accepts_def)
next
  case (2 h p w s w1 ok w2)
  then show ?case
    by (auto simp: direct_net_def direct_new_def direct_open_def direct_host_def accepts_def Let_def)
next
  case (3 s w ok w' h)
  then show ?case
    by (auto simp: direct_net_def direct_open_def direct_set_def direct_is_open_def accepts_def Let_def)
next
  case (4 h s w)
  show ?case by (simp add: direct_net_def direct_set_def accepts_def)
qed



section \<open>Properties\<close>

text \<open>
  C36. The changes of a client are never undefined, as long as the servers name listed hosts:
  from a state in which the client knows no leader or has an RPC client for a listed one, each
  of the four operations returns or throws, and leaves such a state.
\<close>

theorem client_never_undefined:
  assumes "client_ok cl" and "leaders_listed net (length (c_hosts cl))"
    and "run \<in> {client_Mkdir, client_Rmdir, client_CreateFile, client_DeleteFile}"
  shows "\<exists>x cl' w'. run net path cl w = Inr (x, cl', w') \<and> client_ok cl' \<and> c_hosts cl' = c_hosts cl"
  using assms dir_op_well_behaved [OF assms(1,2)] CreateFile_well_behaved [OF assms(1,2)]
    DeleteFile_well_behaved [OF assms(1,2)]
  by (auto simp: client_Mkdir_def client_Rmdir_def well_behaved_def)

definition one_leader_net :: "unit network" where
  "one_leader_net =
     \<lparr>new_sock = (\<lambda>h p w. (0, w)), open_sock = (\<lambda>s w. (True, w)), close_sock = (\<lambda>s w. w), sock_open = (\<lambda>s w. True),
      sock_host = (\<lambda>s w. ''a''), call_leader = (\<lambda>s w. (Inr \<lparr>lr_status = kOK, lr_leader_id = 1\<rparr>, w)),
      call_meta = (\<lambda>s op path w. (Inr default_meta_response, w)),
      call_info = (\<lambda>s file w. (Inl Transport_exception, w)), call_list = (\<lambda>s dir w. (Inl Transport_exception, w))\<rparr>"

definition sample_client :: fs_client where
  "sample_client = \<lparr>c_port = 9090, c_leader_id = -1, c_follower_id = 1, c_hosts = [''a'', ''b''],
     c_leader_sock = None, c_follower_sock = Some 0, c_leader_rpc = None, c_follower_rpc = Some 0\<rparr>"

lemma sample_client_ok: "client_ok sample_client" "length (c_hosts sample_client) = 2"
  by (simp_all add: sample_client_def client_ok_def listed_id_def)

theorem client_never_undefined_witness:
  "\<exists>x cl' w'. client_CreateFile one_leader_net ''/f'' sample_client () = Inr (x, cl', w') \<and> client_ok cl'"
proof -
  have "leaders_listed one_leader_net (length (c_hosts sample_client))"
    by (simp add: leaders_listed_def one_leader_net_def default_meta_response_def sample_client_ok)
  from client_never_undefined [OF sample_client_ok(1) this, of client_CreateFile "''/f''" "()"]
  show ?thesis by auto
qed

text \<open>
  C37. The search for a follower ends after at most one attempt more than there are hosts and
  is exact about the hosts it tries: it connects exactly when one of them accepts, and then to
  one that accepts.  With an odd number of hosts it tries them all.
\<close>

theorem connect_follower_outcome:
  assumes "transport net up" and "client_ok cl"
    and "\<not> (\<exists>s. c_follower_sock cl = Some s \<and> sock_open net s w)"
  shows "\<exists>b cl' w'. ConnectFollower net cl w = c_return b cl' w' \<and>
    (b \<longleftrightarrow> (\<exists>k \<le> length (c_hosts cl). up (probe cl k) w)) \<and>
    (b \<longrightarrow> up (c_hosts cl ! nat (c_follower_id cl' - 1)) w) \<and>
    (odd (length (c_hosts cl)) \<longrightarrow> (b \<longleftrightarrow> (\<exists>h \<in> set (c_hosts cl). up h w)))"
proof -
  obtain cl' w' s where run: "connect_loop net 0 cl w = Inr (cl', w')" "c_follower_sock cl' = Some s"
    and b: "sock_open net s w' \<longleftrightarrow> (\<exists>k \<le> length (c_hosts cl). up (probe cl k) w)"
      "sock_open net s w' \<longrightarrow> up (c_hosts cl ! nat (c_follower_id cl' - 1)) w"
    using transport.connect_loop_spec [OF assms(1,2), of 0 w] by auto
  have "ConnectFollower net cl w = c_return (sock_open net s w') cl' w'"
    using assms(3) run by (auto simp: ConnectFollower_def split: option.splits)
  moreover have "(\<exists>k \<le> length (c_hosts cl). up (probe cl k) w) \<longleftrightarrow> (\<exists>h \<in> set (c_hosts cl). up h w)"
    if "odd (length (c_hosts cl))"
    using probe_all [OF assms(2) that] probe_in [OF assms(2)] by blast
  ultimately show ?thesis using b by blast
qed

text \<open>
  With an even number the search misses hosts: of two hosts it tries the first one again and
  again, although the second one accepts.
\<close>

definition half_down :: world where
  "half_down = \<lparr>w_socks = [], w_servers = (\<lambda>h. if h = ''b'' then Some (sample_server, new_FSNamespace 0) else None)\<rparr>"

theorem connect_follower_outcome_witness:
  "\<exists>cl' w'. ConnectFollower (direct_net (\<lambda>st. [])) sample_client half_down = c_return False cl' w' \<and> accepts ''b'' half_down"
proof -
  have "probe sample_client k = ''a''" for k
    by (simp add: probe_def sample_client_def flip: numeral_2_eq_2)
  moreover have "\<not> sock_open (direct_net (\<lambda>st. [])) s half_down" for s
    by (simp add: direct_net_def direct_is_open_def half_down_def)
  moreover have "\<not> accepts ''a'' half_down" "accepts ''b'' half_down"
    by (simp_all add: accepts_def half_down_def)
  ultimately show ?thesis
    using connect_follower_outcome [OF direct.transport_axioms sample_client_ok(1), of "\<lambda>st. []" half_down] by auto
qed

text \<open>
  A client that asks a server without a leader: the handler leaves the status at its
  default, \<open>kOK\<close>, with leader -1, and the client reads \<open>hosts[-2]\<close>.  So every operation of a
  client that knows no leader is undefined on a follower that knows none.
\<close>

theorem no_leader_undefined:
  assumes "client_ok cl" and "c_leader_id cl = -1" and "c_follower_sock cl = Some s"
    and "direct_is_open s w" and "w_servers w (direct_host s w) = Some (st, ns)" and "GetLeader st = -1"
    and "run \<in> {client_Mkdir, client_Rmdir, client_CreateFile, client_DeleteFile}"
  shows "run (direct_net waiting) path cl w = Inl Index_out_of_range"
proof -
  have "c_follower_rpc cl = Some s" using assms(1,3) by (simp add: client_ok_def)
  then have "client_GetLeader (direct_net waiting) cl w = Inl Index_out_of_range"
    using assms(2-6)
    by (simp add: client_GetLeader_def ConnectFollower_def direct_net_def direct_call_def serve_leader_def
        rpc_GetLeader_def default_leader_response_def adopt_leader_def host_at_def Let_def)
  then show ?thesis
    using assms(7)
    by (auto simp: client_Mkdir_def client_Rmdir_def client_dir_op_def client_CreateFile_def client_DeleteFile_def)
qed

theorem no_leader_undefined_witness:
  "client_Mkdir (direct_net (\<lambda>st. [])) ''/d'' sample_client
     \<lparr>w_socks = [(''a'', True)], w_servers = (\<lambda>h. Some (sample_server, new_FSNamespace 0))\<rparr> = Inl Index_out_of_range"
proof -
  have "GetLeader sample_server = -1" by (simp add: GetLeader_def sample_server_def new_raft_fields)
  then show ?thesis
    by (intro no_leader_undefined [OF sample_client_ok(1), of 0 _ sample_server "new_FSNamespace 0"])
      (simp_all add: sample_client_def direct_is_open_def direct_host_def)
qed

text \<open>A change by a client that knows its leader, on the modelled servers.\<close>

definition changes :: "(meta_op \<times> (world network \<Rightarrow> string \<Rightarrow> fs_client \<Rightarrow> world \<Rightarrow> (status, world) call_result)) set" where
  "changes = {(kMkdir, client_Mkdir), (kRmdir, client_Rmdir), (kCreate, client_CreateFile), (kDelete, client_DeleteFile)}"

lemma direct_meta_leader:
  assumes "call_meta (direct_net waiting) s op path w = (Inr resp, w')" and "mr_status resp = kOK"
  shows "mr_leader_id resp = None"
  using assms by (auto simp: direct_net_def direct_call_def serve_meta_def meta_handler_def default_meta_response_def
      and_then_eq_Inr split: if_splits option.splits sum.splits prod.splits)

lemma direct_change:
  assumes "client_ok cl" and "c_leader_id cl \<noteq> -1" and "(op, run) \<in> changes"
  shows "run (direct_net waiting) path cl w =
    c_then (meta_call (direct_net waiting) op path cl w) (\<lambda>r. c_return (answer r))"
proof -
  have get: "client_GetLeader (direct_net waiting) cl w = c_return (c_leader_id cl) cl w"
    using assms(2) by (simp add: client_GetLeader_def)
  have "c_leader_rpc cl \<noteq> None" using assms(1,2) by (simp add: client_ok_def)
  then have "c_then (meta_call (direct_net waiting) kDelete path cl w) (delete_answer (direct_net waiting)) =
      c_then (meta_call (direct_net waiting) kDelete path cl w) (\<lambda>r. c_return (answer r))"
  proof (cases rule: meta_call_ok [of cl "direct_net waiting" kDelete path w])
    case (1 r w')
    have "delete_answer (direct_net waiting) r cl w' = c_return (answer r) cl w'"
      using 1(2) direct_meta_leader by (intro delete_answer_stays) fastforce
    with 1 show ?thesis by simp
  qed simp
  then show ?thesis
    using assms(2,3) get
    by (auto simp: changes_def client_Mkdir_def client_Rmdir_def client_dir_op_def client_CreateFile_def
        client_DeleteFile_def ensure_leader_rpc_id [OF assms(1,2)])
qed

text \<open>
  A client never leaves a leader: once it knows one, no answer of the servers to a change
  makes it forget it or follow another, \<open>kNotLeader\<close> with the new leader's id included.
\<close>

theorem stale_leader_kept:
  assumes "client_ok cl" and "c_leader_id cl \<noteq> -1" and "(op, run) \<in> changes"
    and "run (direct_net waiting) path cl w = Inr (x, cl', w')"
  shows "cl' = cl"
proof -
  have "c_leader_rpc cl \<noteq> None" using assms(1,2) by (simp add: client_ok_def)
  then show ?thesis
    using assms(4) direct_change [OF assms(1-3), of waiting path w]
    by (cases rule: meta_call_ok [of cl "direct_net waiting" op path w]) (auto simp: c_return_def)
qed

definition follower_client :: fs_client where
  "follower_client = sample_client\<lparr>c_leader_id := 2, c_leader_sock := Some 1, c_leader_rpc := Some 1\<rparr>"

definition two_servers :: "raft \<Rightarrow> world" where
  "two_servers st = \<lparr>w_socks = [(''a'', True), (''b'', True)], w_servers = (\<lambda>h. Some (st, new_FSNamespace 0))\<rparr>"

lemma follower_client_ok: "client_ok follower_client" "c_leader_id follower_client \<noteq> -1"
  by (simp_all add: follower_client_def sample_client_def client_ok_def listed_id_def)

theorem stale_leader_kept_witness:
  "\<exists>w'. client_Mkdir (direct_net (\<lambda>st. [])) ''/d'' follower_client (two_servers sample_server) =
     c_return kNotLeader follower_client w'"
proof -
  have "meta_call (direct_net (\<lambda>st. [])) kMkdir ''/d'' follower_client (two_servers sample_server) =
      c_return (Inr \<lparr>mr_status = kNotLeader, mr_leader_id = Some (-1)\<rparr>) follower_client
        (two_servers sample_server\<lparr>w_servers := (w_servers (two_servers sample_server))
          (''b'' \<mapsto> (sample_server, new_FSNamespace 0))\<rparr>)"
    by (simp add: meta_call_def follower_client_def direct_net_def direct_call_def direct_is_open_def direct_host_def
        two_servers_def serve_meta_def meta_handler_def ValidatePath_def IsLeader_def sample_server_def new_raft_fields
        default_meta_response_def GetLeader_def)
  then have run: "client_Mkdir (direct_net (\<lambda>st. [])) ''/d'' follower_client (two_servers sample_server) =
      c_return kNotLeader follower_client (two_servers sample_server\<lparr>w_servers := (w_servers (two_servers sample_server))
          (''b'' \<mapsto> (sample_server, new_FSNamespace 0))\<rparr>)"
    using direct_change [OF follower_client_ok, of kMkdir client_Mkdir "\<lambda>st. []" "''/d''" "two_servers sample_server"]
    by (simp add: changes_def answer_def)
  moreover obtain cl' w' where "client_Mkdir (direct_net (\<lambda>st. [])) ''/d'' follower_client (two_servers sample_server) =
      Inr (Inr kNotLeader, cl', w')"
    using run by (simp add: c_return_def)
  moreover from this have "cl' = follower_client"
    by (intro stale_leader_kept [OF follower_client_ok, of kMkdir client_Mkdir]) (simp add: changes_def)
  ultimately show ?thesis by (auto simp: c_return_def)
qed

text \<open>
  A change of a client is the handler's work at its leader: with an open socket to a
  running server, the operation returns the status of the handler's response and leaves the
  server in the handler's state; nothing else in the world moves, and the client not at all.
\<close>

theorem change_reaches_leader:
  assumes "client_ok cl" and "c_leader_id cl \<noteq> -1" and "(op, run) \<in> changes" and "rpc_meta op = Some handler"
    and "c_leader_rpc cl = Some s" "direct_is_open s w" "w_servers w (direct_host s w) = Some (st, ns)"
    and "handler path waiting st default_meta_response = Inr (st', resp)"
  shows "run (direct_net waiting) path cl w =
    c_return (mr_status resp) cl (w\<lparr>w_servers := (w_servers w)(direct_host s w \<mapsto> (st', ns))\<rparr>)"
proof -
  have "meta_handler op path waiting st default_meta_response = Inr (st', resp)"
    using assms(8) rpc_meta_handler [OF assms(4)] by simp
  then have "meta_call (direct_net waiting) op path cl w =
      c_return (Inr resp) cl (w\<lparr>w_servers := (w_servers w)(direct_host s w \<mapsto> (st', ns))\<rparr>)"
    using assms(5-7) by (simp add: meta_call_def direct_net_def direct_call_def serve_meta_def)
  then show ?thesis by (simp add: direct_change [OF assms(1-3)] answer_def)
qed

theorem change_reaches_leader_witness:
  "\<exists>w'. client_Rmdir (direct_net (\<lambda>s. [])) ''/d'' follower_client (two_servers sample_waiting) =
      c_return kTimeout follower_client w' \<and>
    w_servers w' ''b'' = Some (sample_waiting\<lparr>raft_log := sample_log\<lparr>memory_log := memory_log sample_log @
        [\<lparr>e_term = 2, e_index = 4, e_op = kRmdir, e_value = ''/d''\<rparr>]\<rparr>\<rparr>, new_FSNamespace 0)"
proof -
  define st' where "st' = sample_waiting\<lparr>raft_log := sample_log\<lparr>memory_log := memory_log sample_log @
        [\<lparr>e_term = 2, e_index = 4, e_op = kRmdir, e_value = ''/d''\<rparr>]\<rparr>\<rparr>"
  have "leader_id sample_waiting \<noteq> -1"
    using sample_waiting_ok by (auto simp: raft_ok_def sample_waiting_def)
  moreover have "current_role sample_waiting = kLeader" "current_term sample_waiting = 2" "raft_log sample_waiting = sample_log"
    "length (memory_log sample_log) = 3" "last_commited_index sample_log = 1"
    by (simp_all add: sample_waiting_def sample_log_def)
  ultimately have "rpc_Rmdir ''/d'' (\<lambda>s. []) sample_waiting default_meta_response =
      Inr (st', \<lparr>mr_status = kTimeout, mr_leader_id = None\<rparr>)"
    by (simp add: rpc_Rmdir_def meta_handler_def ValidatePath_def IsLeader_def OnMetaOperation_def meta_append_def
        Append_entry_def meta_entry_def GetLastCommitIndex_def default_meta_response_def Let_def st'_def)
  from change_reaches_leader [OF follower_client_ok, of kRmdir client_Rmdir rpc_Rmdir 1 "two_servers sample_waiting"
      sample_waiting "new_FSNamespace 0", OF _ _ _ _ _ this]
  show ?thesis
    by (simp add: changes_def follower_client_def two_servers_def direct_is_open_def direct_host_def st'_def)
qed

end
