(* ===== verification/Client_Reads.thy ===== *)
theory Client_Reads
  imports Client_Net FS_Properties
begin

text \<open>
  What a client reads: the calls of \<open>ListDir\<close> and \<open>GetFileInfo\<close> from the client through the
  handler to the name space of its follower, over the view of that name space.
\<close>

lemma direct_follower:
  assumes "client_ok cl" and "c_follower_sock cl = Some s" and "direct_is_open s w"
  shows "ConnectFollower (direct_net waiting) cl w = c_return True cl w" "c_follower_rpc cl = Some s"
  using assms by (simp_all add: ConnectFollower_def direct_net_def client_ok_def)

text \<open>The call of a reading handler on a running server.\<close>

lemma direct_read:
  assumes "direct_is_open s w" and srv: "w_servers w (direct_host s w) = Some srv"
  shows "handler srv = Inr (srv, resp) \<Longrightarrow> direct_call handler s w = (Inr resp, w)"
    and "handler srv = Inl u \<Longrightarrow> direct_call handler s w =
      (Inl Transport_exception, w\<lparr>w_servers := (w_servers w)(direct_host s w := None)\<rparr>)"
proof -
  have "(w_servers w)(direct_host s w \<mapsto> srv) = w_servers w" using srv by auto
  with assms show "handler srv = Inr (srv, resp) \<Longrightarrow> direct_call handler s w = (Inr resp, w)"
    by (simp add: direct_call_def)
qed (use assms in \<open>simp add: direct_call_def\<close>)

lemma list_call:
  assumes c: "client_ok cl" "c_follower_sock cl = Some s" "direct_is_open s w"
    and srv: "w_servers w (direct_host s w) = Some (st, ns)" and "ValidatePath dir"
  shows "ListDir dir ns = Inr xs \<Longrightarrow> client_ListDir (direct_net waiting) dir cl w = c_return (kOK, Some xs) cl w"
    and "ListDir dir ns = Inl u \<Longrightarrow> client_ListDir (direct_net waiting) dir cl w =
      c_return (kCommError, None) cl (w\<lparr>w_servers := (w_servers w)(direct_host s w := None)\<rparr>)"
proof -
  note call = direct_read [OF c(3) srv, of "serve_list dir"]
  show "client_ListDir (direct_net waiting) dir cl w = c_return (kOK, Some xs) cl w" if "ListDir dir ns = Inr xs"
    using that assms(5) call(1) by (simp add: client_ListDir_def direct_follower [OF c] serve_list_def rpc_ListDir_def)
      (simp add: direct_net_def Let_def)
  show "client_ListDir (direct_net waiting) dir cl w =
      c_return (kCommError, None) cl (w\<lparr>w_servers := (w_servers w)(direct_host s w := None)\<rparr>)" if "ListDir dir ns = Inl u"
    using that assms(5) call(2) by (simp add: client_ListDir_def direct_follower [OF c] serve_list_def rpc_ListDir_def)
      (simp add: direct_net_def Let_def)
qed

lemma info_call:
  assumes c: "client_ok cl" "c_follower_sock cl = Some s" "direct_is_open s w"
    and srv: "w_servers w (direct_host s w) = Some (st, ns)" and "ValidatePath file"
  shows "GetFileInfo file ns = Inr (found, info) \<Longrightarrow> client_GetFileInfo (direct_net waiting) file cl w =
      c_return (if found then (kOK, Some (case info of None \<Rightarrow> default_file_info | Some i \<Rightarrow> i)) else (kNotFound, None)) cl w"
    and "GetFileInfo file ns = Inl u \<Longrightarrow> client_GetFileInfo (direct_net waiting) file cl w =
      c_return (kCommError, None) cl (w\<lparr>w_servers := (w_servers w)(direct_host s w := None)\<rparr>)"
proof -
  note call = direct_read [OF c(3) srv, of "serve_info file"]
  show "client_GetFileInfo (direct_net waiting) file cl w =
      c_return (if found then (kOK, Some (case info of None \<Rightarrow> default_file_info | Some i \<Rightarrow> i)) else (kNotFound, None)) cl w"
    if "GetFileInfo file ns = Inr (found, info)"
    using that assms(5) call(1)
    by (simp add: client_GetFileInfo_def direct_follower [OF c] serve_info_def rpc_GetFileInfo_def Let_def)
      (auto simp: direct_net_def default_info_response_def split: option.splits)
  show "client_GetFileInfo (direct_net waiting) file cl w =
      c_return (kCommError, None) cl (w\<lparr>w_servers := (w_servers w)(direct_host s w := None)\<rparr>)"
    if "GetFileInfo file ns = Inl u"
    using that assms(5) call(2)
    by (simp add: client_GetFileInfo_def direct_follower [OF c] serve_info_def rpc_GetFileInfo_def)
      (simp add: direct_net_def)
qed


section \<open>Properties\<close>

text \<open>
  A client that lists a valid path on its follower gets the names of the directory's
  children, each once, as the follower's tree has them.  It gets the empty list with status
  \<open>kOK\<close> when there is no such directory.  When the path names a file, the handler casts it to a
  directory, and the client sees its server go.
\<close>

theorem client_list_outcome:
  assumes "client_ok cl" "c_follower_sock cl = Some s" "direct_is_open s w"
    and "w_servers w (direct_host s w) = Some (st, ns)" and "fs_wf ns" and "ValidatePath dir"
  shows "case view ns (listed dir) of
      Some V_dir \<Rightarrow> \<exists>xs. client_ListDir (direct_net waiting) dir cl w = c_return (kOK, Some xs) cl w \<and>
        distinct xs \<and> set xs = {x. view ns (listed dir @ [x]) \<noteq> None}
    | Some V_file \<Rightarrow> client_ListDir (direct_net waiting) dir cl w =
        (if last (SplitPath dir) = [] then c_return (kOK, Some []) cl w
         else c_return (kCommError, None) cl (w\<lparr>w_servers := (w_servers w)(direct_host s w := None)\<rparr>))
    | None \<Rightarrow> client_ListDir (direct_net waiting) dir cl w = c_return (kOK, Some []) cl w"
proof -
  have "SplitPath dir \<noteq> []" using valid_path_split [OF assms(6)] by simp
  note spec = ListDir_spec [OF assms(5) this] and call = list_call [OF assms(1-4,6)]
  show ?thesis
  proof (cases "view ns (listed dir)")
    case None
    with spec call(1) show ?thesis by simp
  next
    case (Some k)
    then show ?thesis
      using spec call by (cases k) (auto split: if_splits)
  qed
qed

definition sample_world :: "fs_namespace \<Rightarrow> world" where
  "sample_world ns = \<lparr>w_socks = [(''a'', True)], w_servers = (\<lambda>h. Some (sample_server, ns))\<rparr>"

lemma sample_world_call:
  "c_follower_sock sample_client = Some 0" "direct_is_open 0 (sample_world ns)"
  "w_servers (sample_world ns) (direct_host 0 (sample_world ns)) = Some (sample_server, ns)"
  by (simp_all add: sample_client_def direct_is_open_def sample_world_def)

theorem client_list_outcome_witness:
  "\<exists>ns xs. view ns = sample_view \<and>
     client_ListDir (direct_net (\<lambda>st. [])) ''/'' sample_client (sample_world ns) =
       c_return (kOK, Some xs) sample_client (sample_world ns) \<and> set xs = {''a'', ''f''}"
proof -
  obtain ns where ns: "fs_wf ns" "view ns = sample_view" using sample_exists by blast
  have "ValidatePath ''/''" and l: "listed ''/'' = []" by (simp_all add: ValidatePath_def listed_def sample_paths)
  note h = client_list_outcome [OF sample_client_ok(1) sample_world_call ns(1) this(1), of "\<lambda>st. []"]
  have "{x. view ns [x] \<noteq> None} = {''a'', ''f''}" by (auto simp: ns sample_view_def)
  moreover have "view ns [] = Some V_dir" by (simp add: ns sample_view_def)
  ultimately show ?thesis using h ns(2) unfolding l by auto
qed

text \<open>
  A client that asks for a file on its follower gets the file's path back; a missing file in
  an existing directory is \<open>kNotFound\<close>.  When the parent is missing the answer is \<open>kOK\<close> with the
  default info, and when the path names a directory, the handler casts it to a file, and the
  client sees its server go.
\<close>

theorem client_info_outcome:
  assumes "client_ok cl" "c_follower_sock cl = Some s" "direct_is_open s w"
    and "w_servers w (direct_host s w) = Some (st, ns)" and "fs_wf ns" and "ValidatePath file"
  shows "if view ns (butlast (SplitPath file)) \<noteq> Some V_dir \<or> last (SplitPath file) = []
    then client_GetFileInfo (direct_net waiting) file cl w = c_return (kOK, Some default_file_info) cl w
    else case view ns (SplitPath file) of
      None \<Rightarrow> client_GetFileInfo (direct_net waiting) file cl w = c_return (kNotFound, None) cl w
    | Some V_dir \<Rightarrow> client_GetFileInfo (direct_net waiting) file cl w =
        c_return (kCommError, None) cl (w\<lparr>w_servers := (w_servers w)(direct_host s w := None)\<rparr>)
    | Some V_file \<Rightarrow> \<exists>info. client_GetFileInfo (direct_net waiting) file cl w = c_return (kOK, Some info) cl w \<and>
        fi_path info = file"
proof -
  note spec = GetFileInfo_spec [OF assms(5,6)] and call = info_call [OF assms(1-4,6)]
  show ?thesis
  proof (cases "view ns (butlast (SplitPath file)) \<noteq> Some V_dir \<or> last (SplitPath file) = []")
    case True
    with spec call(1) show ?thesis by auto
  next
    case False
    with spec have spec': "case view ns (SplitPath file) of
        None \<Rightarrow> GetFileInfo file ns = Inr (False, None)
      | Some V_dir \<Rightarrow> GetFileInfo file ns = Inl Bad_cast
      | Some V_file \<Rightarrow> \<exists>info. GetFileInfo file ns = Inr (True, Some info) \<and> fi_path info = file"
      by (auto split: option.splits node_view.splits)
    have "case view ns (SplitPath file) of
        None \<Rightarrow> client_GetFileInfo (direct_net waiting) file cl w = c_return (kNotFound, None) cl w
      | Some V_dir \<Rightarrow> client_GetFileInfo (direct_net waiting) file cl w =
          c_return (kCommError, None) cl (w\<lparr>w_servers := (w_servers w)(direct_host s w := None)\<rparr>)
      | Some V_file \<Rightarrow> \<exists>info. client_GetFileInfo (direct_net waiting) file cl w = c_return (kOK, Some info) cl w \<and>
          fi_path info = file"
      using spec' call by (cases "view ns (SplitPath file)") (force split: node_view.splits)+
    with False show ?thesis by simp
  qed
qed

theorem client_info_outcome_witness:
  "\<exists>ns info. view ns = sample_view \<and>
     client_GetFileInfo (direct_net (\<lambda>st. [])) ''/f'' sample_client (sample_world ns) =
       c_return (kOK, Some info) sample_client (sample_world ns) \<and> fi_path info = ''/f''"
proof -
  obtain ns where ns: "fs_wf ns" "view ns = sample_view" using sample_exists by blast
  have "ValidatePath ''/f''" by (simp add: ValidatePath_def)
  from client_info_outcome [OF sample_client_ok(1) sample_world_call ns(1) this, of "\<lambda>st. []"]
  show ?thesis using ns by (auto simp: sample_paths sample_view_def)
qed

end
