(* ===== verification/Perf_Test.thy ===== *)
theory Perf_Test
  imports Client_Net
begin

text \<open>
  The benchmark driver, \<open>client/PerfTest\<close>: it draws commands at random until each kind has
  used up its share of the total, runs them through an \<open>FSClient\<close> on a prepared tree, and
  remembers for every path whether it expects it to exist.

  \<open>rnd k\<close> is the \<open>k\<close>-th value of \<open>rand()\<close> since the last \<open>srand\<close>, \<open>scale\<close> is the share of a ratio, which the code
  computes in floating point, and \<open>now w\<close> is what the clock shows in world \<open>w\<close>; durations are
  in ticks of the clock.
\<close>

section \<open>State\<close>

datatype perf_cmd = perf_mkdir | perf_rmdir | perf_listdir | perf_getfinfo | perf_createfile | perf_delete

definition all_cmds :: "perf_cmd list" where
  "all_cmds = [perf_mkdir, perf_rmdir, perf_listdir, perf_getfinfo, perf_createfile, perf_delete]"

record perf_params =
  pp_filename :: string
  pp_cmd_ratio :: "perf_cmd \<Rightarrow> int"
  pp_max_cmds :: int

record perf_node =
  pn_parent :: "string option"
  pn_fullname :: string
  pn_exists :: bool
  pn_should_exist :: bool

record perf_rec =
  pr_cmd :: perf_cmd
  pr_node :: string
  pr_err_no :: status

record perf_test =
  pt_limit :: "perf_cmd \<Rightarrow> int"
  pt_count :: "perf_cmd \<Rightarrow> int"
  pt_total :: int
  pt_executed :: int
  pt_test_tree :: "perf_node list"
  pt_read_tree :: "perf_node list"
  pt_write_tree :: "perf_node list"
  pt_records :: "perf_rec list"
  pt_read_count :: int
  pt_write_count :: int
  pt_correct_write_count :: int
  pt_read_latency :: int
  pt_write_latency :: int
  pt_correct_latency :: int

text \<open>
  The constructor; \<open>None\<close> is a failed assertion, that the file of the results is open or that on
  the shares; \<open>opens\<close> says which files can be opened.  It does not set the three totals of
  latencies, and a duration has no initial value: \<open>mem\<close> is what their memory holds.  At its end
  it seeds the generator of the process with the time; the seed is part of the result.
\<close>

definition new_PerfTest ::
  "(string \<Rightarrow> bool) \<Rightarrow> (int \<Rightarrow> int \<Rightarrow> int) \<Rightarrow> int \<times> int \<times> int \<Rightarrow> perf_params \<Rightarrow> nat \<Rightarrow> (perf_test \<times> nat) option"
where
  "new_PerfTest opens scale mem paras time =
     (if \<not> opens (pp_filename paras) then None
      else
        let limit = (\<lambda>c. scale (pp_max_cmds paras) (pp_cmd_ratio paras c))
        in if sum_list (map limit all_cmds) \<le> pp_max_cmds paras
           then Some (\<lparr>pt_limit = limit, pt_count = (\<lambda>_. 0), pt_total = pp_max_cmds paras, pt_executed = 0,
                    pt_test_tree = [], pt_read_tree = [], pt_write_tree = [], pt_records = [],
                    pt_read_count = 0, pt_write_count = 0, pt_correct_write_count = 0,
                    pt_read_latency = fst mem, pt_write_latency = fst (snd mem), pt_correct_latency = snd (snd mem)\<rparr>,
                  time)
           else None)"

definition new_node_of :: "string option \<Rightarrow> string \<Rightarrow> perf_node" where
  "new_node_of parent fullname =
     \<lparr>pn_parent = parent, pn_fullname = fullname, pn_exists = False, pn_should_exist = False\<rparr>"

definition expected :: "perf_node \<Rightarrow> perf_node" where
  "expected n = n\<lparr>pn_should_exist := True\<rparr>"


section \<open>The prepared tree\<close>

text \<open>\<open>create_test_tree\<close>: case 2 also makes the tree on the servers when \<open>do_rpc\<close> says so.\<close>

definition tree_calls :: "'w network \<Rightarrow> fs_client \<Rightarrow> 'w \<Rightarrow> (unit, 'w) call_result" where
  "tree_calls net cl w =
     c_then (client_Mkdir net ''/read'' cl w) (\<lambda>_ cl w.
     c_then (client_CreateFile net ''/read/file11'' cl w) (\<lambda>_ cl w.
     c_then (client_CreateFile net ''/read/file12'' cl w) (\<lambda>_ cl w.
     c_then (client_CreateFile net ''/read/file13'' cl w) (\<lambda>_ cl w. c_return () cl w))))"

definition test_case_1 :: "perf_node list" where
  "test_case_1 =
     [new_node_of None ''/dir1'', new_node_of (Some ''/dir1'') ''/dir1/file11'',
      new_node_of (Some ''/dir1'') ''/dir1/file12'', new_node_of (Some ''/dir1'') ''/dir1/file13'',
      new_node_of None ''/dir2'', new_node_of (Some ''/dir2'') ''/dir1/dir21'',
      new_node_of (Some ''/dir2'') ''/dir1/dir22'', new_node_of (Some ''/dir2'') ''/dir1/dir23'',
      new_node_of None ''/dir2'']"

definition test_case_2 :: "perf_node list \<times> perf_node list" where
  "test_case_2 =
     ([expected (new_node_of None ''/read''), expected (new_node_of (Some ''/read'') ''/read/file11''),
       expected (new_node_of (Some ''/read'') ''/read/file12''), expected (new_node_of (Some ''/read'') ''/read/file13'')],
      [expected (new_node_of None ''/write''), new_node_of (Some ''/read'') ''/write/file21'',
       new_node_of (Some ''/read'') ''/write/file22'', new_node_of (Some ''/read'') ''/write/file23'',
       new_node_of (Some ''/write'') ''/write/dir21'', new_node_of (Some ''/write'') ''/write/dir22'',
       new_node_of (Some ''/write'') ''/write/dir23''])"

definition create_test_tree ::
  "'w network \<Rightarrow> nat \<Rightarrow> bool \<Rightarrow> perf_test \<Rightarrow> fs_client \<Rightarrow> 'w \<Rightarrow> (perf_test, 'w) call_result"
where
  "create_test_tree net test_case do_rpc pt cl w =
     (if test_case = 1 then c_return (pt\<lparr>pt_test_tree := pt_test_tree pt @ test_case_1\<rparr>) cl w
      else if test_case = 2
      then c_then (if do_rpc then tree_calls net cl w else c_return () cl w) (\<lambda>_ cl1 w1.
           c_then (client_ListDir net ''/read'' cl1 w1) (\<lambda>_ cl2 w2.
           c_then (if do_rpc then client_Mkdir net ''/write'' cl2 w2 else c_return kOK cl2 w2) (\<lambda>_ cl3 w3.
           c_return (pt\<lparr>pt_read_tree := pt_read_tree pt @ fst test_case_2,
                        pt_write_tree := pt_write_tree pt @ snd test_case_2\<rparr>) cl3 w3)))
      else c_return pt cl w)"


section \<open>Choosing a command and its path\<close>

definition cmd_of :: "nat \<Rightarrow> perf_cmd" where
  "cmd_of r = all_cmds ! (r mod 6)"

text \<open>Numbers are drawn until one names a command that has some of its share left.\<close>

partial_function (option) pick_cmd :: "(nat \<Rightarrow> nat) \<Rightarrow> nat \<Rightarrow> perf_test \<Rightarrow> (perf_cmd \<times> nat) option" where
  "pick_cmd rnd k pt =
     (if pt_count pt (cmd_of (rnd k)) + 1 > pt_limit pt (cmd_of (rnd k)) then pick_cmd rnd (Suc k) pt
      else Some (cmd_of (rnd k), Suc k))"

declare pick_cmd.simps [code]

text \<open>
  The scan \<open>do { node = tree[i]; ++i; } while (i < bound && skip(node))\<close>: the position of the
  node and the value of \<open>i\<close> after the loop.
\<close>

function scan :: "(perf_node \<Rightarrow> bool) \<Rightarrow> nat \<Rightarrow> perf_node list \<Rightarrow> nat \<Rightarrow> (nat \<times> nat) outcome" where
  "scan skip bound tree i =
     (if i < length tree
      then if Suc i < bound \<and> skip (tree ! i) then scan skip bound tree (Suc i) else Inr (i, Suc i)
      else Inl Index_out_of_range)"
  by pat_completeness auto
termination
  by (relation "measure (\<lambda>(_, _, tree, i). length tree - i)") auto

declare scan.simps [simp del]

text \<open>
  The path of a command, by its position in the tree it is for; \<open>None\<close> when the scan has come
  to the end.
\<close>

definition choose_write :: "(perf_node \<Rightarrow> bool) \<Rightarrow> nat \<Rightarrow> nat \<Rightarrow> perf_node list \<Rightarrow> nat option outcome" where
  "choose_write skip start bound tree =
     and_then (scan skip bound tree start) (\<lambda>(j, i). Inr (if i = bound then None else Some j))"

definition choose_node :: "perf_cmd \<Rightarrow> perf_test \<Rightarrow> nat option outcome" where
  "choose_node c pt =
     (let tree = pt_write_tree pt in
      case c of
        perf_mkdir \<Rightarrow> choose_write pn_should_exist 4 (length tree) tree
      | perf_rmdir \<Rightarrow> choose_write (\<lambda>n. \<not> pn_should_exist n) 4 (length tree) tree
      | perf_createfile \<Rightarrow> choose_write pn_should_exist 1 4 tree
      | perf_delete \<Rightarrow> choose_write (\<lambda>n. \<not> pn_should_exist n) 1 (length tree) tree
      | perf_getfinfo \<Rightarrow> if 1 < length (pt_read_tree pt) then Inr (Some 1) else Inl Index_out_of_range
      | perf_listdir \<Rightarrow> if 0 < length (pt_read_tree pt) then Inr (Some 0) else Inl Index_out_of_range)"


section \<open>Running a command\<close>

definition is_write :: "perf_cmd \<Rightarrow> bool" where
  "is_write c \<longleftrightarrow> c \<noteq> perf_listdir \<and> c \<noteq> perf_getfinfo"

definition perf_call :: "perf_cmd \<Rightarrow> 'w network \<Rightarrow> string \<Rightarrow> fs_client \<Rightarrow> 'w \<Rightarrow> (status, 'w) call_result" where
  "perf_call c net path cl w =
     (case c of
        perf_mkdir \<Rightarrow> client_Mkdir net path cl w
      | perf_rmdir \<Rightarrow> client_Rmdir net path cl w
      | perf_createfile \<Rightarrow> client_CreateFile net path cl w
      | perf_delete \<Rightarrow> client_DeleteFile net path cl w
      | perf_listdir \<Rightarrow> c_then (client_ListDir net path cl w) (\<lambda>(rtn, _) cl w. c_return rtn cl w)
      | perf_getfinfo \<Rightarrow> c_then (client_GetFileInfo net path cl w) (\<lambda>(rtn, _) cl w. c_return rtn cl w))"

definition mark :: "perf_cmd \<Rightarrow> status \<Rightarrow> perf_node \<Rightarrow> perf_node" where
  "mark c rtn n = n\<lparr>pn_should_exist := (if c = perf_rmdir \<or> c = perf_delete then rtn \<noteq> kOK else rtn = kOK)\<rparr>"

definition tree_of :: "perf_cmd \<Rightarrow> perf_test \<Rightarrow> perf_node list" where
  "tree_of c pt = (if is_write c then pt_write_tree pt else pt_read_tree pt)"

definition after_cmd :: "perf_cmd \<Rightarrow> nat \<Rightarrow> status \<Rightarrow> int \<Rightarrow> perf_test \<Rightarrow> perf_test" where
  "after_cmd c j rtn dura pt =
     (let node = tree_of c pt ! j;
          pt1 = (if is_write c
                 then pt\<lparr>pt_write_tree := (pt_write_tree pt)[j := mark c rtn node],
                         pt_write_count := pt_write_count pt + 1,
                         pt_correct_write_count := pt_correct_write_count pt + (if rtn = kOK then 1 else 0),
                         pt_write_latency := pt_write_latency pt + dura,
                         pt_correct_latency := pt_correct_latency pt + (if rtn = kOK then dura else 0)\<rparr>
                 else pt\<lparr>pt_read_tree := (pt_read_tree pt)[j := mark c rtn node],
                         pt_read_count := pt_read_count pt + 1,
                         pt_read_latency := pt_read_latency pt + dura\<rparr>)
      in pt1\<lparr>pt_records := pt_records pt1 @ [\<lparr>pr_cmd = c, pr_node = pn_fullname node, pr_err_no = rtn\<rparr>],
             pt_count := (pt_count pt1)(c := pt_count pt1 c + 1), pt_executed := pt_executed pt1 + 1\<rparr>)"

definition perf_step ::
  "'w network \<Rightarrow> ('w \<Rightarrow> int) \<Rightarrow> perf_cmd \<Rightarrow> nat \<Rightarrow> perf_test \<Rightarrow> fs_client \<Rightarrow> 'w \<Rightarrow> (perf_test, 'w) call_result"
where
  "perf_step net now c j pt cl w =
     c_then (perf_call c net (pn_fullname (tree_of c pt ! j)) cl w) (\<lambda>rtn cl1 w1.
     c_return (after_cmd c j rtn (now w1 - now w) pt) cl1 w1)"

text \<open>
  One round of the main loop.  A round without a path to use counts towards the limit of 1000
  such rounds in a row.  A round also gives the number of the next value of \<open>rand()\<close>.
\<close>

datatype 'w round =
    Draws_forever
  | Loop_ends nat "(perf_test, 'w) call_result"
  | Next_round nat nat perf_test fs_client 'w

definition perf_round ::
  "'w network \<Rightarrow> ('w \<Rightarrow> int) \<Rightarrow> (nat \<Rightarrow> nat) \<Rightarrow> nat \<Rightarrow> nat \<Rightarrow> perf_test \<Rightarrow> fs_client \<Rightarrow> 'w \<Rightarrow> 'w round"
where
  "perf_round net now rnd k no_valid pt cl w =
     (case pick_cmd rnd k pt of
        None \<Rightarrow> Draws_forever
      | Some (c, k') \<Rightarrow>
          if no_valid > 1000 then Loop_ends k' (c_return pt cl w)
          else (case choose_node c pt of
                  Inl u \<Rightarrow> Loop_ends k' (Inl u)
                | Inr None \<Rightarrow> Next_round k' (Suc no_valid) pt cl w
                | Inr (Some j) \<Rightarrow>
                    (case perf_step net now c j pt cl w of
                       Inl u \<Rightarrow> Loop_ends k' (Inl u)
                     | Inr (Inl e, cl1, w1) \<Rightarrow> Loop_ends k' (Inr (Inl e, cl1, w1))
                     | Inr (Inr pt1, cl1, w1) \<Rightarrow> Next_round k' 0 pt1 cl1 w1)))"

text \<open>The main loop; \<open>None\<close> is a run that does not end.\<close>

partial_function (option) perf_run ::
  "'w network \<Rightarrow> ('w \<Rightarrow> int) \<Rightarrow> (nat \<Rightarrow> nat) \<Rightarrow> nat \<Rightarrow> nat \<Rightarrow> perf_test \<Rightarrow> fs_client \<Rightarrow> 'w \<Rightarrow> (perf_test, 'w) call_result option"
where
  "perf_run net now rnd k no_valid pt cl w =
     (if pt_executed pt < pt_total pt
      then case perf_round net now rnd k no_valid pt cl w of
             Draws_forever \<Rightarrow> None
           | Loop_ends k' r \<Rightarrow> Some r
           | Next_round k' no_valid' pt' cl' w' \<Rightarrow> perf_run net now rnd k' no_valid' pt' cl' w'
      else Some (c_return pt cl w))"

declare perf_run.simps [code]

definition num_of :: "perf_cmd \<Rightarrow> perf_rec list \<Rightarrow> nat" where
  "num_of c recs = length (filter (\<lambda>r. pr_cmd r = c) recs)"

definition num_correct :: "perf_rec list \<Rightarrow> nat" where
  "num_correct recs = length (filter (\<lambda>r. pr_err_no r = kOK) recs)"


section \<open>The choice of a path\<close>

lemma choose_write_find:
  assumes "start < bound" and "bound \<le> length tree"
  shows "choose_write skip start bound tree = Inr (find (\<lambda>j. \<not> skip (tree ! j)) [start ..< bound - 1])"
  using assms
proof (induction "bound - start" arbitrary: start)
  case (Suc n)
  show ?case
  proof (cases "Suc start < bound")
    case True
    then have "[start ..< bound - 1] = start # [Suc start ..< bound - 1]" by (simp add: upt_conv_Cons)
    with Suc True show ?thesis
      by (cases "skip (tree ! start)") (auto simp: choose_write_def scan.simps [of skip bound tree start])
  next
    case False
    with Suc show ?thesis by (auto simp: choose_write_def scan.simps [of skip bound tree start])
  qed
qed simp

text \<open>What the commands look for: the first path of their part of the tree with the right mark.\<close>

definition wanted :: "perf_cmd \<Rightarrow> perf_test \<Rightarrow> nat list" where
  "wanted c pt =
     (let n = length (pt_write_tree pt); there = (\<lambda>j. pn_should_exist (pt_write_tree pt ! j)) in
      case c of
        perf_mkdir \<Rightarrow> filter (\<lambda>j. \<not> there j) [4 ..< n - 1]
      | perf_rmdir \<Rightarrow> filter there [4 ..< n - 1]
      | perf_createfile \<Rightarrow> filter (\<lambda>j. \<not> there j) [1 ..< 3]
      | perf_delete \<Rightarrow> filter there [1 ..< n - 1]
      | perf_getfinfo \<Rightarrow> [1]
      | perf_listdir \<Rightarrow> [0])"

definition first_of :: "nat list \<Rightarrow> nat option" where
  "first_of js = (case js of [] \<Rightarrow> None | j # _ \<Rightarrow> Some j)"

lemma find_first_of: "find P xs = first_of (filter P xs)"
  by (induction xs) (simp_all add: first_of_def)

text \<open>
  For every command the scan of the tree is the first path with the mark it looks for.
  The last path of each part is never looked at: the code takes the end of the scan for a
  failed search.
\<close>

theorem choose_node_first:
  assumes "4 < length (pt_write_tree pt)" and "1 < length (pt_read_tree pt)"
  shows "choose_node c pt = Inr (first_of (wanted c pt))"
proof -
  have one: "[1 ..< 4 - 1] = [1 ..< 3 :: nat]" "Suc 0 < n \<Longrightarrow> 0 < n" for n :: nat by simp_all
  show ?thesis
    using assms
    by (cases c; simp only: choose_node_def wanted_def Let_def perf_cmd.case)
      (use assms(2) in \<open>simp_all add: choose_write_find find_first_of one first_of_def [of "[_]"]
        del: upt_Suc One_nat_def length_greater_0_conv\<close>)
qed

definition case_2_test :: perf_test where
  "case_2_test =
     \<lparr>pt_limit = (\<lambda>c. if c = perf_listdir then 2 else if c = perf_mkdir then 3 else 0), pt_count = (\<lambda>_. 0),
      pt_total = 5, pt_executed = 0, pt_test_tree = [], pt_read_tree = fst test_case_2,
      pt_write_tree = snd test_case_2, pt_records = [],
      pt_read_count = 0, pt_write_count = 0, pt_correct_write_count = 0,
      pt_read_latency = 0, pt_write_latency = 0, pt_correct_latency = 0\<rparr>"

lemma case_2_tree: "4 < length (pt_write_tree case_2_test)" "1 < length (pt_read_tree case_2_test)"
  by (simp_all add: case_2_test_def test_case_2_def)

theorem choose_node_first_witness:
  "choose_node perf_mkdir case_2_test = Inr (Some 4) \<and> choose_node perf_delete case_2_test = Inr None"
proof -
  have "wanted perf_mkdir case_2_test = [4, 5]" "wanted perf_delete case_2_test = []"
    by (simp_all add: wanted_def case_2_test_def test_case_2_def new_node_of_def expected_def)
  then show ?thesis
    using choose_node_first [OF case_2_tree, of perf_mkdir] choose_node_first [OF case_2_tree, of perf_delete]
    by (simp add: first_of_def)
qed

lemma last_path_unused:
  assumes "choose_node c pt = Inr (Some j)" and "is_write c"
    and "4 < length (pt_write_tree pt)" and "1 < length (pt_read_tree pt)"
  shows "Suc j < length (pt_write_tree pt)"
proof -
  have *: "first_of (filter P [a ..< b]) = Some j \<Longrightarrow> j < b" for P a b
  proof -
    assume "first_of (filter P [a ..< b]) = Some j"
    then have "j \<in> set (filter P [a ..< b])" by (cases "filter P [a ..< b]") (auto simp: first_of_def)
    then show "j < b" by simp
  qed
  from assms show ?thesis
    by (cases c) (auto simp: choose_node_def is_write_def Let_def choose_write_find find_first_of dest!: *)
qed


section \<open>The accounts of a run\<close>

text \<open>
  The counters agree with the records, no command goes over its share and the run not over
  its total.  The totals at the end of \<open>result_write_stats\<close> are those of the records.
\<close>

definition writes :: "perf_rec list \<Rightarrow> perf_rec list" where
  "writes recs = filter (\<lambda>r. is_write (pr_cmd r)) recs"

definition accounts_ok :: "perf_test \<Rightarrow> bool" where
  "accounts_ok pt \<longleftrightarrow>
     (\<forall>c. pt_count pt c = int (num_of c (pt_records pt)) \<and> pt_count pt c \<le> max 0 (pt_limit pt c)) \<and>
     pt_executed pt = int (length (pt_records pt)) \<and> pt_executed pt \<le> max 0 (pt_total pt) \<and>
     pt_write_count pt = int (length (writes (pt_records pt))) \<and>
     pt_read_count pt + pt_write_count pt = pt_executed pt \<and>
     pt_correct_write_count pt = int (num_correct (writes (pt_records pt)))"

lemma new_PerfTest_accounts: "new_PerfTest opens scale mem paras time = Some (pt, seed) \<Longrightarrow> accounts_ok pt"
  by (auto simp: new_PerfTest_def accounts_ok_def num_of_def num_correct_def writes_def Let_def split: if_splits)

lemma after_cmd_accounts:
  assumes "accounts_ok pt" and "pt_count pt c + 1 \<le> pt_limit pt c" and "pt_executed pt < pt_total pt"
  shows "accounts_ok (after_cmd c j rtn dura pt)"
proof -
  have "int (length (filter (\<lambda>r. pr_cmd r = d) (pt_records pt))) \<le> max 0 (pt_limit pt d)" for d
    using assms(1) by (simp add: accounts_ok_def num_of_def) metis
  with assms show ?thesis
    by (auto simp: accounts_ok_def after_cmd_def Let_def num_of_def num_correct_def writes_def)
qed

lemma after_cmd_kept [simp]:
  "pt_limit (after_cmd c j rtn dura pt) = pt_limit pt" "pt_total (after_cmd c j rtn dura pt) = pt_total pt"
  "pt_executed (after_cmd c j rtn dura pt) = pt_executed pt + 1"
  by (simp_all add: after_cmd_def Let_def)

lemma pick_cmd_left:
  assumes "pick_cmd rnd k pt = Some (c, k')"
  shows "pt_count pt c + 1 \<le> pt_limit pt c \<and> k < k' \<and> c = cmd_of (rnd (k' - 1))"
proof -
  let ?P = "\<lambda>rnd k pt r. pt_count pt (fst r) + 1 \<le> pt_limit pt (fst r) \<and> k < snd r \<and> fst r = cmd_of (rnd (snd r - 1))"
  have "?P rnd k pt (c, k')"
  proof (rule pick_cmd.raw_induct [where P = ?P, OF _ assms], goal_cases)
    case (1 pick_cmd rnd k pt r)
    show ?case
      using 1(2) 1(1) [of rnd "Suc k" pt r]
      by (cases "pt_count pt (cmd_of (rnd k)) + 1 > pt_limit pt (cmd_of (rnd k))") auto
  qed
  then show ?thesis by auto
qed

text \<open>What a round that goes on has done: it found no path, or it ran one command.\<close>

lemma perf_round_next:
  assumes "perf_round net now rnd k no_valid pt cl w = Next_round k' no_valid' pt' cl' w'"
  obtains (No_path) c where "pt_count pt c + 1 \<le> pt_limit pt c" "choose_node c pt = Inr None"
      "no_valid \<le> 1000" "no_valid' = Suc no_valid" "pt' = pt" "cl' = cl" "w' = w"
  | (Ran) c j rtn where "pt_count pt c + 1 \<le> pt_limit pt c" "choose_node c pt = Inr (Some j)"
      "perf_call c net (pn_fullname (tree_of c pt ! j)) cl w = Inr (Inr rtn, cl', w')"
      "no_valid' = 0" "pt' = after_cmd c j rtn (now w' - now w) pt"
proof -
  from assms obtain c where pick: "pick_cmd rnd k pt = Some (c, k')" and few: "no_valid \<le> 1000"
    by (auto simp: perf_round_def split: option.splits prod.splits if_splits sum.splits)
  note left = conjunct1 [OF pick_cmd_left [OF pick]]
  from assms pick few have after: "(case choose_node c pt of
      Inl u \<Rightarrow> Loop_ends k' (Inl u)
    | Inr None \<Rightarrow> Next_round k' (Suc no_valid) pt cl w
    | Inr (Some j) \<Rightarrow> (case perf_step net now c j pt cl w of
        Inl u \<Rightarrow> Loop_ends k' (Inl u)
      | Inr (Inl e, cl1, w1) \<Rightarrow> Loop_ends k' (Inr (Inl e, cl1, w1))
      | Inr (Inr pt1, cl1, w1) \<Rightarrow> Next_round k' 0 pt1 cl1 w1)) = Next_round k' no_valid' pt' cl' w'"
    by (simp add: perf_round_def)
  show thesis
  proof (cases "choose_node c pt")
    case (Inr found)
    show thesis
    proof (cases found)
      case None
      with after Inr show thesis by (intro No_path [OF left _ few]) simp_all
    next
      case (Some j)
      with after Inr have "perf_step net now c j pt cl w = Inr (Inr pt', cl', w') \<and> no_valid' = 0"
        by (simp split: sum.splits prod.splits)
      then obtain rtn where "perf_call c net (pn_fullname (tree_of c pt ! j)) cl w = Inr (Inr rtn, cl', w')"
        "no_valid' = 0" "pt' = after_cmd c j rtn (now w' - now w) pt"
        by (auto simp: perf_step_def c_then_def and_then_def c_return_def split: sum.splits)
      with left Inr Some show thesis by (intro Ran [of c j rtn]) simp_all
    qed
  qed (use after in simp)
qed

text \<open>A loop that ends with a state of the test ends with the one of its last round.\<close>

lemma perf_round_ends:
  assumes "perf_round net now rnd k no_valid pt cl w = Loop_ends k' (Inr (Inr pt', cl', w'))"
  shows "pt' = pt \<and> cl' = cl \<and> w' = w \<and> 1000 < no_valid"
  using assms
  by (auto simp: perf_round_def perf_step_def c_then_def and_then_def c_return_def
      split: sum.splits option.splits prod.splits if_splits)

text \<open>Rule: what every round keeps, a run keeps.\<close>

lemma perf_run_rounds:
  fixes net :: "'w network"
  assumes run: "perf_run net now rnd k no_valid pt cl w = Some (Inr (Inr pt', cl', w'))" and start: "P no_valid pt cl w"
    and step: "\<And>k no_valid pt cl w k' no_valid' pt' cl' w'. P no_valid pt cl w \<Longrightarrow> pt_executed pt < pt_total pt \<Longrightarrow>
      perf_round net now rnd k no_valid pt cl w = Next_round k' no_valid' pt' cl' w' \<Longrightarrow> P no_valid' pt' cl' w'"
  shows "\<exists>no_valid'. P no_valid' pt' cl' w' \<and> (pt_executed pt' < pt_total pt' \<longrightarrow> 1000 < no_valid')"
proof -
  let ?Q = "\<lambda>net' now' rnd' k no_valid pt cl w (r :: (perf_test, 'w) call_result).
    net' = net \<and> now' = now \<and> rnd' = rnd \<longrightarrow> P no_valid pt cl w \<longrightarrow> (\<forall>pt' cl' w'. r = Inr (Inr pt', cl', w') \<longrightarrow>
      (\<exists>no_valid'. P no_valid' pt' cl' w' \<and> (pt_executed pt' < pt_total pt' \<longrightarrow> 1000 < no_valid')))"
  have "?Q net now rnd k no_valid pt cl w (Inr (Inr pt', cl', w'))"
  proof (rule perf_run.raw_induct [where P = ?Q, OF _ run], goal_cases)
    case (1 run net' now' rnd' k no_valid pt cl w r)
    show ?case
    proof (intro impI allI)
      fix pt' cl' w'
      assume *: "net' = net \<and> now' = now \<and> rnd' = rnd" "P no_valid pt cl w" "r = Inr (Inr pt', cl', w')"
      show "\<exists>no_valid'. P no_valid' pt' cl' w' \<and> (pt_executed pt' < pt_total pt' \<longrightarrow> 1000 < no_valid')"
      proof (cases "pt_executed pt < pt_total pt")
        case True
        with 1(2) * show ?thesis
          by (auto split: round.splits dest!: perf_round_ends dest: step [OF *(2) True] 1(1) [rule_format])
      next
        case False
        with 1(2) * show ?thesis by (auto simp: c_return_def)
      qed
    qed
  qed
  with start show ?thesis by blast
qed

text \<open>
  The accounts of a run: when the main loop ends, the counters of the commands are those
  of its records, no command ran more often than its share and no more ran than were asked for.
\<close>

lemma perf_round_accounts:
  assumes "perf_round net now rnd k no_valid pt cl w = Next_round k' no_valid' pt' cl' w'"
    and "accounts_ok pt" and "pt_executed pt < pt_total pt"
  shows "accounts_ok pt'"
  using assms(1) by (cases rule: perf_round_next) (simp_all add: assms(2,3) after_cmd_accounts)

theorem perf_run_accounts:
  assumes "perf_run net now rnd k no_valid pt cl w = Some (Inr (Inr pt', cl', w'))" and "accounts_ok pt"
  shows "accounts_ok pt'"
proof -
  have "\<exists>no_valid' :: nat. accounts_ok pt' \<and> (pt_executed pt' < pt_total pt' \<longrightarrow> 1000 < no_valid')"
    by (rule perf_run_rounds [where P = "\<lambda>_ pt _ _. accounts_ok pt", OF assms]) (rule perf_round_accounts)
  then show ?thesis by blast
qed


definition quick_test :: perf_test where
  "quick_test = case_2_test\<lparr>pt_limit := (\<lambda>c. if c = perf_listdir \<or> c = perf_mkdir then 1 else 0), pt_total := 2\<rparr>"

lemma quick_test_ok: "accounts_ok quick_test"
  by (simp add: quick_test_def case_2_test_def accounts_ok_def num_of_def num_correct_def writes_def)

lemma quick_run:
  "\<exists>pt' cl' w'. perf_run one_leader_net (\<lambda>_. 0) (\<lambda>k. 2 * k) 0 0 quick_test sample_client () = Some (Inr (Inr pt', cl', w')) \<and>
     pt_executed pt' = 2 \<and> pt_read_count pt' = 1"
  by (simp add: perf_run.simps perf_round_def pick_cmd.simps quick_test_def case_2_test_def cmd_of_def all_cmds_def
      choose_node_def choose_write_def scan.simps test_case_2_def new_node_of_def expected_def
      perf_step_def perf_call_def tree_of_def is_write_def client_ListDir_def client_Mkdir_def client_dir_op_def
      ConnectFollower_def client_GetLeader_def adopt_leader_def ensure_leader_rpc_def meta_call_def host_at_def
      next_follower_def reset_follower_def default_meta_response_def answer_def
      reset_leader_def ResetRPCClient_def ResetSock_def sample_client_def one_leader_net_def
      after_cmd_def mark_def Let_def c_return_def)

theorem perf_run_accounts_witness:
  "\<exists>pt' cl' w'. perf_run one_leader_net (\<lambda>_. 0) (\<lambda>k. 2 * k) 0 0 quick_test sample_client () = Some (Inr (Inr pt', cl', w')) \<and>
     accounts_ok pt' \<and> pt_executed pt' = 2"
  using quick_run [THEN exE] perf_run_accounts [OF _ quick_test_ok] by metis


section \<open>Runs end\<close>

lemma all_counts: "sum_list (map (\<lambda>c. num_of c recs) all_cmds) = length recs"
proof (induction recs)
  case (Cons r recs)
  then show ?case by (cases "pr_cmd r") (simp_all add: num_of_def all_cmds_def)
qed (simp add: num_of_def all_cmds_def)

lemma in_all_cmds: "c \<in> set all_cmds"
  by (cases c) (simp_all add: all_cmds_def)

lemma pick_cmd_returns:
  assumes "k \<le> m" and "pt_count pt (cmd_of (rnd m)) + 1 \<le> pt_limit pt (cmd_of (rnd m))"
  shows "\<exists>c k'. pick_cmd rnd k pt = Some (c, k')"
  using assms
proof (induction "m - k" arbitrary: k)
  case 0
  then show ?case by (simp add: pick_cmd.simps [of rnd k pt])
next
  case (Suc n)
  then have "\<exists>c k'. pick_cmd rnd (Suc k) pt = Some (c, k')" by (intro Suc.hyps(1)) auto
  then show ?case by (simp add: pick_cmd.simps [of rnd k pt])
qed

lemma some_left:
  assumes "accounts_ok pt" and "pt_executed pt < pt_total pt"
    and "pt_total pt \<le> sum_list (map (\<lambda>c. max 0 (pt_limit pt c)) all_cmds)"
  shows "\<exists>c. pt_count pt c + 1 \<le> pt_limit pt c"
proof (rule ccontr)
  assume "\<not> ?thesis"
  with assms(1) have "max 0 (pt_limit pt c) \<le> int (num_of c (pt_records pt))" for c
    by (fastforce simp: accounts_ok_def not_le)
  then have "sum_list (map (\<lambda>c. max 0 (pt_limit pt c)) all_cmds) \<le> sum_list (map (\<lambda>c. int (num_of c (pt_records pt))) all_cmds)"
    by (intro sum_list_mono)
  also have "\<dots> = int (length (pt_records pt))"
    by (simp add: all_counts [symmetric] all_cmds_def)
  finally show False using assms by (simp add: accounts_ok_def)
qed

lemma exhausted_never_returns:
  assumes "\<forall>c. pt_limit pt c \<le> pt_count pt c" and "pt_executed pt < pt_total pt"
  shows "perf_run net now rnd k no_valid pt cl w = None"
proof -
  have "pick_cmd rnd k pt = None"
  proof (cases "pick_cmd rnd k pt")
    case (Some r)
    then have "pt_count pt (fst r) + 1 \<le> pt_limit pt (fst r)" using pick_cmd_left [of rnd k pt "fst r" "snd r"] by auto
    moreover have "pt_limit pt (fst r) \<le> pt_count pt (fst r)" using assms(1) ..
    ultimately show ?thesis by linarith
  qed
  with assms(2) show ?thesis by (simp add: perf_run.simps perf_round_def)
qed

text \<open>With random numbers that name every command again and again a round finds one.\<close>

lemma perf_round_drawn:
  assumes "\<forall>c k. \<exists>m \<ge> k. cmd_of (rnd m) = c" and "accounts_ok pt" and "pt_executed pt < pt_total pt"
    and "pt_total pt \<le> sum_list (map (\<lambda>c. max 0 (pt_limit pt c)) all_cmds)"
  shows "perf_round net now rnd k no_valid pt cl w \<noteq> Draws_forever"
proof -
  from some_left assms(2-4) obtain c where "pt_count pt c + 1 \<le> pt_limit pt c" by blast
  with assms(1) pick_cmd_returns have "\<exists>c k'. pick_cmd rnd k pt = Some (c, k')" by metis
  then show ?thesis by (auto simp: perf_round_def split: sum.splits option.splits)
qed

lemma perf_run_returns:
  assumes "\<forall>c k. \<exists>m \<ge> k. cmd_of (rnd m) = c" and "accounts_ok pt"
    and "pt_total pt \<le> sum_list (map (\<lambda>c. max 0 (pt_limit pt c)) all_cmds)"
  shows "\<exists>r. perf_run net now rnd k no_valid pt cl w = Some r"
  using assms(2,3)
proof (induction "nat (pt_total pt - pt_executed pt) * 1003 + (1002 - no_valid)"
    arbitrary: k no_valid pt cl w rule: less_induct)
  case less
  show ?case
  proof (cases "pt_executed pt < pt_total pt")
    case True
    note drawn = perf_round_drawn [OF assms(1) less(2) True less(3), of net now k no_valid cl w]
    have "\<exists>r. perf_run net now rnd k' no_valid' pt' cl' w' = Some r"
      if round: "perf_round net now rnd k no_valid pt cl w = Next_round k' no_valid' pt' cl' w'" for k' no_valid' pt' cl' w'
    proof (rule less(1))
      show "accounts_ok pt'" using perf_round_accounts [OF round less(2) True] .
      from round show "pt_total pt' \<le> sum_list (map (\<lambda>c. max 0 (pt_limit pt' c)) all_cmds)"
        by (cases rule: perf_round_next) (use less(3) in simp_all)
      have "nat (pt_total pt - pt_executed pt) = Suc (nat (pt_total pt - (pt_executed pt + 1)))" using True by simp
      with round show "nat (pt_total pt' - pt_executed pt') * 1003 + (1002 - no_valid')
          < nat (pt_total pt - pt_executed pt) * 1003 + (1002 - no_valid)"
        by (cases rule: perf_round_next) simp_all
    qed
    with drawn show ?thesis by (subst perf_run.simps) (auto simp: True split: round.splits)
  qed (simp add: perf_run.simps)
qed

lemma every_cmd_drawn: "\<exists>m \<ge> k. cmd_of m = c"
proof -
  obtain i where i: "i < length all_cmds" "all_cmds ! i = c"
    using in_all_cmds [of c] by (auto simp only: in_set_conv_nth)
  then have "i < 6" by (simp add: all_cmds_def)
  with i show ?thesis by (intro exI [of _ "6 * k + i"]) (simp add: cmd_of_def)
qed

text \<open>
  C38. The main loop ends: with random numbers that name every command again and again and
  shares that add up to the total, a run returns from every state with good accounts.
\<close>

theorem perf_run_ends:
  assumes "\<forall>c k. \<exists>m \<ge> k. cmd_of (rnd m) = c" and "accounts_ok pt"
    and "pt_total pt \<le> sum_list (map (\<lambda>c. max 0 (pt_limit pt c)) all_cmds)"
  shows "\<exists>r. perf_run net now rnd k no_valid pt cl w = Some r"
  using assms by (rule perf_run_returns)

theorem perf_run_ends_witness:
  "\<exists>r. perf_run one_leader_net (\<lambda>_. 0) (\<lambda>m. m) 0 0 case_2_test sample_client () = Some r"
proof (rule perf_run_ends)
  show "accounts_ok case_2_test"
    by (simp add: case_2_test_def accounts_ok_def num_of_def num_correct_def writes_def)
  show "pt_total case_2_test \<le> sum_list (map (\<lambda>c. max 0 (pt_limit case_2_test c)) all_cmds)"
    by (simp add: case_2_test_def all_cmds_def)
qed (use every_cmd_drawn in blast)


text \<open>A test that only reads is never short of a path, so it stops at its total.\<close>

lemma read_only_round:
  assumes "perf_round net now rnd k no_valid pt cl w = Next_round k' no_valid' pt' cl' w'"
    and "\<forall>c. is_write c \<longrightarrow> pt_limit pt c \<le> 0" and "accounts_ok pt"
  shows "no_valid' = 0"
  using assms(1)
proof (cases rule: perf_round_next)
  case (No_path c)
  moreover have "0 \<le> pt_count pt c" using assms(3) by (simp add: accounts_ok_def)
  ultimately have "\<not> is_write c" using assms(2) by force
  with No_path(2) show ?thesis by (cases c) (auto simp: choose_node_def is_write_def Let_def split: if_splits)
qed

lemma read_only_complete:
  assumes run: "perf_run net now rnd k 0 pt cl w = Some (Inr (Inr pt', cl', w'))"
    and reads: "\<forall>c. is_write c \<longrightarrow> pt_limit pt c \<le> 0" and "accounts_ok pt"
  shows "pt_total pt \<le> pt_executed pt' \<and> pt_total pt' = pt_total pt \<and> pt_limit pt' = pt_limit pt"
proof -
  let ?P = "\<lambda>(no_valid :: nat) pt1 (_ :: fs_client) (_ :: 'a). no_valid = 0 \<and> accounts_ok pt1 \<and>
    pt_total pt1 = pt_total pt \<and> pt_limit pt1 = pt_limit pt"
  have "\<exists>no_valid'. ?P no_valid' pt' cl' w' \<and> (pt_executed pt' < pt_total pt' \<longrightarrow> 1000 < no_valid')"
  proof (rule perf_run_rounds [where P = ?P, OF run], goal_cases)
    case (2 k no_valid pt1 cl w k' no_valid' pt2 cl' w')
    with reads have "no_valid' = 0" by (intro read_only_round [OF 2(3)]) simp_all
    moreover have "accounts_ok pt2" using perf_round_accounts [OF 2(3)] 2(1,2) by blast
    moreover have "pt_total pt2 = pt_total pt1 \<and> pt_limit pt2 = pt_limit pt1" using 2(3) by (cases rule: perf_round_next) simp_all
    ultimately show ?case using 2(1) by simp
  qed (simp add: assms(3))
  then show ?thesis by auto
qed

end
