(* ===== verification/Time_Utils.thy ===== *)
theory Time_Utils
  imports Raft_Prelude
begin

text \<open>
  Time stamps, \<open>utils/time_utils.h\<close>.  A time point is a number of nanoseconds since the epoch, as
  the clock of the library counts; \<open>localtime\<close> is an argument.
\<close>

section \<open>Time stamps\<close>

record tm =
  tm_hour :: nat
  tm_min :: nat
  tm_sec :: nat

text \<open>A 60th second is a leap second.\<close>

definition valid_tm :: "tm \<Rightarrow> bool" where
  "valid_tm t \<longleftrightarrow> tm_hour t < 24 \<and> tm_min t < 60 \<and> tm_sec t \<le> 60"

definition two_digits :: "nat \<Rightarrow> string" where
  "two_digits n = [digit (n div 10), digit (n mod 10)]"

text \<open>
  \<open>strftime\<close> with the format \<open>[%T]\<close>: nothing is written when the text and its terminator do
  not fit the buffer.
\<close>

definition strftime_T :: "nat \<Rightarrow> tm \<Rightarrow> string" where
  "strftime_T maxsize t =
     (let s = ''['' @ two_digits (tm_hour t) @ '':'' @ two_digits (tm_min t) @ '':'' @ two_digits (tm_sec t) @ '']''
      in if length s < maxsize then s else [])"

definition to_time_t :: "int \<Rightarrow> int" where
  "to_time_t tp = sgn tp * (\<bar>tp\<bar> div 1000000000)"

definition TimePointStr :: "(int \<Rightarrow> tm) \<Rightarrow> int \<Rightarrow> string" where
  "TimePointStr localtime tp = strftime_T 15 (localtime (to_time_t tp))"

text \<open>\<open>duration_cast\<close> to milliseconds drops the rest, towards zero.\<close>

definition milliseconds :: "int \<Rightarrow> int" where
  "milliseconds d = sgn d * (\<bar>d\<bar> div 1000000)"

lemma two_digits_eq_iff: "m < 100 \<Longrightarrow> n < 100 \<Longrightarrow> two_digits m = two_digits n \<longleftrightarrow> m = n"
  by (auto simp: two_digits_def digit_eq_iff) (metis div_mult_mod_eq)

lemma two_digits_length [simp]: "length (two_digits n) = 2"
  by (simp add: two_digits_def)

text \<open>The buffer is large enough, and a stamp tells the time of the day and no more.\<close>

lemma TimePointStr_length: "length (TimePointStr localtime tp) = 10"
  by (simp add: TimePointStr_def strftime_T_def)

lemma TimePointStr_eq_iff:
  assumes "valid_tm (localtime (to_time_t tp))" and "valid_tm (localtime (to_time_t tp'))"
  shows "TimePointStr localtime tp = TimePointStr localtime tp' \<longleftrightarrow>
    (let t = localtime (to_time_t tp); t' = localtime (to_time_t tp')
     in tm_hour t = tm_hour t' \<and> tm_min t = tm_min t' \<and> tm_sec t = tm_sec t')"
  using assms
  by (simp add: TimePointStr_def strftime_T_def Let_def valid_tm_def two_digits_eq_iff)

lemma milliseconds_mono:
  assumes "d \<le> e"
  shows "milliseconds d \<le> milliseconds e"
proof -
  have "0 \<le> \<bar>x\<bar> div 1000000" for x :: int by simp
  from this [of d] this [of e] assms show ?thesis
    by (cases "0 \<le> d") (auto simp: milliseconds_def sgn_if zdiv_mono1)
qed

end
