(* ===== verification/Perf_Report.thy ===== *)
theory Perf_Report
  imports Perf_Test Time_Utils
begin

text \<open>
  What the benchmark driver writes: the file of its results and the list of paths at the end of
  a run.  A text is the list of its lines.  \<open>ctime\<close>, \<open>localtime\<close> and the text of a quotient of
  two integers in floating point (\<open>ratio\<close>) are arguments.
\<close>

section \<open>Records\<close>

definition cmd_number :: "perf_cmd \<Rightarrow> nat" where
  "cmd_number c =
     (case c of perf_mkdir \<Rightarrow> 0 | perf_rmdir \<Rightarrow> 1 | perf_listdir \<Rightarrow> 2 | perf_getfinfo \<Rightarrow> 3
      | perf_createfile \<Rightarrow> 4 | perf_delete \<Rightarrow> 5)"

definition status_number :: "status \<Rightarrow> nat" where
  "status_number s =
     (case s of kOK \<Rightarrow> 0 | kNoLeader \<Rightarrow> 1 | kNotLeader \<Rightarrow> 2 | kNotFound \<Rightarrow> 3
      | kTimeout \<Rightarrow> 4 | kExist \<Rightarrow> 5 | kCommError \<Rightarrow> 6 | kPathError \<Rightarrow> 7)"

definition result_write_head :: "string \<Rightarrow> string list" where
  "result_write_head ctime = [''Test on: '' @ ctime]"

definition record_text :: "perf_rec \<Rightarrow> string" where
  "record_text r = decimal (cmd_number (pr_cmd r)) @ '', '' @ pr_node r @ '', '' @ decimal (status_number (pr_err_no r))"

definition result_write_line :: "(int \<Rightarrow> tm) \<Rightarrow> int \<Rightarrow> perf_rec \<Rightarrow> string list" where
  "result_write_line localtime tp r = [TimePointStr localtime tp @ '', '' @ record_text r]"

definition result_write_all_records :: "perf_test \<Rightarrow> string list" where
  "result_write_all_records pt = map record_text (pt_records pt)"

text \<open>The lines that \<open>run\<close> ends with.\<close>

definition run_epilogue :: "int \<Rightarrow> int \<Rightarrow> perf_test \<Rightarrow> string list" where
  "run_epilogue t_s t_e pt =
     [''test end in '' @ int_text (milliseconds (t_e - t_s)) @ '' ms'', ''test finished'', [],
      ''Write tree status to verify server status:''] @
     map (\<lambda>p. pn_fullname p @ '': '' @ (if pn_should_exist p then ''1'' else ''0'')) (pt_write_tree pt)"


section \<open>The figures\<close>

record perf_stats =
  ps_follower :: string
  ps_correct :: nat
  ps_read :: int
  ps_write :: int
  ps_correct_write :: int
  ps_read_latency :: int
  ps_write_latency :: int
  ps_correct_latency :: int
  ps_num :: "perf_cmd \<Rightarrow> nat"

text \<open>The loop over the records; \<open>switch\<close> has a branch for every command.\<close>

definition count_record :: "perf_rec \<Rightarrow> nat \<times> (perf_cmd \<Rightarrow> nat) \<Rightarrow> nat \<times> (perf_cmd \<Rightarrow> nat)" where
  "count_record p = (\<lambda>(cmd_correct, num).
     (if pr_err_no p = kOK then cmd_correct + 1 else cmd_correct, num(pr_cmd p := num (pr_cmd p) + 1)))"

definition stats_text :: "(int \<Rightarrow> int \<Rightarrow> string) \<Rightarrow> perf_stats \<Rightarrow> string list" where
  "stats_text ratio ps =
     [''------------------------'',
      ''follower: '' @ ps_follower ps,
      ''total cmds: '' @ int_text (ps_read ps + ps_write ps),
      ''avg latency: '' @ ratio (milliseconds (ps_read_latency ps + ps_write_latency ps)) (ps_read ps + ps_write ps),
      ''correct cmds: '' @ decimal (ps_correct ps)] @
     (if ps_read ps \<noteq> 0
      then [''total read cmds: '' @ int_text (ps_read ps),
            ''avg read latency: '' @ ratio (milliseconds (ps_read_latency ps)) (ps_read ps)]
      else []) @
     (if ps_write ps \<noteq> 0
      then [''total write cmds: '' @ int_text (ps_write ps),
            ''avg write latency: '' @ ratio (milliseconds (ps_write_latency ps)) (ps_write ps),
            ''correct write cmds: '' @ int_text (ps_correct_write ps),
            ''avg correct write latency: '' @ ratio (milliseconds (ps_correct_latency ps)) (ps_correct_write ps)]
      else []) @
     (if ps_read ps \<noteq> 0 \<and> ps_write ps \<noteq> 0 then [''read/write ratio: '' @ ratio (ps_read ps) (ps_write ps)] else []) @
     [CHR 0x09 # '' mkdir: '' @ decimal (ps_num ps perf_mkdir),
      CHR 0x09 # '' createfile: '' @ decimal (ps_num ps perf_createfile),
      CHR 0x09 # '' delete: '' @ decimal (ps_num ps perf_delete),
      CHR 0x09 # '' listdir: '' @ decimal (ps_num ps perf_listdir),
      CHR 0x09 # '' getinfo: '' @ decimal (ps_num ps perf_getfinfo)]"

definition result_write_stats :: "'w network \<Rightarrow> perf_test \<Rightarrow> fs_client \<Rightarrow> 'w \<Rightarrow> perf_stats outcome" where
  "result_write_stats net pt cl w =
     (let (cmd_correct, num) = fold count_record (pt_records pt) (0, \<lambda>_. 0)
      in and_then (GetFollowerName net cl w) (\<lambda>follower.
         Inr \<lparr>ps_follower = follower, ps_correct = cmd_correct, ps_read = pt_read_count pt, ps_write = pt_write_count pt,
              ps_correct_write = pt_correct_write_count pt, ps_read_latency = pt_read_latency pt,
              ps_write_latency = pt_write_latency pt, ps_correct_latency = pt_correct_latency pt, ps_num = num\<rparr>))"

text \<open>The loop counts the records of each command and the correct ones.\<close>

lemma count_records:
  "fold count_record recs (n, num) = (n + num_correct recs, \<lambda>c. num c + num_of c recs)"
  by (induction recs arbitrary: n num) (auto simp: count_record_def num_correct_def num_of_def fun_eq_iff)

lemma result_write_stats_eq:
  "result_write_stats net pt cl w =
     and_then (GetFollowerName net cl w) (\<lambda>follower.
     Inr \<lparr>ps_follower = follower, ps_correct = num_correct (pt_records pt), ps_read = pt_read_count pt,
          ps_write = pt_write_count pt, ps_correct_write = pt_correct_write_count pt, ps_read_latency = pt_read_latency pt,
          ps_write_latency = pt_write_latency pt, ps_correct_latency = pt_correct_latency pt,
          ps_num = (\<lambda>c. num_of c (pt_records pt))\<rparr>)"
  by (simp add: result_write_stats_def count_records)

lemma stats_fields:
  assumes "result_write_stats net pt cl w = Inr ps"
  shows "ps_num ps = (\<lambda>c. num_of c (pt_records pt))" "ps_read ps = pt_read_count pt" "ps_write ps = pt_write_count pt"
    "ps_correct ps = num_correct (pt_records pt)" "ps_correct_write ps = pt_correct_write_count pt"
    "ps_read_latency ps = pt_read_latency pt" "ps_write_latency ps = pt_write_latency pt"
    "ps_correct_latency ps = pt_correct_latency pt"
  using assms by (auto simp: result_write_stats_eq and_then_eq_Inr)

text \<open>
  The kinds of commands that the figures list add up to the total but for the \<open>rmdir\<close>
  commands: these are counted and never written.
\<close>

lemma figures_miss_rmdir:
  assumes "accounts_ok pt" and "result_write_stats net pt cl w = Inr ps"
  shows "int (ps_num ps perf_mkdir + ps_num ps perf_createfile + ps_num ps perf_delete + ps_num ps perf_listdir
      + ps_num ps perf_getfinfo) = ps_read ps + ps_write ps - int (num_of perf_rmdir (pt_records pt))"
proof -
  have "int (num_of perf_mkdir (pt_records pt) + num_of perf_createfile (pt_records pt) + num_of perf_delete (pt_records pt)
      + num_of perf_listdir (pt_records pt) + num_of perf_getfinfo (pt_records pt)) + int (num_of perf_rmdir (pt_records pt))
      = int (length (pt_records pt))"
    using all_counts [of "pt_records pt"] by (simp add: all_cmds_def)
  with assms(1) show ?thesis by (simp add: accounts_ok_def stats_fields [OF assms(2)])
qed


section \<open>Latencies\<close>

text \<open>
  With a clock that no call turns back, the totals of the latencies only grow, the share of the
  correct changes no more than that of all changes, and together they grow by no more than the
  time that passed.  What they start from is never set.
\<close>

definition latencies :: "perf_test \<Rightarrow> int \<times> int \<times> int" where
  "latencies pt = (pt_read_latency pt, pt_write_latency pt, pt_correct_latency pt)"

fun latency_within :: "int \<times> int \<times> int \<Rightarrow> int \<Rightarrow> int \<times> int \<times> int \<Rightarrow> bool" where
  "latency_within (r, w, c) elapsed (r', w', c') \<longleftrightarrow>
     r \<le> r' \<and> c \<le> c' \<and> c' - c \<le> w' - w \<and> (r' - r) + (w' - w) \<le> elapsed"

lemma latency_refl: "0 \<le> d \<Longrightarrow> latency_within l d l"
  by (cases "(l, d, l)" rule: latency_within.cases) simp

lemma latency_trans:
  "latency_within l d l1 \<Longrightarrow> latency_within l1 e l2 \<Longrightarrow> d + e \<le> f \<Longrightarrow> latency_within l f l2"
  by (cases l; cases l1; cases l2) auto

lemma latency_later: "latency_within l d l' \<Longrightarrow> d \<le> e \<Longrightarrow> latency_within l e l'"
  by (cases l; cases l') auto

lemma new_PerfTest_latencies: "new_PerfTest opens scale mem paras time = Some (pt, seed) \<Longrightarrow> latencies pt = mem"
  by (auto simp: new_PerfTest_def latencies_def Let_def split: if_splits)

lemma after_cmd_latency: "0 \<le> dura \<Longrightarrow> latency_within (latencies pt) dura (latencies (after_cmd c j rtn dura pt))"
  by (simp add: latencies_def after_cmd_def Let_def)

lemma perf_round_latency:
  assumes "perf_round net now rnd k no_valid pt cl w = Next_round k' no_valid' pt' cl' w'" and "now w \<le> now w'"
  shows "latency_within (latencies pt) (now w' - now w) (latencies pt')"
  using assms(1) by (cases rule: perf_round_next) (use assms(2) in \<open>simp_all add: after_cmd_latency latency_refl\<close>)

end
