(* ===== verification/Server_RPC.thy ===== *)
theory Server_RPC
  imports Raft_Prelude
begin

text \<open>
  The two ends of a remote call as the program sets them up: \<open>InitRPCServer\<close> of
  \<open>server/RaftMetaServer.cpp\<close> on the one side, the stubs of \<open>RemoteHost\<close> and of \<open>FSClient\<close> on
  the other.  Thrift itself is not modelled; of what it documents, \<open>served_by\<close> says which
  processor gets the calls of a stub.
\<close>

section \<open>Servers\<close>

datatype service = Raft_service | Client_service

datatype wire_protocol = Binary_protocol | Compact_protocol

record rpc_server =
  srv_port :: int
  srv_workers :: nat
  srv_processors :: "string \<Rightarrow> service option"
  srv_protocol :: wire_protocol

definition registerProcessor ::
  "string \<Rightarrow> service \<Rightarrow> (string \<Rightarrow> service option) \<Rightarrow> (string \<Rightarrow> service option)" where
  "registerProcessor name s mux = mux(name \<mapsto> s)"

definition InitRPCServer :: "int \<Rightarrow> nat \<Rightarrow> rpc_server" where
  "InitRPCServer port worker =
     (let mux_processor = Map.empty;
          mux_processor = registerProcessor ''Raft'' Raft_service mux_processor;
          mux_processor = registerProcessor ''FSClient'' Client_service mux_processor
      in \<lparr>srv_port = port, srv_workers = worker, srv_processors = mux_processor,
          srv_protocol = Compact_protocol\<rparr>)"


section \<open>Stubs\<close>

record rpc_stub =
  stub_host :: string
  stub_port :: int
  stub_name :: string
  stub_protocol :: wire_protocol
  stub_service :: service

definition RemoteHost_stub :: "string \<Rightarrow> int \<Rightarrow> rpc_stub" where
  "RemoteHost_stub host_name port =
     \<lparr>stub_host = host_name, stub_port = port, stub_name = ''Raft'', stub_protocol = Compact_protocol,
      stub_service = Raft_service\<rparr>"

definition FSClient_stub :: "string \<Rightarrow> int \<Rightarrow> rpc_stub" where
  "FSClient_stub host port =
     \<lparr>stub_host = host, stub_port = port, stub_name = ''FSClient'', stub_protocol = Compact_protocol,
      stub_service = Client_service\<rparr>"

text \<open>
  \<open>TMultiplexedProcessor\<close> gives a call to the processor registered under the name that
  \<open>TMultiplexedProtocol\<close> put before the name of the function; both sides must use the same
  protocol, and the socket the port the server listens on.
\<close>

definition served_by :: "rpc_server \<Rightarrow> rpc_stub \<Rightarrow> service option" where
  "served_by srv stub =
     (if stub_port stub = srv_port srv \<and> stub_protocol stub = srv_protocol srv
      then srv_processors srv (stub_name stub) else None)"

text \<open>Each kind of stub is served by the service it calls exactly when the ports agree.\<close>

lemma stubs_served:
  "served_by (InitRPCServer port n) (RemoteHost_stub h p) = (if p = port then Some Raft_service else None)"
  "served_by (InitRPCServer port n) (FSClient_stub h p) = (if p = port then Some Client_service else None)"
  by (simp_all add: served_by_def InitRPCServer_def registerProcessor_def RemoteHost_stub_def FSClient_stub_def)

end
