(* ===== verification/Options_Model.thy ===== *)
theory Options_Model
  imports Cluster FS_Namespace Server_RPC
begin

text \<open>
  The command line and the hosts file, \<open>utils/Options\<close>, and the start of a server,
  \<open>server/server_main.cpp\<close> and the constructor of \<open>RaftMetaServer\<close>.  Every server and every
  client reads the same hosts file; the ids of the servers are the positions of their names.

  What the program reads from its environment is an argument: \<open>files\<close> gives the content of a
  path, empty for a file that cannot be opened, and \<open>hostname\<close> is what \<open>gethostname\<close> writes.
\<close>

section \<open>Programs that may exit\<close>

text \<open>A run that calls \<open>exit\<close> ends with its status; one that breaks a rule is undefined.\<close>

datatype halt = Exit int | Undefined ub

type_synonym 'a run = "halt + 'a"

definition run_then :: "'a run \<Rightarrow> ('a \<Rightarrow> 'b run) \<Rightarrow> 'b run" where
  "run_then r f = (case r of Inl h \<Rightarrow> Inl h | Inr x \<Rightarrow> f x)"

lemma run_then_simps [simp]:
  "run_then (Inl h) f = Inl h"
  "run_then (Inr x) f = f x"
  by (simp_all add: run_then_def)


section \<open>Reading numbers and words\<close>

definition is_space :: "char \<Rightarrow> bool" where
  "is_space c \<longleftrightarrow> c = CHR '' '' \<or> c = CHR 0x09 \<or> c = CHR 0x0A \<or> c = CHR 0x0B \<or> c = CHR 0x0C \<or> c = CHR 0x0D"

definition digit_value :: "char \<Rightarrow> int option" where
  "digit_value c = (let v = of_char c - 48 :: int in if 0 \<le> v \<and> v \<le> 9 then Some v else None)"

fun read_digits :: "int \<Rightarrow> string \<Rightarrow> int" where
  "read_digits acc [] = acc"
| "read_digits acc (c # s) = (case digit_value c of None \<Rightarrow> acc | Some d \<Rightarrow> read_digits (10 * acc + d) s)"

text \<open>\<open>atoi\<close>: white space, a sign, digits; a value that is no \<open>int\<close> is undefined.\<close>

definition atoi :: "string \<Rightarrow> int outcome" where
  "atoi str =
     (let s = dropWhile is_space str;
          v = (case s of
                 [] \<Rightarrow> 0
               | c # t \<Rightarrow> if c = CHR ''-'' then - read_digits 0 t
                          else if c = CHR ''+'' then read_digits 0 t else read_digits 0 s)
      in if - (2 ^ 31) \<le> v \<and> v < 2 ^ 31 then Inr v else Inl Int_overflow)"

text \<open>The words that \<open>infile >> h\<close> reads one after the other.\<close>

fun read_words :: "string \<Rightarrow> string \<Rightarrow> string list" where
  "read_words cur [] = (if cur = [] then [] else [rev cur])"
| "read_words cur (c # s) =
     (if is_space c then (if cur = [] then read_words [] s else rev cur # read_words [] s)
      else read_words (c # cur) s)"

definition file_words :: "string \<Rightarrow> string list" where
  "file_words content = read_words [] content"


section \<open>The options object\<close>

text \<open>
  \<open>o_self_id\<close> is uninitialised (\<open>None\<close>) until \<open>GetHosts\<close> finds the own name.  \<open>o_hosts\<close> is a
  \<open>std::map\<close>: its pairs in the order of their keys.
\<close>

record options =
  o_host_file :: string
  o_self_name :: string
  o_self_id :: "int option"
  o_hosts :: "(int \<times> string) list"
  o_all_hosts :: "string list"
  o_port :: int

definition new_Options :: "string list \<Rightarrow> options run" where
  "new_Options argv =
     (if length argv = 5 \<and> argv ! 1 = ''-f'' \<and> argv ! 3 = ''-p''
      then (case atoi (argv ! 4) of
              Inl u \<Rightarrow> Inl (Undefined u)
            | Inr p \<Rightarrow> Inr \<lparr>o_host_file = argv ! 2, o_self_name = [], o_self_id = None, o_hosts = [],
                            o_all_hosts = [], o_port = p\<rparr>)
      else Inl (Exit 1))"

definition GetSelfName :: "string \<Rightarrow> options \<Rightarrow> string \<times> options" where
  "GetSelfName hostname opt =
     (let opt' = (if o_self_name opt = [] then opt\<lparr>o_self_name := hostname\<rparr> else opt)
      in (o_self_name opt', opt'))"

text \<open>\<open>hosts[id] = h\<close> on the ordered map.\<close>

fun host_put :: "int \<Rightarrow> string \<Rightarrow> (int \<times> string) list \<Rightarrow> (int \<times> string) list" where
  "host_put k v [] = [(k, v)]"
| "host_put k v ((j, w) # m) =
     (if k < j then (k, v) # (j, w) # m else if k = j then (k, v) # m else (j, w) # host_put k v m)"

fun hosts_loop :: "string list \<Rightarrow> int \<Rightarrow> bool \<Rightarrow> options \<Rightarrow> bool \<times> options" where
  "hosts_loop [] i found_self opt = (found_self, opt)"
| "hosts_loop (h # hs) i found_self opt =
     (if h = o_self_name opt then hosts_loop hs (i + 1) True (opt\<lparr>o_self_id := Some i\<rparr>)
      else hosts_loop hs (i + 1) found_self (opt\<lparr>o_hosts := host_put i h (o_hosts opt)\<rparr>))"

definition GetHosts :: "(string \<Rightarrow> string) \<Rightarrow> options \<Rightarrow> ((int \<times> string) list \<times> options) run" where
  "GetHosts files opt =
     (let (found_self, opt') = hosts_loop (file_words (files (o_host_file opt))) 1 False opt
      in if \<not> found_self then Inl (Exit 1) else Inr (o_hosts opt', opt'))"

definition GetAllHosts :: "(string \<Rightarrow> string) \<Rightarrow> options \<Rightarrow> string list \<times> options" where
  "GetAllHosts files opt =
     (if o_all_hosts opt \<noteq> [] then (o_all_hosts opt, opt)
      else let hs = file_words (files (o_host_file opt)) in (hs, opt\<lparr>o_all_hosts := hs\<rparr>))"

definition GetSelfId :: "options \<Rightarrow> int run" where
  "GetSelfId opt = (case o_self_id opt of None \<Rightarrow> Inl (Undefined Uninitialised_read) | Some i \<Rightarrow> Inr i)"

definition GetPort :: "options \<Rightarrow> int" where
  "GetPort opt = o_port opt"


section \<open>The start of a server\<close>

text \<open>
  The constructor of \<open>RaftConsensus\<close> takes a copy of the options and calls \<open>GetHosts\<close> on it
  again.  \<open>main\<close> asks for the own name first: without it no word of the file is the own name.
\<close>

definition raft_of_options ::
  "(string \<Rightarrow> string) \<Rightarrow> string \<Rightarrow> tick \<Rightarrow> (int \<Rightarrow> int) \<Rightarrow> options \<Rightarrow> raft run" where
  "raft_of_options files hostname t junk opt =
     run_then (GetSelfId opt) (\<lambda>self.
     let (name, opt1) = GetSelfName hostname opt in
     run_then (GetHosts files opt1) (\<lambda>(hosts, _).
     Inr (new_raft t junk self name hosts)))"

record meta_server =
  ms_raft :: raft
  ms_fs :: fs_namespace
  ms_rpc :: rpc_server

definition new_RaftMetaServer ::
  "(string \<Rightarrow> string) \<Rightarrow> string \<Rightarrow> tick \<Rightarrow> (int \<Rightarrow> int) \<Rightarrow> int \<Rightarrow> options \<Rightarrow> meta_server run" where
  "new_RaftMetaServer files hostname t junk now opt =
     run_then (raft_of_options files hostname t junk opt) (\<lambda>st.
     Inr \<lparr>ms_raft = st, ms_fs = new_FSNamespace now, ms_rpc = InitRPCServer (GetPort opt) 10\<rparr>)"

definition server_main ::
  "(string \<Rightarrow> string) \<Rightarrow> string \<Rightarrow> tick \<Rightarrow> (int \<Rightarrow> int) \<Rightarrow> int \<Rightarrow> string list \<Rightarrow> meta_server run" where
  "server_main files hostname t junk now argv =
     run_then (new_Options argv) (\<lambda>opt.
     let (_, opt1) = GetSelfName hostname opt in
     run_then (GetHosts files opt1) (\<lambda>(_, opt2).
     new_RaftMetaServer files hostname t junk now opt2))"

text \<open>\<open>Run\<close> starts one thread per remote host, the two other loops, and serves calls.\<close>

datatype server_thread = Remote_host_thread int | Check_leader_thread | FS_update_thread | RPC_thread

definition Run_threads :: "meta_server \<Rightarrow> server_thread list" where
  "Run_threads s =
     map (\<lambda>(i, _). Remote_host_thread i) (remotes (ms_raft s)) @ [Check_leader_thread, FS_update_thread, RPC_thread]"



section \<open>What the hosts file says\<close>

text \<open>The names of the file with their positions, the ids of the servers.\<close>

fun number :: "int \<Rightarrow> string list \<Rightarrow> (int \<times> string) list" where
  "number k [] = []"
| "number k (h # hs) = (k, h) # number (k + 1) hs"

lemma number_ids: "fst ` set (number k names) = {k..<k + int (length names)}"
  by (induction names arbitrary: k) auto

lemma number_nth:
  "(i, h) \<in> set (number k names) \<longleftrightarrow> k \<le> i \<and> i < k + int (length names) \<and> names ! nat (i - k) = h"
proof (induction names arbitrary: k)
  case (Cons x names)
  show ?case
  proof (cases "i = k")
    case True
    then show ?thesis using Cons.IH [of "k + 1"] by auto
  next
    case False
    have "nat (i - k) = Suc (nat (i - (k + 1)))" if "k + 1 \<le> i"
      using that by linarith
    then show ?thesis using False Cons.IH [of "k + 1"] by auto
  qed
qed simp

lemma distinct_number: "distinct (map fst (number k names))"
  by (induction names arbitrary: k) (force simp: number_nth)+

definition others :: "string \<Rightarrow> int \<Rightarrow> string list \<Rightarrow> (int \<times> string) list" where
  "others self k names = filter (\<lambda>(i, h). h \<noteq> self) (number k names)"

lemma others_Cons:
  "others self k (h # hs) = (if h = self then others self (k + 1) hs else (k, h) # others self (k + 1) hs)"
  "others self k [] = []"
  by (simp_all add: others_def)

lemma host_put_end: "\<forall>k \<in> fst ` set m. k < i \<Longrightarrow> host_put i h m = m @ [(i, h)]"
  by (induction m rule: host_put.induct [of _ i h]) (auto split: prod.splits)

lemma host_put_same: "\<forall>k \<in> fst ` set m. k < i \<Longrightarrow> host_put i h (m @ (i, h) # r) = m @ (i, h) # r"
  by (induction m rule: host_put.induct [of _ i h]) (auto split: prod.splits)

lemma hosts_loop_frame:
  "hosts_loop names i found opt = (found', opt') \<Longrightarrow>
   found' = (found \<or> o_self_name opt \<in> set names) \<and>
   opt' = opt\<lparr>o_self_id := o_self_id opt', o_hosts := o_hosts opt'\<rparr>"
  by (induction names i found opt rule: hosts_loop.induct) (auto split: if_splits)

lemma hosts_loop_fresh:
  assumes "\<forall>k \<in> fst ` set (o_hosts opt). k < i"
  shows "o_hosts (snd (hosts_loop names i found opt)) = o_hosts opt @ others (o_self_name opt) i names"
  using assms
proof (induction names i found opt rule: hosts_loop.induct)
  case (2 h hs i found opt)
  show ?case
  proof (cases "h = o_self_name opt")
    case True
    have "\<forall>k \<in> fst ` set (o_hosts opt). k < i + 1" using "2.prems" by fastforce
    with True "2.IH"(1) show ?thesis by (simp add: others_Cons)
  next
    case False
    have put: "host_put i h (o_hosts opt) = o_hosts opt @ [(i, h)]" by (rule host_put_end [OF "2.prems"])
    have "\<forall>k \<in> fst ` set (o_hosts opt @ [(i, h)]). k < i + 1" using "2.prems" by fastforce
    with False "2.IH"(2) show ?thesis by (simp add: others_Cons put)
  qed
qed (simp add: others_Cons)

lemma hosts_loop_again:
  assumes "o_hosts opt = m @ others (o_self_name opt) i names" and "\<forall>k \<in> fst ` set m. k < i"
  shows "o_hosts (snd (hosts_loop names i found opt)) = o_hosts opt"
  using assms
proof (induction names i found opt arbitrary: m rule: hosts_loop.induct)
  case (2 h hs i found opt)
  show ?case
  proof (cases "h = o_self_name opt")
    case True
    have "\<forall>k \<in> fst ` set m. k < i + 1" using "2.prems"(2) by fastforce
    with True "2.IH"(1) [of m] "2.prems"(1) show ?thesis by (simp add: others_Cons)
  next
    case False
    have put: "host_put i h (o_hosts opt) = o_hosts opt"
      using False "2.prems" host_put_same by (simp add: others_Cons)
    then have upd: "opt\<lparr>o_hosts := host_put i h (o_hosts opt)\<rparr> = opt" by simp
    have "\<forall>k \<in> fst ` set (m @ [(i, h)]). k < i + 1" using "2.prems"(2) by fastforce
    moreover have "o_hosts opt = (m @ [(i, h)]) @ others (o_self_name opt) (i + 1) hs"
      using False "2.prems"(1) by (simp add: others_Cons)
    ultimately have "o_hosts (snd (hosts_loop hs (i + 1) found opt)) = o_hosts opt"
      using "2.IH"(2) [OF False, of "m @ [(i, h)]", unfolded upd] by metis
    with False show ?thesis by (simp only: hosts_loop.simps upd if_False)
  qed
qed simp

lemma hosts_loop_self_id:
  "o_self_name opt \<in> set names \<Longrightarrow>
   \<exists>j < length names. names ! j = o_self_name opt \<and>
     o_self_id (snd (hosts_loop names i found opt)) = Some (i + int j)"
proof (induction names i found opt rule: hosts_loop.induct)
  case (2 h hs i found opt)
  show ?case
  proof (cases "o_self_name opt \<in> set hs")
    case True
    have "\<exists>j < length hs. hs ! j = o_self_name opt \<and>
      o_self_id (snd (hosts_loop (h # hs) i found opt)) = Some (i + 1 + int j)"
      using "2.IH"(1) "2.IH"(2) True by (cases "h = o_self_name opt") simp_all
    then obtain j where "j < length hs" "hs ! j = o_self_name opt"
      "o_self_id (snd (hosts_loop (h # hs) i found opt)) = Some (i + 1 + int j)" by blast
    then show ?thesis by (intro exI [of _ "Suc j"]) simp
  next
    case False
    have same: "o_self_id (snd (hosts_loop hs k f opt')) = o_self_id opt'"
      if "o_self_name opt' \<notin> set hs" for k f opt'
      using that by (induction hs k f opt' rule: hosts_loop.induct) auto
    from False "2.prems" have "h = o_self_name opt" by simp
    with False same [of "opt\<lparr>o_self_id := Some i\<rparr>"] show ?thesis by (intro exI [of _ 0]) simp
  qed
qed simp


text \<open>\<open>GetHosts\<close> on an object without hosts, and once more on the object it leaves.\<close>

lemma GetHosts_first:
  assumes "o_hosts opt = []" and names: "file_words (files (o_host_file opt)) = names"
    and self: "o_self_name opt \<in> set names"
  obtains opt' j where "GetHosts files opt = Inr (others (o_self_name opt) 1 names, opt')"
    "opt' = opt\<lparr>o_self_id := Some (int j + 1), o_hosts := others (o_self_name opt) 1 names\<rparr>"
    "j < length names" "names ! j = o_self_name opt"
proof -
  obtain found opt' where run: "hosts_loop names 1 False opt = (found, opt')" by fastforce
  note frame = hosts_loop_frame [OF run]
  have hosts: "o_hosts opt' = others (o_self_name opt) 1 names"
    using hosts_loop_fresh [of opt 1 names False] run assms(1) by simp
  obtain j where "j < length names" "names ! j = o_self_name opt" "o_self_id opt' = Some (int j + 1)"
    using hosts_loop_self_id [OF self, of 1 False] run by (auto simp: add.commute)
  then show thesis
    using that [of opt' j] run frame self hosts by (simp add: GetHosts_def names Let_def)
qed

lemma GetHosts_missing:
  "o_self_name opt \<notin> set (file_words (files (o_host_file opt))) \<Longrightarrow> GetHosts files opt = Inl (Exit 1)"
  using hosts_loop_frame [of "file_words (files (o_host_file opt))" 1 False opt]
  by (cases "hosts_loop (file_words (files (o_host_file opt))) 1 False opt") (simp add: GetHosts_def)

lemma GetHosts_again:
  assumes "o_hosts opt = others (o_self_name opt) 1 names" and names: "file_words (files (o_host_file opt)) = names"
    and self: "o_self_name opt \<in> set names"
  obtains opt' where "GetHosts files opt = Inr (o_hosts opt, opt')" "o_hosts opt' = o_hosts opt"
    "o_self_name opt' = o_self_name opt"
proof -
  obtain found opt' where run: "hosts_loop names 1 False opt = (found, opt')" by fastforce
  note frame = hosts_loop_frame [OF run]
  have "o_hosts opt' = o_hosts opt"
    using hosts_loop_again [of opt "[]" 1 names False] run assms(1) by simp
  then show thesis
    using that [of opt'] run frame self by (auto simp: GetHosts_def names Let_def)
      (metis options.select_convs(2) options.surjective options.update_convs)
qed



section \<open>A cluster from a hosts file\<close>

definition server_args :: "string \<Rightarrow> string \<Rightarrow> string list" where
  "server_args path port = [''raftfs'', ''-f'', path, ''-p'', port]"

lemma new_Options_args:
  "atoi port = Inr p \<Longrightarrow> new_Options (server_args path port) =
     Inr \<lparr>o_host_file = path, o_self_name = [], o_self_id = None, o_hosts = [], o_all_hosts = [], o_port = p\<rparr>"
  by (simp add: new_Options_def server_args_def)

lemma read_words_nonempty: "w \<in> set (read_words cur s) \<Longrightarrow> w \<noteq> []"
  by (induction cur s rule: read_words.induct) (auto split: if_splits)

lemma server_main_starts:
  assumes distinct: "distinct names" and names: "file_words (files path) = names"
    and port: "atoi port = Inr p" and n: "(n, name) \<in> set (number 1 names)"
  shows "\<exists>srv. server_main files name t junk now (server_args path port) = Inr srv \<and>
    ms_raft srv = new_raft t junk n name (others name 1 names) \<and>
    ms_fs srv = new_FSNamespace now \<and> ms_rpc srv = InitRPCServer p 10"
proof -
  have mem: "name \<in> set names" and n': "1 \<le> n" "n \<le> int (length names)" "names ! nat (n - 1) = name"
    using n by (auto simp: number_nth intro: nth_mem)
  have "name \<noteq> []"
    using mem read_words_nonempty names by (force simp: file_words_def)
  let ?o = "\<lparr>o_host_file = path, o_self_name = name, o_self_id = None, o_hosts = [], o_all_hosts = [], o_port = p\<rparr>"
  obtain o2 j where first: "GetHosts files ?o = Inr (others name 1 names, o2)"
    and o2: "o2 = ?o\<lparr>o_self_id := Some (int j + 1), o_hosts := others name 1 names\<rparr>"
    and j: "j < length names" "names ! j = name"
    using GetHosts_first [of ?o files names] names mem by auto
  have "j = nat (n - 1)"
    using nth_eq_iff_index_eq [OF distinct j(1), of "nat (n - 1)"] j(2) n' by auto
  with n' have "int j + 1 = n" by simp
  obtain o3 where "GetHosts files o2 = Inr (others name 1 names, o3)"
    using GetHosts_again [of o2 names files] names mem by (auto simp: o2)
  with first show ?thesis
    using \<open>name \<noteq> []\<close> \<open>int j + 1 = n\<close>
    by (simp add: server_main_def new_Options_args [OF port] GetSelfName_def Let_def
        new_RaftMetaServer_def raft_of_options_def GetSelfId_def GetPort_def o2)
qed

lemma others_fresh:
  assumes "distinct names" and "(n, name) \<in> set (number 1 names)"
  shows "fresh_server (map fst (number 1 names)) n (new_raft t junk n name (others name 1 names))"
proof -
  have "distinct (map fst (others name 1 names))"
    using distinct_number by (auto simp: others_def intro: distinct_map_filter)
  moreover have "h \<noteq> name \<longleftrightarrow> i \<noteq> n" if "(i, h) \<in> set (number 1 names)" for i h
    using that assms by (auto simp: number_nth nth_eq_iff_index_eq)
  then have "fst ` set (others name 1 names) = set (map fst (number 1 names)) - {n}"
    by (force simp: others_def)
  ultimately show ?thesis unfolding fresh_server_def by blast
qed



section \<open>Words and numbers\<close>

lemma read_words_word:
  "list_all (\<lambda>c. \<not> is_space c) w \<Longrightarrow> is_space d \<Longrightarrow> cur \<noteq> [] \<or> w \<noteq> [] \<Longrightarrow>
   read_words cur (w @ d # s) = (rev cur @ w) # read_words [] s"
  by (induction w arbitrary: cur) auto

definition is_word :: "string \<Rightarrow> bool" where
  "is_word w \<longleftrightarrow> w \<noteq> [] \<and> list_all (\<lambda>c. \<not> is_space c) w"

definition one_per_line :: "string list \<Rightarrow> string" where
  "one_per_line ws = concat (map (\<lambda>w. w @ [CHR 0x0A]) ws)"

lemma read_lines: "list_all is_word ws \<Longrightarrow> file_words (one_per_line ws) = ws"
  by (induction ws) (auto simp: file_words_def one_per_line_def is_word_def read_words_word is_space_def)

text \<open>Decimal notation, the reference for \<open>atoi\<close>.\<close>

lemma digit_facts:
  assumes "d < 10"
  shows "digit_value (digit d) = Some (int d)" "\<not> is_space (digit d)"
    "digit d \<noteq> CHR ''-''" "digit d \<noteq> CHR ''+''"
proof -
  have code: "of_char (digit d) = 48 + d"
    using assms by (simp add: digit_def)
  then have "of_char (digit d) = (48 + int d :: int)"
    by (metis of_nat_add of_nat_numeral of_nat_of_char)
  with assms show "digit_value (digit d) = Some (int d)"
    by (simp add: digit_value_def)
  show "\<not> is_space (digit d)"
    using code by (auto simp: is_space_def)
  show "digit d \<noteq> CHR ''-''" "digit d \<noteq> CHR ''+''"
    using code assms by (auto dest!: arg_cong [of _ _ "of_char :: char \<Rightarrow> nat"])
qed

lemma read_digits_append:
  "list_all (\<lambda>c. digit_value c \<noteq> None) s \<Longrightarrow> read_digits acc (s @ t) = read_digits (read_digits acc s) t"
  by (induction s arbitrary: acc) auto

lemma decimal_digits: "list_all (\<lambda>c. digit_value c \<noteq> None) (decimal n)"
proof (induction n rule: decimal.induct)
  case (1 n)
  then show ?case
    by (subst decimal.simps) (auto simp: digit_facts)
qed

lemma decimal_front: "\<exists>c s. decimal n = c # s \<and> \<not> is_space c \<and> c \<noteq> CHR ''-'' \<and> c \<noteq> CHR ''+''"
proof (induction n rule: decimal.induct)
  case (1 n)
  show ?case
  proof (cases "n < 10")
    case True
    then show ?thesis by (subst decimal.simps) (simp add: digit_facts)
  next
    case False
    with 1 obtain c s where "decimal (n div 10) = c # s" "\<not> is_space c" "c \<noteq> CHR ''-''" "c \<noteq> CHR ''+''"
      by blast
    with False show ?thesis by (subst decimal.simps) simp
  qed
qed

lemma read_decimal: "read_digits 0 (decimal n) = int n"
proof (induction n rule: decimal.induct)
  case (1 n)
  show ?case
  proof (cases "n < 10")
    case True
    then show ?thesis by (subst decimal.simps) (simp add: digit_facts)
  next
    case False
    then have "read_digits 0 (decimal n) = 10 * int (n div 10) + int (n mod 10)"
      using 1 by (subst decimal.simps) (simp add: read_digits_append [OF decimal_digits] digit_facts)
    then show ?thesis by presburger
  qed
qed



section \<open>Properties\<close>

definition quiet_cluster :: "(int \<Rightarrow> raft) \<Rightarrow> cluster" where
  "quiet_cluster f = \<lparr>node = f, outstanding = (\<lambda>_ _. No_call), rv_net = {}, rv_back = {}, ae_net = {}, ae_back = {}\<rparr>"

text \<open>
  Servers that are started from the same hosts file make a cluster: when the names in the
  file are distinct and the port is a number, \<open>main\<close> of every listed host returns a server,
  and these servers with an empty network are an initial cluster with the ids 1, 2, 3, and so
  on, the start of the runs that the cluster theories speak of.
\<close>

theorem hosts_file_makes_cluster:
  assumes "distinct (file_words (files path))" and "atoi port = Inr p"
    and hosts: "hosts = number 1 (file_words (files path))"
  shows "\<exists>srv. (\<forall>n name. (n, name) \<in> set hosts \<longrightarrow>
      server_main files name (t n) (junk n) (now n) (server_args path port) = Inr (srv n)) \<and>
    initial_cluster (map fst hosts) (quiet_cluster (\<lambda>n. ms_raft (srv n)))"
proof -
  define names where "names = file_words (files path)"
  have start: "\<exists>srv. (\<forall>name. (n, name) \<in> set hosts \<longrightarrow>
      server_main files name (t n) (junk n) (now n) (server_args path port) = Inr srv) \<and>
    (n \<in> fst ` set hosts \<longrightarrow> fresh_server (map fst hosts) n (ms_raft srv))" for n
  proof (cases "\<exists>name. (n, name) \<in> set hosts")
    case True
    then obtain name where "(n, name) \<in> set hosts" by blast
    moreover from this have "\<forall>x. (n, x) \<in> set hosts \<longrightarrow> x = name"
      by (auto simp: hosts number_nth)
    ultimately show ?thesis
      using server_main_starts [of names files path port p n name "t n" "junk n" "now n"]
        others_fresh [of names n name] assms by (metis names_def)
  qed force
  then obtain srv where srv: "\<And>n. (\<forall>name. (n, name) \<in> set hosts \<longrightarrow>
      server_main files name (t n) (junk n) (now n) (server_args path port) = Inr (srv n)) \<and>
    (n \<in> fst ` set hosts \<longrightarrow> fresh_server (map fst hosts) n (ms_raft (srv n)))" by metis
  have "-1 \<notin> fst ` set hosts" by (simp add: hosts number_ids)
  with srv show ?thesis
    by (intro exI [of _ srv]) (auto simp: initial_cluster_def quiet_cluster_def)
qed

definition sample_files :: "string \<Rightarrow> string" where
  "sample_files path = (if path = ''hosts.txt''
     then ''xinu01'' @ [CHR 0x0A] @ ''xinu02'' @ [CHR 0x0A] @ ''xinu03'' @ [CHR 0x0A] else [])"

lemma sample_hosts: "file_words (sample_files ''hosts.txt'') = [''xinu01'', ''xinu02'', ''xinu03'']"
  by (simp add: sample_files_def file_words_def is_space_def)

lemma sample_port: "atoi ''9090'' = Inr 9090"
  by (simp add: atoi_def is_space_def digit_value_def)

theorem hosts_file_makes_cluster_witness:
  "\<exists>srv. server_main sample_files ''xinu02'' demo_tick (\<lambda>_. 0) 0 (server_args ''hosts.txt'' ''9090'') = Inr (srv 2) \<and>
     initial_cluster [1, 2, 3] (quiet_cluster (\<lambda>n. ms_raft (srv n)))"
  using hosts_file_makes_cluster [of sample_files "''hosts.txt''" "''9090''" 9090
      "number 1 [''xinu01'', ''xinu02'', ''xinu03'']" "\<lambda>_. demo_tick" "\<lambda>_ _. 0" "\<lambda>_. 0"]
  by (auto simp: sample_hosts sample_port)

text \<open>
  The stubs that a server makes for the other ones: the constructor of \<open>RaftConsensus\<close> calls that
  of \<open>RemoteHost\<close> for every pair of \<open>GetHosts\<close>.  Between servers started from one hosts file,
  with one port, every stub is served by the consensus service of its server.
\<close>

definition raft_stubs :: "(int \<times> string) list \<Rightarrow> int \<Rightarrow> (int \<times> rpc_stub) list" where
  "raft_stubs hosts port = map (\<lambda>(i, h). (i, RemoteHost_stub h port)) hosts"

lemma servers_call_each_other:
  assumes "GetHosts files opt = Inr (hosts, opt')" and "o_hosts opt = []"
    and "(i, stub) \<in> set (raft_stubs hosts (GetPort opt'))"
    and "server_main files (stub_host stub) t junk now (server_args path port) = Inr srv"
    and "atoi port = Inr (o_port opt)" and "o_host_file opt = path" and "distinct (file_words (files path))"
  shows "served_by (ms_rpc srv) stub = Some (stub_service stub) \<and> self_id (ms_raft srv) = i"
proof -
  have self: "o_self_name opt \<in> set (file_words (files path))"
    using assms(1,6) GetHosts_missing [of opt files] by fastforce
  obtain j where first: "hosts = others (o_self_name opt) 1 (file_words (files path))"
    "opt' = opt\<lparr>o_self_id := Some (int j + 1), o_hosts := others (o_self_name opt) 1 (file_words (files path))\<rparr>"
    by (rule GetHosts_first [of opt files "file_words (files path)"]) (use assms(1,2,6) self in auto)
  with assms(3) have "(i, stub_host stub) \<in> set (number 1 (file_words (files path)))"
    and stub: "stub = RemoteHost_stub (stub_host stub) (o_port opt)"
    by (auto simp: raft_stubs_def others_def RemoteHost_stub_def GetPort_def)
  from server_main_starts [of "file_words (files path)" files path port "o_port opt" i "stub_host stub" t junk now] assms(4,5,7) \<open>(i, stub_host stub) \<in> _\<close> have
    "ms_rpc srv = InitRPCServer (o_port opt) 10" "self_id (ms_raft srv) = i" by (auto simp: new_raft_fields)
  moreover have "served_by (InitRPCServer (o_port opt) 10) stub = Some Raft_service" "stub_service stub = Raft_service"
    by (subst stub, simp add: stubs_served, subst stub, simp add: RemoteHost_stub_def)
  ultimately show ?thesis by simp
qed

text \<open>A client that is started with the same arguments has its stubs served by the client service.\<close>

lemma clients_call_servers:
  assumes "new_Options (server_args path port) = Inr opt" and "h \<in> set (fst (GetAllHosts files opt))"
    and "server_main files h t junk now (server_args path port) = Inr srv"
    and "distinct (file_words (files path))"
  shows "served_by (ms_rpc srv) (FSClient_stub h (GetPort opt)) = Some Client_service"
proof -
  from assms(1) obtain p where p: "atoi port = Inr p" and opt: "o_all_hosts opt = []" "o_host_file opt = path" "o_port opt = p"
    by (auto simp: new_Options_def server_args_def split: sum.splits)
  then obtain k where "k < length (file_words (files path))" "file_words (files path) ! k = h"
    using assms(2) by (auto simp: GetAllHosts_def Let_def in_set_conv_nth)
  then have "(1 + int k, h) \<in> set (number 1 (file_words (files path)))" by (simp add: number_nth)
  then obtain n where "(n, h) \<in> set (number 1 (file_words (files path)))" by blast
  with server_main_starts [of "file_words (files path)" files path port p n h t junk now] assms(3,4) p opt(3) show ?thesis
    by (auto simp: stubs_served GetPort_def)
qed

text \<open>
  Servers and clients number the hosts alike: \<open>GetAllHosts\<close> lists the names so that
  position \<open>i - 1\<close> is the host that a server's \<open>GetHosts\<close> has under id \<open>i\<close>, and a second call
  of either returns the same.
\<close>

theorem host_ids_agree:
  assumes "GetHosts files opt = Inr (hosts, opt')" and "o_hosts opt = []" and "o_all_hosts opt = []"
    and "(i, h) \<in> set hosts"
  shows "fst (GetAllHosts files opt) ! nat (i - 1) = h \<and> h \<noteq> o_self_name opt \<and>
    (\<exists>opt''. GetHosts files opt' = Inr (hosts, opt'')) \<and>
    GetAllHosts files (snd (GetAllHosts files opt)) = GetAllHosts files opt"
proof -
  define names where "names = file_words (files (o_host_file opt))"
  have self: "o_self_name opt \<in> set names"
    using assms(1) GetHosts_missing [of opt files] by (fastforce simp: names_def)
  obtain j where first: "hosts = others (o_self_name opt) 1 names"
    "opt' = opt\<lparr>o_self_id := Some (int j + 1), o_hosts := others (o_self_name opt) 1 names\<rparr>"
    by (rule GetHosts_first [of opt files names]) (use assms(1,2) self in \<open>auto simp: names_def\<close>)
  then obtain opt'' where "GetHosts files opt' = Inr (o_hosts opt', opt'')"
    using GetHosts_again [of opt' names files] self by (auto simp: names_def)
  with first assms(3,4) show ?thesis
    by (auto simp: GetAllHosts_def Let_def others_def number_nth names_def)
qed

definition sample_options :: options where
  "sample_options = \<lparr>o_host_file = ''hosts.txt'', o_self_name = ''xinu02'', o_self_id = None, o_hosts = [],
     o_all_hosts = [], o_port = 9090\<rparr>"

theorem host_ids_agree_witness:
  "\<exists>opt'. GetHosts sample_files sample_options = Inr ([(1, ''xinu01''), (3, ''xinu03'')], opt') \<and>
     fst (GetAllHosts sample_files sample_options) ! 2 = ''xinu03''"
proof -
  have run: "\<exists>opt'. GetHosts sample_files sample_options = Inr ([(1, ''xinu01''), (3, ''xinu03'')], opt')"
    by (simp add: GetHosts_def sample_options_def sample_hosts)
  then obtain opt' where "GetHosts sample_files sample_options = Inr ([(1, ''xinu01''), (3, ''xinu03'')], opt')"
    by blast
  from host_ids_agree [OF this, of 3 "''xinu03''"] run show ?thesis
    by (simp add: sample_options_def)
qed

text \<open>
  \<open>atoi\<close> reads decimal notation, with and without a minus sign, and its result is within
  the 32 bits of an \<open>int\<close>; a number beyond them is undefined behaviour.
\<close>

theorem atoi_decimal:
  "atoi (decimal n) = (if n < 2 ^ 31 then Inr (int n) else Inl Int_overflow) \<and>
   atoi (CHR ''-'' # decimal n) = (if n \<le> 2 ^ 31 then Inr (- int n) else Inl Int_overflow)"
proof
  obtain c s where c: "decimal n = c # s" "\<not> is_space c" "c \<noteq> CHR ''-''" "c \<noteq> CHR ''+''"
    using decimal_front by blast
  then have "atoi (decimal n) = (if int n < 2 ^ 31 then Inr (int n) else Inl Int_overflow)"
    using read_decimal [of n] by (simp add: atoi_def)
  then show "atoi (decimal n) = (if n < 2 ^ 31 then Inr (int n) else Inl Int_overflow)" by simp
  show "atoi (CHR ''-'' # decimal n) = (if n \<le> 2 ^ 31 then Inr (- int n) else Inl Int_overflow)"
    using read_decimal [of n] by (simp add: atoi_def is_space_def)
qed

text \<open>A hosts file with one name per line is read back as the list of its names.\<close>

theorem hosts_file_roundtrip:
  assumes "list_all is_word ws" and "files (o_host_file opt) = one_per_line ws" and "o_all_hosts opt = []"
  shows "fst (GetAllHosts files opt) = ws"
  using read_lines [OF assms(1)] assms(2,3) by (simp add: GetAllHosts_def Let_def)

theorem hosts_file_roundtrip_witness:
  "fst (GetAllHosts sample_files sample_options) = [''xinu01'', ''xinu02'', ''xinu03'']"
  by (rule hosts_file_roundtrip)
    (simp_all add: sample_options_def sample_files_def one_per_line_def is_word_def is_space_def)

end
