(* ===== verification/Client_Main.thy ===== *)
theory Client_Main
  imports Perf_Report Options_Model
begin

text \<open>
  The client program, \<open>client/client_main.cpp\<close>: its parameters, one test thread from the
  construction of its client to the figures it writes.
\<close>

section \<open>A test thread\<close>

text \<open>
  \<open>main\<close> sets every ratio but that of \<open>perf_rmdir\<close>: \<open>junk\<close> is what the uninitialised member
  holds.  Every thread has its own file of results.
\<close>

definition perf_filename :: "nat \<Rightarrow> string" where
  "perf_filename i = decimal i @ ''perf_test.log''"

definition main_params :: "nat \<Rightarrow> int \<Rightarrow> perf_params" where
  "main_params i junk =
     \<lparr>pp_filename = perf_filename i,
      pp_cmd_ratio = (\<lambda>c. case c of perf_rmdir \<Rightarrow> junk | perf_listdir \<Rightarrow> 30 | perf_getfinfo \<Rightarrow> 70 | _ \<Rightarrow> 0),
      pp_max_cmds = 500\<rparr>"

datatype 'w thread_end =
    Thread_undefined ub
  | Thread_threw thrown 'w
  | Assertion_failed 'w
  | Never_returns
  | Finished perf_stats bool 'w

fun thread_then :: "('a, 'w) call_result \<Rightarrow> ('a \<Rightarrow> fs_client \<Rightarrow> 'w \<Rightarrow> 'w thread_end) \<Rightarrow> 'w thread_end" where
  "thread_then (Inl u) f = Thread_undefined u"
| "thread_then (Inr (Inl e, cl, w)) f = Thread_threw e w"
| "thread_then (Inr (Inr v, cl, w)) f = f v cl w"

text \<open>
  The section under the lock: the first thread to take it finds \<open>init\<close> set, makes the tree on
  the servers and clears the flag.
\<close>

definition locked_section ::
  "'w network \<Rightarrow> bool \<Rightarrow> perf_test \<Rightarrow> fs_client \<Rightarrow> 'w \<Rightarrow> (perf_test \<times> bool, 'w) call_result"
where
  "locked_section net init ptest1 cl w =
     c_then (create_test_tree net 2 init ptest1 cl w) (\<lambda>pt cl1 w1.
     c_return (pt, if init then False else init) cl1 w1)"

text \<open>
  A thread that finishes leaves its figures and the flag.  \<open>rnd seed k\<close> is the \<open>k\<close>-th value of
  \<open>rand()\<close> after \<open>srand(seed)\<close>, \<open>time\<close> the clock in seconds.
\<close>

definition test_thread ::
  "'w network \<Rightarrow> ('w \<Rightarrow> int) \<Rightarrow> ('w \<Rightarrow> nat) \<Rightarrow> (string \<Rightarrow> bool) \<Rightarrow> (int \<Rightarrow> int \<Rightarrow> int) \<Rightarrow> int \<Rightarrow> string list \<Rightarrow> nat \<Rightarrow> (nat \<Rightarrow> nat \<Rightarrow> nat) \<Rightarrow> int \<times> int \<times> int \<Rightarrow> perf_params \<Rightarrow> bool \<Rightarrow> 'w \<Rightarrow> 'w thread_end"
where
  "test_thread net now time opens scale port hosts r rnd mem param init w =
     thread_then (new_FSClient net port hosts r w) (\<lambda>_ cl w1.
     case new_PerfTest opens scale mem param (time w1) of
       None \<Rightarrow> Assertion_failed w1
     | Some (ptest1, seed) \<Rightarrow>
         thread_then (locked_section net init ptest1 cl w1) (\<lambda>(pt, init1) cl2 w2.
         case perf_run net now (rnd seed) 0 0 pt cl2 w2 of
           None \<Rightarrow> Never_returns
         | Some res \<Rightarrow>
             thread_then res (\<lambda>pt3 cl3 w3.
             case result_write_stats net pt3 cl3 w3 of
               Inl u \<Rightarrow> Thread_undefined u
             | Inr stats \<Rightarrow> Finished stats init1 (delete_FSClient net cl3 w3))))"

text \<open>
  \<open>main\<close> reads the options and makes a client of its own before it starts the threads; they
  share the options object, so they see the hosts that this client has read.
\<close>

definition client_main_start ::
  "'w network \<Rightarrow> (string \<Rightarrow> string) \<Rightarrow> string list \<Rightarrow> nat \<Rightarrow> 'w \<Rightarrow> (options \<times> (unit, 'w) call_result) run"
where
  "client_main_start net files argv r w =
     run_then (new_Options argv) (\<lambda>opt.
     let (hosts, opt1) = GetAllHosts files opt in Inr (opt1, new_FSClient net (GetPort opt1) hosts r w))"

definition client_thread ::
  "'w network \<Rightarrow> ('w \<Rightarrow> int) \<Rightarrow> ('w \<Rightarrow> nat) \<Rightarrow> (string \<Rightarrow> bool) \<Rightarrow> (int \<Rightarrow> int \<Rightarrow> int) \<Rightarrow> (string \<Rightarrow> string) \<Rightarrow> options \<Rightarrow> nat \<Rightarrow> (nat \<Rightarrow> nat \<Rightarrow> nat) \<Rightarrow> int \<times> int \<times> int \<Rightarrow> perf_params \<Rightarrow> bool \<Rightarrow> 'w \<Rightarrow> 'w thread_end"
where
  "client_thread net now time opens scale files opt r rnd mem param init w =
     test_thread net now time opens scale (GetPort opt) (fst (GetAllHosts files opt)) r rnd mem param init w"

text \<open>With the same hosts file, a thread talks to the hosts that the first client has read.\<close>

lemma client_thread_hosts:
  assumes "client_main_start net files argv r w = Inr (opt, res)"
  shows "client_thread net now time opens scale files opt r' rnd mem param init w' =
    test_thread net now time opens scale (o_port opt) (file_words (files (argv ! 2))) r' rnd mem param init w'"
proof -
  from assms obtain opt0 where "new_Options argv = Inr opt0" and "opt = snd (GetAllHosts files opt0)"
    by (auto simp: client_main_start_def run_then_def Let_def split: sum.splits prod.splits)
  then show ?thesis
    by (auto simp: new_Options_def GetAllHosts_def GetPort_def client_thread_def Let_def split: if_splits sum.splits)
qed


section \<open>What the program measures\<close>

lemma create_test_tree_2:
  assumes "create_test_tree net 2 do_rpc pt cl w = Inr (Inr pt', cl', w')"
  shows "pt' = pt\<lparr>pt_read_tree := pt_read_tree pt @ fst test_case_2, pt_write_tree := pt_write_tree pt @ snd test_case_2\<rparr>"
  using assms
  by (auto simp: create_test_tree_def c_then_def and_then_def c_return_def split: sum.splits if_splits)

lemma accounts_tree: "accounts_ok (pt\<lparr>pt_read_tree := rt, pt_write_tree := wt\<rparr>) = accounts_ok pt"
  by (simp add: accounts_ok_def)

lemma num_reads:
  "pt_read_count pt = int (num_of perf_listdir (pt_records pt)) + int (num_of perf_getfinfo (pt_records pt))"
  if "accounts_ok pt"
proof -
  have "length recs = length (writes recs) + num_of perf_listdir recs + num_of perf_getfinfo recs" for recs
    by (induction recs) (auto simp: writes_def num_of_def is_write_def)
  from this [of "pt_records pt"] that show ?thesis by (simp add: accounts_ok_def)
qed


lemma counts_full:
  assumes "accounts_ok pt" and "pt_total pt \<le> pt_executed pt" and "\<forall>c. c \<noteq> a \<and> c \<noteq> b \<longrightarrow> pt_limit pt c \<le> 0"
    and "a \<noteq> b" and "0 \<le> pt_limit pt a" and "0 \<le> pt_limit pt b" and "pt_limit pt a + pt_limit pt b = pt_total pt"
  shows "int (num_of a (pt_records pt)) = pt_limit pt a \<and> int (num_of b (pt_records pt)) = pt_limit pt b"
proof -
  let ?n = "\<lambda>c. num_of c (pt_records pt)"
  have le: "int (?n c) \<le> max 0 (pt_limit pt c)" for c
    using assms(1) by (simp add: accounts_ok_def) metis
  then have zero: "c \<noteq> a \<Longrightarrow> c \<noteq> b \<Longrightarrow> ?n c = 0" for c using assms(3) by (metis le_zero_eq max.absorb1 of_nat_le_0_iff)
  have "(\<Sum>c\<leftarrow>all_cmds. ?n c) = (\<Sum>c \<in> {a, b}. ?n c)"
  proof -
    have "(\<Sum>c\<leftarrow>all_cmds. ?n c) = (\<Sum>c \<in> set all_cmds. ?n c)"
      by (intro sum_list_distinct_conv_sum_set) (simp add: all_cmds_def)
    also have "\<dots> = (\<Sum>c \<in> {a, b}. ?n c)"
      using zero in_all_cmds by (intro sum.mono_neutral_right) auto
    finally show ?thesis .
  qed
  then have "length (pt_records pt) = ?n a + ?n b" using all_counts [of "pt_records pt"] assms(4) by simp
  moreover have "pt_total pt \<le> int (length (pt_records pt))" using assms(1,2) by (simp add: accounts_ok_def)
  ultimately show ?thesis using le [of a] le [of b] assms(5,6,7) by simp
qed

lemma thread_then_ends:
  "thread_then r f = Finished stats init' w' \<longleftrightarrow> (\<exists>v cl w. r = Inr (Inr v, cl, w) \<and> f v cl w = Finished stats init' w')"
  "thread_then r f = Assertion_failed w' \<longleftrightarrow> (\<exists>v cl w. r = Inr (Inr v, cl, w) \<and> f v cl w = Assertion_failed w')"
  "thread_then r f = Never_returns \<longleftrightarrow> (\<exists>v cl w. r = Inr (Inr v, cl, w) \<and> f v cl w = Never_returns)"
  by (cases "(r, f)" rule: thread_then.cases; auto)+

lemma stats_written:
  "(case x of Inl u \<Rightarrow> Thread_undefined u | Inr stats \<Rightarrow> Finished stats i w1) = Finished s i' w' \<longleftrightarrow> x = Inr s \<and> i = i' \<and> w1 = w'"
  "(case x of Inl u \<Rightarrow> Thread_undefined u | Inr stats \<Rightarrow> Finished stats i w1) \<noteq> Assertion_failed w'"
  "(case x of Inl u \<Rightarrow> Thread_undefined u | Inr stats \<Rightarrow> Finished stats i w1) \<noteq> Never_returns"
  by (cases x; simp)+

lemma locked_section_eq:
  "locked_section net init pt cl w = Inr (Inr (pt', init'), cl', w') \<longleftrightarrow>
     create_test_tree net 2 init pt cl w = Inr (Inr pt', cl', w') \<and> \<not> init'"
  by (auto simp: locked_section_def c_then_def and_then_def c_return_def split: sum.splits)

lemma test_thread_finished:
  assumes "test_thread net now time opens scale port hosts r rnd mem param init w = Finished stats init' w'"
    and new: "\<And>t. new_PerfTest opens scale mem param t = Some (pt0, t)"
  shows "\<exists>cl1 w1 pt cl2 w2 pt3 cl3 w3 seed. create_test_tree net 2 init pt0 cl1 w1 = Inr (Inr pt, cl2, w2) \<and>
    perf_run net now (rnd seed) 0 0 pt cl2 w2 = Some (Inr (Inr pt3, cl3, w3)) \<and> result_write_stats net pt3 cl3 w3 = Inr stats \<and> \<not> init'"
proof -
  from assms obtain cl1 w1 pt b cl2 w2 seed where tree: "create_test_tree net 2 init pt0 cl1 w1 = Inr (Inr pt, cl2, w2)" and b: "\<not> b"
    and rest: "(case perf_run net now (rnd seed) 0 0 pt cl2 w2 of None \<Rightarrow> Never_returns
         | Some res \<Rightarrow> thread_then res (\<lambda>pt3 cl3 w3. case result_write_stats net pt3 cl3 w3 of
               Inl u \<Rightarrow> Thread_undefined u | Inr stats \<Rightarrow> Finished stats b (delete_FSClient net cl3 w3))) = Finished stats init' w'"
    by (auto simp: test_thread_def thread_then_ends(1) locked_section_eq)
  from rest b obtain pt3 cl3 w3 where "perf_run net now (rnd seed) 0 0 pt cl2 w2 = Some (Inr (Inr pt3, cl3, w3))"
    "result_write_stats net pt3 cl3 w3 = Inr stats" "\<not> init'"
    by (auto simp: thread_then_ends(1) stats_written split: option.split_asm)
  with tree show ?thesis by blast
qed

lemma new_PerfTest_executed: "new_PerfTest opens scale mem paras time = Some (pt, seed) \<Longrightarrow> pt_executed pt = 0"
  by (auto simp: new_PerfTest_def Let_def split: if_splits)

definition main_limit :: "int \<Rightarrow> perf_cmd \<Rightarrow> int" where
  "main_limit j = (\<lambda>c. case c of perf_rmdir \<Rightarrow> j | perf_listdir \<Rightarrow> 150 | perf_getfinfo \<Rightarrow> 350 | _ \<Rightarrow> 0)"

text \<open>A test of \<open>main\<close>, its end, and the figures.\<close>

definition test_ok :: "int \<Rightarrow> perf_test \<Rightarrow> bool" where
  "test_ok j pt \<longleftrightarrow> accounts_ok pt \<and> pt_total pt = 500 \<and> pt_limit pt = main_limit j"

definition main_figures :: "perf_stats \<Rightarrow> bool" where
  "main_figures stats \<longleftrightarrow> ps_num stats perf_listdir = 150 \<and> ps_num stats perf_getfinfo = 350 \<and>
     ps_read stats = 500 \<and> ps_write stats = 0"

lemma test_ok_reads: "test_ok j pt \<Longrightarrow> j \<le> 0 \<Longrightarrow> \<forall>c. is_write c \<longrightarrow> pt_limit pt c \<le> 0"
  by (auto simp: test_ok_def main_limit_def is_write_def split: perf_cmd.splits)

lemma test_ok_total: "test_ok j pt \<Longrightarrow> pt_total pt \<le> sum_list (map (\<lambda>c. max 0 (pt_limit pt c)) all_cmds)"
  by (simp add: test_ok_def main_limit_def all_cmds_def)

lemma test_ok_executed: "test_ok j pt \<Longrightarrow> 0 \<le> pt_executed pt \<and> pt_executed pt \<le> 500"
  by (auto simp: test_ok_def accounts_ok_def)

lemma main_counts:
  assumes "test_ok j pt" and "j \<le> 0" and "pt_total pt \<le> pt_executed pt"
  shows "num_of perf_listdir (pt_records pt) = 150 \<and> num_of perf_getfinfo (pt_records pt) = 350 \<and>
    pt_read_count pt = 500 \<and> pt_write_count pt = 0"
proof -
  have ok: "accounts_ok pt" and total: "pt_total pt = 500" and limit: "pt_limit pt = main_limit j"
    using assms(1) by (simp_all add: test_ok_def)
  have "int (num_of perf_listdir (pt_records pt)) = pt_limit pt perf_listdir \<and>
      int (num_of perf_getfinfo (pt_records pt)) = pt_limit pt perf_getfinfo"
    by (rule counts_full [OF ok assms(3)]) (use total limit assms(2) in \<open>auto simp: main_limit_def split: perf_cmd.splits\<close>)
  then have n: "num_of perf_listdir (pt_records pt) = 150" "num_of perf_getfinfo (pt_records pt) = 350"
    by (simp_all add: limit main_limit_def)
  with num_reads [OF ok] have "pt_read_count pt = 500" by simp
  moreover have "pt_read_count pt + pt_write_count pt \<le> 500" "0 \<le> pt_write_count pt"
    using ok total by (simp_all add: accounts_ok_def)
  ultimately show ?thesis using n by simp
qed

lemma main_stats:
  assumes "test_ok j pt" and "j \<le> 0" and "pt_total pt \<le> pt_executed pt" and "result_write_stats net pt cl w = Inr stats"
  shows "main_figures stats"
  using main_counts [OF assms(1-3)] by (simp add: main_figures_def stats_fields [OF assms(4)])

lemma main_test_new:
  assumes "scale 500 0 = 0" and "scale 500 30 = 150" and "scale 500 70 = 350"
  shows "opens (perf_filename i) \<Longrightarrow> scale 500 junk \<le> 0 \<Longrightarrow>
      \<exists>pt. (\<forall>t. new_PerfTest opens scale mem (main_params i junk) t = Some (pt, t)) \<and> test_ok (scale 500 junk) pt"
    and "\<not> opens (perf_filename i) \<or> 0 < scale 500 junk \<Longrightarrow> new_PerfTest opens scale mem (main_params i junk) t = None"
proof -
  assume "opens (perf_filename i)" "scale 500 junk \<le> 0"
  then obtain pt where new: "\<And>t. new_PerfTest opens scale mem (main_params i junk) t = Some (pt, t)"
    and "pt_total pt = 500" "pt_limit pt = main_limit (scale 500 junk)"
    using assms by (auto simp: new_PerfTest_def main_params_def main_limit_def all_cmds_def Let_def fun_eq_iff split: perf_cmd.splits)
  with new_PerfTest_accounts [OF new]
  show "\<exists>pt. (\<forall>t. new_PerfTest opens scale mem (main_params i junk) t = Some (pt, t)) \<and> test_ok (scale 500 junk) pt"
    by (auto simp: test_ok_def)
qed (use assms in \<open>auto simp: new_PerfTest_def main_params_def all_cmds_def Let_def\<close>)

lemma main_run:
  assumes "test_ok j pt" and "j \<le> 0" and run: "perf_run net now rnd k 0 pt cl w = Some (Inr (Inr pt', cl', w'))"
  shows "test_ok j pt' \<and> pt_total pt' \<le> pt_executed pt'"
  using perf_run_accounts [OF run] read_only_complete [OF run test_ok_reads [OF assms(1,2)]] assms(1)
  by (simp add: test_ok_def)

lemma main_test_tree:
  assumes "create_test_tree net 2 do_rpc pt cl w = Inr (Inr pt', cl', w')"
  shows "test_ok j pt' = test_ok j pt" "pt_executed pt' = pt_executed pt"
  using create_test_tree_2 [OF assms] by (simp_all add: test_ok_def accounts_tree)

text \<open>
  The test that \<open>main\<close> runs: when its file can be opened and the uninitialised ratio does not come
  out positive, a test thread passes the assertions and its main loop ends, and a thread that
  finishes reports 150 listings, 350 file queries and no change, and leaves the flag cleared.
\<close>

lemma main_test_outcome:
  assumes "scale 500 0 = 0" and "scale 500 30 = 150" and "scale 500 70 = 350" and junk: "scale 500 junk \<le> 0"
    and opens: "opens (perf_filename i)" and "\<forall>seed c k. \<exists>m \<ge> k. cmd_of (rnd seed m) = c"
  shows "case test_thread net now time opens scale port hosts r rnd mem (main_params i junk) init w of
      Assertion_failed w' \<Rightarrow> False
    | Never_returns \<Rightarrow> False
    | Finished stats init' w' \<Rightarrow> main_figures stats \<and> \<not> init'
    | _ \<Rightarrow> True"
proof -
  from main_test_new(1) [of scale opens i junk mem, OF assms(1-3) opens junk] obtain pt0
    where new: "\<And>t. new_PerfTest opens scale mem (main_params i junk) t = Some (pt0, t)" and ok: "test_ok (scale 500 junk) pt0" by blast
  have later: "\<exists>res. perf_run net now (rnd seed) 0 0 pt cl' w' = Some res"
    if "create_test_tree net 2 init pt0 cl w1 = Inr (Inr pt, cl', w')" for pt cl cl' w1 w' seed
  proof -
    have pt: "test_ok (scale 500 junk) pt" using ok by (simp add: main_test_tree [OF that])
    have "\<forall>c k. \<exists>m \<ge> k. cmd_of (rnd seed m) = c" using assms(6) by blast
    from perf_run_returns [OF this _ test_ok_total [OF pt]] pt show ?thesis by (simp add: test_ok_def)
  qed
  show ?thesis
  proof (cases "test_thread net now time opens scale port hosts r rnd mem (main_params i junk) init w")
    case (Finished stats init' w')
    from test_thread_finished [OF this new] obtain cl0 w0 pt cl w1 pt' cl' w2 seed where
      tree: "create_test_tree net 2 init pt0 cl0 w0 = Inr (Inr pt, cl, w1)"
      and run: "perf_run net now (rnd seed) 0 0 pt cl w1 = Some (Inr (Inr pt', cl', w2))"
      and stats: "result_write_stats net pt' cl' w2 = Inr stats" "\<not> init'"
      by blast
    have "test_ok (scale 500 junk) pt" using ok by (simp add: main_test_tree [OF tree])
    from main_stats [OF _ junk _ stats(1)] main_run [OF this junk run] stats(2) show ?thesis by (simp add: Finished)
  next
    case (Assertion_failed w')
    then show ?thesis
      by (auto simp: test_thread_def new thread_then_ends stats_written locked_section_eq split: option.split_asm)
  next
    case Never_returns
    then obtain pt cl1 w1 cl' w' seed where "create_test_tree net 2 init pt0 cl1 w1 = Inr (Inr pt, cl', w')"
      "perf_run net now (rnd seed) 0 0 pt cl' w' = None"
      by (auto simp: test_thread_def new thread_then_ends stats_written locked_section_eq split: option.split_asm)
    with later [OF this(1), of seed] show ?thesis by simp
  qed simp_all
qed

text \<open>Otherwise the thread fails in an assertion, and with it the program.\<close>

lemma uninitialised_ratio_fails:
  assumes "scale 500 0 = 0" and "scale 500 30 = 150" and "scale 500 70 = 350"
    and "\<not> opens (perf_filename i) \<or> 0 < scale 500 junk"
    and "new_FSClient net port hosts r w = c_return () cl w1"
  shows "test_thread net now time opens scale port hosts r rnd mem (main_params i junk) init w = Assertion_failed w1"
  using main_test_new(2) [of scale opens i junk mem, OF assms(1-4)] assms(5) by (simp add: test_thread_def c_return_def)

end
