(* ===== verification/Client_Threads.thy ===== *)
theory Client_Threads
  imports Client_Main
begin

text \<open>
  The client program with its threads: \<open>main\<close> spawns three test threads and joins them.  The
  threads share the flag \<open>init\<close>, the generator of random numbers and the servers.  A step is
  one of a thread (its construction, its section under the lock, a round of its main loop, its
  end), one of \<open>main\<close>, or one of the world outside; steps of the threads interleave freely.
\<close>

section \<open>The program\<close>

text \<open>
  What the program is run with.  \<open>st_rand seed k\<close> is the \<open>k\<close>-th value of \<open>rand()\<close> after
  \<open>srand(seed)\<close>, \<open>st_time\<close> the clock in seconds, \<open>st_opens\<close> says which files can be opened,
  \<open>st_mem i\<close> is what the unset members of the test of thread \<open>i\<close> hold, and \<open>st_env\<close> says how the
  world may change on its own.
\<close>

record 'w setting =
  st_net :: "'w network"
  st_now :: "'w \<Rightarrow> int"
  st_scale :: "int \<Rightarrow> int \<Rightarrow> int"
  st_port :: int
  st_hosts :: "string list"
  st_rand :: "nat \<Rightarrow> nat \<Rightarrow> nat"
  st_time :: "'w \<Rightarrow> nat"
  st_opens :: "string \<Rightarrow> bool"
  st_mem :: "nat \<Rightarrow> int \<times> int \<times> int"
  st_param :: perf_params
  st_env :: "'w \<Rightarrow> 'w \<Rightarrow> bool"

datatype thread_phase =
    Not_started
  | Before_lock perf_test fs_client
  | In_loop nat perf_test fs_client
  | Thread_done perf_stats

record 'w program =
  pg_spawned :: nat
  pg_phase :: "nat \<Rightarrow> thread_phase"
  pg_init :: bool
  pg_seed :: nat
  pg_next :: nat
  pg_world :: 'w

text \<open>An exception that leaves a thread, like a failed assertion, ends the program.\<close>

datatype thread_failure = Undefined_by ub | Uncaught thrown | Assertion

fun go_on :: "('a, 'w) call_result \<Rightarrow> ('a \<Rightarrow> fs_client \<Rightarrow> 'w \<Rightarrow> thread_failure + 'b) \<Rightarrow> thread_failure + 'b" where
  "go_on (Inl u) f = Inl (Undefined_by u)"
| "go_on (Inr (Inl e, cl, w)) f = Inl (Uncaught e)"
| "go_on (Inr (Inr v, cl, w)) f = f v cl w"

definition set_phase :: "nat \<Rightarrow> thread_phase \<Rightarrow> 'w \<Rightarrow> 'w program \<Rightarrow> 'w program" where
  "set_phase i ph w p = p\<lparr>pg_phase := (pg_phase p)(i := ph), pg_world := w\<rparr>"

text \<open>
  The construction of the client and the test: the next random number names the follower, and
  the test seeds the generator, which the threads share, anew.
\<close>

definition start_thread :: "'w setting \<Rightarrow> nat \<Rightarrow> 'w program \<Rightarrow> thread_failure + 'w program" where
  "start_thread S i p =
     go_on (new_FSClient (st_net S) (st_port S) (st_hosts S) (st_rand S (pg_seed p) (pg_next p)) (pg_world p)) (\<lambda>_ cl w.
     case new_PerfTest (st_opens S) (st_scale S) (st_mem S i) ((st_param S)\<lparr>pp_filename := perf_filename i\<rparr>) (st_time S w) of
       None \<Rightarrow> Inl Assertion
     | Some (pt, seed) \<Rightarrow> Inr (set_phase i (Before_lock pt cl) w (p\<lparr>pg_seed := seed, pg_next := 0\<rparr>)))"

definition lock_thread :: "'w setting \<Rightarrow> nat \<Rightarrow> perf_test \<Rightarrow> fs_client \<Rightarrow> 'w program \<Rightarrow> thread_failure + 'w program" where
  "lock_thread S i pt cl p =
     go_on (locked_section (st_net S) (pg_init p) pt cl (pg_world p)) (\<lambda>(pt', init') cl' w.
     Inr (set_phase i (In_loop 0 pt' cl') w (p\<lparr>pg_init := init'\<rparr>)))"

definition end_thread :: "'w setting \<Rightarrow> nat \<Rightarrow> perf_test \<Rightarrow> fs_client \<Rightarrow> 'w \<Rightarrow> 'w program \<Rightarrow> thread_failure + 'w program" where
  "end_thread S i pt cl w p =
     (case result_write_stats (st_net S) pt cl w of
        Inl u \<Rightarrow> Inl (Undefined_by u)
      | Inr stats \<Rightarrow> Inr (set_phase i (Thread_done stats) (delete_FSClient (st_net S) cl w) p))"

text \<open>\<open>None\<close>: the thread has ended, or it draws random numbers forever.\<close>

definition loop_thread ::
  "'w setting \<Rightarrow> nat \<Rightarrow> nat \<Rightarrow> perf_test \<Rightarrow> fs_client \<Rightarrow> 'w program \<Rightarrow> (thread_failure + 'w program) option"
where
  "loop_thread S i no_valid pt cl p =
     (if pt_executed pt < pt_total pt
      then case perf_round (st_net S) (st_now S) (st_rand S (pg_seed p)) (pg_next p) no_valid pt cl (pg_world p) of
             Draws_forever \<Rightarrow> None
           | Loop_ends k r \<Rightarrow> Some (go_on r (\<lambda>pt' cl' w. end_thread S i pt' cl' w (p\<lparr>pg_next := k\<rparr>)))
           | Next_round k no_valid' pt' cl' w \<Rightarrow> Some (Inr (set_phase i (In_loop no_valid' pt' cl') w (p\<lparr>pg_next := k\<rparr>)))
      else Some (end_thread S i pt cl (pg_world p) p))"

definition thread_step :: "'w setting \<Rightarrow> nat \<Rightarrow> 'w program \<Rightarrow> (thread_failure + 'w program) option" where
  "thread_step S i p =
     (case pg_phase p i of
        Not_started \<Rightarrow> Some (start_thread S i p)
      | Before_lock pt cl \<Rightarrow> Some (lock_thread S i pt cl p)
      | In_loop no_valid pt cl \<Rightarrow> loop_thread S i no_valid pt cl p
      | Thread_done stats \<Rightarrow> None)"

definition client_num :: nat where
  "client_num = 3"

datatype program_label = Main_spawns | Moves nat | Locks nat bool | Others

definition label_of :: "nat \<Rightarrow> 'w program \<Rightarrow> program_label" where
  "label_of i p = (case pg_phase p i of Before_lock pt cl \<Rightarrow> Locks i (pg_init p) | _ \<Rightarrow> Moves i)"

inductive program_step :: "'w setting \<Rightarrow> 'w program \<Rightarrow> program_label \<Rightarrow> 'w program \<Rightarrow> bool" for S where
  spawn: "pg_spawned p < client_num \<Longrightarrow> program_step S p Main_spawns (p\<lparr>pg_spawned := Suc (pg_spawned p)\<rparr>)"
| thread: "i < pg_spawned p \<Longrightarrow> thread_step S i p = Some (Inr p') \<Longrightarrow> program_step S p (label_of i p) p'"
| others: "st_env S (pg_world p) w \<Longrightarrow> program_step S p Others (p\<lparr>pg_world := w\<rparr>)"

inductive_cases program_stepE: "program_step S p l p'"

text \<open>\<open>main\<close> has seeded the generator, and its own client has drawn \<open>k\<close> values.\<close>

definition program_start :: "nat \<Rightarrow> nat \<Rightarrow> 'w \<Rightarrow> 'w program" where
  "program_start seed k w =
     \<lparr>pg_spawned = 0, pg_phase = (\<lambda>_. Not_started), pg_init = True, pg_seed = seed, pg_next = k, pg_world = w\<rparr>"

text \<open>The runs of the program from a start, with the labels of their steps in order.\<close>

inductive program_run :: "'w setting \<Rightarrow> 'w program \<Rightarrow> program_label list \<Rightarrow> 'w program \<Rightarrow> bool" for S p0 where
  start: "program_run S p0 [] p0"
| step: "program_run S p0 ls p \<Longrightarrow> program_step S p l p' \<Longrightarrow> program_run S p0 (ls @ [l]) p'"

text \<open>\<open>main\<close> returns when it has joined every thread.\<close>

definition all_joined :: "'w program \<Rightarrow> bool" where
  "all_joined p \<longleftrightarrow> pg_spawned p = client_num \<and>
     (\<forall>i < client_num. case pg_phase p i of Thread_done _ \<Rightarrow> True | _ \<Rightarrow> False)"

text \<open>The files of the results: every thread has its own.\<close>

definition result_file :: "string \<Rightarrow> (int \<Rightarrow> int \<Rightarrow> string) \<Rightarrow> perf_stats \<Rightarrow> string list" where
  "result_file ctime ratio stats = result_write_head ctime @ stats_text ratio stats"

lemma perf_filename_inj: "perf_filename i = perf_filename j \<Longrightarrow> i = j"
  unfolding perf_filename_def append_same_eq by (metis of_nat_eq_iff read_decimal)


section \<open>The steps of a thread\<close>

lemma set_phase_fields [simp]:
  "pg_phase (set_phase i ph w p) = (pg_phase p)(i := ph)" "pg_world (set_phase i ph w p) = w"
  "pg_spawned (set_phase i ph w p) = pg_spawned p" "pg_init (set_phase i ph w p) = pg_init p"
  "pg_next (set_phase i ph w p) = pg_next p" "pg_seed (set_phase i ph w p) = pg_seed p"
  by (simp_all add: set_phase_def)

lemma go_on_Inr: "go_on r f = Inr y \<longleftrightarrow> (\<exists>v cl w. r = Inr (Inr v, cl, w) \<and> f v cl w = Inr y)"
  by (cases "(r, f)" rule: go_on.cases) auto

lemma end_thread_Inr:
  "end_thread S i pt cl w p = Inr p' \<longleftrightarrow> (\<exists>stats. result_write_stats (st_net S) pt cl w = Inr stats \<and>
     p' = set_phase i (Thread_done stats) (delete_FSClient (st_net S) cl w) p)"
  by (auto simp: end_thread_def split: sum.splits)

lemma loop_thread_cases:
  assumes "loop_thread S i no_valid pt cl p = Some (Inr p')"
  obtains (Round) k no_valid' pt' cl' w where "pt_executed pt < pt_total pt"
      "perf_round (st_net S) (st_now S) (st_rand S (pg_seed p)) (pg_next p) no_valid pt cl (pg_world p) = Next_round k no_valid' pt' cl' w"
      "p' = set_phase i (In_loop no_valid' pt' cl') w (p\<lparr>pg_next := k\<rparr>)"
  | (Ends) stats k where "pt_executed pt < pt_total pt \<longrightarrow> 1000 < no_valid"
      "result_write_stats (st_net S) pt cl (pg_world p) = Inr stats"
      "p' = set_phase i (Thread_done stats) (delete_FSClient (st_net S) cl (pg_world p)) (p\<lparr>pg_next := k\<rparr>)"
proof (cases "pt_executed pt < pt_total pt")
  case True
  show thesis
  proof (cases "perf_round (st_net S) (st_now S) (st_rand S (pg_seed p)) (pg_next p) no_valid pt cl (pg_world p)")
    case (Loop_ends k r)
    with assms True obtain pt' cl' w stats where r: "r = Inr (Inr pt', cl', w)"
      and stats: "result_write_stats (st_net S) pt' cl' w = Inr stats"
        "p' = set_phase i (Thread_done stats) (delete_FSClient (st_net S) cl' w) (p\<lparr>pg_next := k\<rparr>)"
      by (auto simp: loop_thread_def go_on_Inr end_thread_Inr)
    with perf_round_ends Loop_ends have "pt' = pt \<and> cl' = cl \<and> w = pg_world p \<and> 1000 < no_valid" by metis
    with stats that(2) show thesis by simp
  qed (use assms True that(1) in \<open>auto simp: loop_thread_def\<close>)
next
  case False
  with assms obtain stats where "result_write_stats (st_net S) pt cl (pg_world p) = Inr stats"
    "p' = set_phase i (Thread_done stats) (delete_FSClient (st_net S) cl (pg_world p)) (p\<lparr>pg_next := pg_next p\<rparr>)"
    by (auto simp: loop_thread_def end_thread_Inr)
  with False that(2) show thesis by blast
qed

lemma thread_step_cases [consumes 1, case_names Starts Locked Round Ends]:
  assumes "thread_step S i p = Some (Inr p')"
  obtains cl w pt seed where "pg_phase p i = Not_started"
      "new_FSClient (st_net S) (st_port S) (st_hosts S) (st_rand S (pg_seed p) (pg_next p)) (pg_world p) = Inr (Inr (), cl, w)"
      "new_PerfTest (st_opens S) (st_scale S) (st_mem S i) ((st_param S)\<lparr>pp_filename := perf_filename i\<rparr>) (st_time S w) = Some (pt, seed)"
      "p' = set_phase i (Before_lock pt cl) w (p\<lparr>pg_seed := seed, pg_next := 0\<rparr>)"
  | pt cl pt' cl' w where "pg_phase p i = Before_lock pt cl"
      "create_test_tree (st_net S) 2 (pg_init p) pt cl (pg_world p) = Inr (Inr pt', cl', w)"
      "p' = set_phase i (In_loop 0 pt' cl') w (p\<lparr>pg_init := False\<rparr>)"
  | no_valid pt cl k no_valid' pt' cl' w where "pg_phase p i = In_loop no_valid pt cl" "pt_executed pt < pt_total pt"
      "perf_round (st_net S) (st_now S) (st_rand S (pg_seed p)) (pg_next p) no_valid pt cl (pg_world p) = Next_round k no_valid' pt' cl' w"
      "p' = set_phase i (In_loop no_valid' pt' cl') w (p\<lparr>pg_next := k\<rparr>)"
  | no_valid pt cl stats k where "pg_phase p i = In_loop no_valid pt cl" "pt_executed pt < pt_total pt \<longrightarrow> 1000 < no_valid"
      "result_write_stats (st_net S) pt cl (pg_world p) = Inr stats"
      "p' = set_phase i (Thread_done stats) (delete_FSClient (st_net S) cl (pg_world p)) (p\<lparr>pg_next := k\<rparr>)"
proof (cases "pg_phase p i")
  case Not_started
  with assms that(1) show thesis
    by (auto simp: thread_step_def start_thread_def go_on_Inr split: option.splits)
next
  case (Before_lock pt cl)
  with assms that(2) show thesis by (auto simp: thread_step_def lock_thread_def go_on_Inr locked_section_eq)
next
  case (In_loop no_valid pt cl)
  with assms have "loop_thread S i no_valid pt cl p = Some (Inr p')" by (simp add: thread_step_def)
  then show thesis by (cases rule: loop_thread_cases) (use In_loop that(3,4) in blast)+
qed (use assms in \<open>simp add: thread_step_def\<close>)


section \<open>The flag\<close>

text \<open>The sections under the lock in the order of a run, and what each found in the flag.\<close>

fun locks_of :: "program_label list \<Rightarrow> (nat \<times> bool) list" where
  "locks_of [] = []"
| "locks_of (Locks i do_rpc # ls) = (i, do_rpc) # locks_of ls"
| "locks_of (l # ls) = locks_of ls"

definition past_lock :: "thread_phase \<Rightarrow> bool" where
  "past_lock ph = (case ph of Not_started \<Rightarrow> False | Before_lock _ _ \<Rightarrow> False | _ \<Rightarrow> True)"

lemma locks_of_append: "locks_of (ls @ ls') = locks_of ls @ locks_of ls'"
  by (induction ls rule: locks_of.induct) simp_all

lemma past_lock_simps [simp]:
  "\<not> past_lock Not_started" "\<not> past_lock (Before_lock pt cl)" "past_lock (In_loop k pt cl)" "past_lock (Thread_done stats)"
  by (simp_all add: past_lock_def)

lemma thread_step_lock:
  assumes "thread_step S i p = Some (Inr p')"
  shows "locks_of [label_of i p] = [] \<and> pg_init p' = pg_init p \<and> (\<forall>j. past_lock (pg_phase p' j) = past_lock (pg_phase p j)) \<or>
    locks_of [label_of i p] = [(i, pg_init p)] \<and> \<not> pg_init p' \<and> \<not> past_lock (pg_phase p i) \<and>
      (\<forall>j. past_lock (pg_phase p' j) = (j = i \<or> past_lock (pg_phase p j)))"
  using assms by (cases rule: thread_step_cases) (simp_all add: label_of_def)

text \<open>
  What a section does to the servers: the calls that make the tree, of which a client sends
  each once, or the listing alone.
\<close>

definition makes_tree :: "'w network \<Rightarrow> fs_client \<Rightarrow> 'w \<Rightarrow> fs_client \<Rightarrow> 'w \<Rightarrow> bool" where
  "makes_tree net cl w cl' w' \<longleftrightarrow>
     (\<exists>r1 r2 r3 r4 r5 r6 cl1 cl2 cl3 cl4 cl5 w1 w2 w3 w4 w5.
        client_Mkdir net ''/read'' cl w = c_return r1 cl1 w1 \<and>
        client_CreateFile net ''/read/file11'' cl1 w1 = c_return r2 cl2 w2 \<and>
        client_CreateFile net ''/read/file12'' cl2 w2 = c_return r3 cl3 w3 \<and>
        client_CreateFile net ''/read/file13'' cl3 w3 = c_return r4 cl4 w4 \<and>
        client_ListDir net ''/read'' cl4 w4 = c_return r5 cl5 w5 \<and>
        client_Mkdir net ''/write'' cl5 w5 = c_return r6 cl' w')"

definition only_lists :: "'w network \<Rightarrow> fs_client \<Rightarrow> 'w \<Rightarrow> fs_client \<Rightarrow> 'w \<Rightarrow> bool" where
  "only_lists net cl w cl' w' \<longleftrightarrow> (\<exists>r. client_ListDir net ''/read'' cl w = c_return r cl' w')"

lemma c_then_Inr: "c_then r f = Inr (Inr v, cl', w') \<longleftrightarrow> (\<exists>u cl w. r = Inr (Inr u, cl, w) \<and> f u cl w = Inr (Inr v, cl', w'))"
proof (cases r)
  case (Inr x)
  then obtain y cl w where "r = Inr (y, cl, w)" by (cases x) auto
  then show ?thesis by (cases y) simp_all
qed simp

lemma create_test_tree_calls:
  assumes "create_test_tree net 2 do_rpc pt cl w = Inr (Inr pt', cl', w')"
  shows "if do_rpc then makes_tree net cl w cl' w' else only_lists net cl w cl' w'"
proof (cases do_rpc)
  case True
  with assms show ?thesis
    by (simp add: create_test_tree_def tree_calls_def makes_tree_def c_return_def c_then_Inr) blast
next
  case False
  with assms show ?thesis
    by (auto simp: create_test_tree_def only_lists_def c_return_def c_then_Inr)
qed

lemma thread_step_section:
  assumes "thread_step S i p = Some (Inr p')" and "pg_phase p i = Before_lock pt cl"
  shows "\<exists>pt' cl'. pg_phase p' i = In_loop 0 pt' cl' \<and>
    (if pg_init p then makes_tree (st_net S) cl (pg_world p) cl' (pg_world p')
     else only_lists (st_net S) cl (pg_world p) cl' (pg_world p'))"
  using assms(1)
proof (cases rule: thread_step_cases)
  case (Locked pt0 cl0 pt' cl' w)
  with create_test_tree_calls [OF Locked(2)] assms(2) show ?thesis by auto
qed (use assms(2) in simp_all)

lemma flag_run:
  assumes "program_run S (program_start seed k w) ls p"
  shows "distinct (map fst (locks_of ls)) \<and>
    map snd (locks_of ls) = map (\<lambda>j. j = 0) [0 ..< length (locks_of ls)] \<and>
    (pg_init p \<longleftrightarrow> locks_of ls = []) \<and>
    (\<forall>i. i \<in> fst ` set (locks_of ls) \<longleftrightarrow> past_lock (pg_phase p i))"
  using assms
proof induction
  case start
  show ?case by (simp add: program_start_def)
next
  case (step ls p l p')
  from step.hyps(2) show ?case
  proof cases
    case (thread i)
    from thread_step_lock [OF thread(3)] step.IH show ?thesis
      unfolding thread(1) locks_of_append by (elim disjE) (auto simp: image_iff)
  qed (use step.IH in \<open>simp_all add: locks_of_append\<close>)
qed

text \<open>
  C40. The threads agree on who makes the tree.  In a run of the program the first thread that
  enters the section under the lock finds the flag set, every other finds it cleared, no thread
  enters twice, and the threads that have entered are those that have gone on to their main
  loop.  The section of a thread that enters when none has before sends the servers the calls
  that make the tree, in their order; that of any later thread lists \<open>/read\<close> and does nothing
  else to the world.
\<close>

theorem one_thread_makes_tree:
  assumes "program_run S (program_start seed k w) ls p"
  shows "distinct (map fst (locks_of ls)) \<and>
    map snd (locks_of ls) = map (\<lambda>j. j = 0) [0 ..< length (locks_of ls)] \<and>
    (pg_init p \<longleftrightarrow> locks_of ls = []) \<and>
    (\<forall>i. i \<in> fst ` set (locks_of ls) \<longleftrightarrow> past_lock (pg_phase p i)) \<and>
    (\<forall>i pt cl p'. pg_phase p i = Before_lock pt cl \<and> thread_step S i p = Some (Inr p') \<longrightarrow>
      (\<exists>pt' cl'. pg_phase p' i = In_loop 0 pt' cl' \<and>
        (if locks_of ls = [] then makes_tree (st_net S) cl (pg_world p) cl' (pg_world p')
         else only_lists (st_net S) cl (pg_world p) cl' (pg_world p'))))"
  using flag_run [OF assms] thread_step_section by metis


text \<open>Runs that compute: the threads step in the given order.\<close>

fun do_threads :: "'w setting \<Rightarrow> nat list \<Rightarrow> 'w program \<Rightarrow> (program_label list \<times> 'w program) option" where
  "do_threads S [] p = Some ([], p)"
| "do_threads S (i # is) p =
     (if i < pg_spawned p
      then case thread_step S i p of
             Some (Inr p') \<Rightarrow> map_option (\<lambda>(ls, q). (label_of i p # ls, q)) (do_threads S is p')
           | _ \<Rightarrow> None
      else None)"

lemma do_threads_run:
  assumes "program_run S p0 ls0 p" and "do_threads S is p = Some (ls, q)"
  shows "program_run S p0 (ls0 @ ls) q"
  using assms
proof (induction "is" arbitrary: ls0 p ls)
  case (Cons i "is")
  then obtain p' ls' where i: "i < pg_spawned p" "thread_step S i p = Some (Inr p')"
    and ls: "do_threads S is p' = Some (ls', q)" "ls = label_of i p # ls'"
    by (auto split: if_splits option.splits sum.splits)
  from Cons.IH [OF program_run.step [OF Cons.prems(1) program_step.thread [OF i]] ls(1)] ls(2) show ?case by simp
qed simp

definition all_spawned :: "nat \<Rightarrow> nat \<Rightarrow> 'w \<Rightarrow> 'w program" where
  "all_spawned seed k w = (program_start seed k w)\<lparr>pg_spawned := client_num\<rparr>"

lemma all_spawned_run: "program_run S (program_start seed k w) [Main_spawns, Main_spawns, Main_spawns] (all_spawned seed k w)"
proof -
  let ?p = "\<lambda>n. (program_start seed k w)\<lparr>pg_spawned := n\<rparr>"
  have next_one: "program_run S (program_start seed k w) ls (?p n) \<Longrightarrow> n < 3 \<Longrightarrow>
      program_run S (program_start seed k w) (ls @ [Main_spawns]) (?p (Suc n))" for ls n
    using program_run.step [OF _ program_step.spawn, of S "program_start seed k w" ls "?p n"] by (simp add: client_num_def)
  have "program_run S (program_start seed k w) [] (?p 0)"
    using program_run.start [of S "program_start seed k w"] by (simp add: program_start_def)
  from next_one [OF next_one [OF next_one [OF this]]] show ?thesis by (simp add: all_spawned_def client_num_def numeral_3_eq_3)
qed

definition sample_setting :: "unit setting" where
  "sample_setting =
     \<lparr>st_net = one_leader_net, st_now = (\<lambda>_. 0), st_scale = (\<lambda>total percent. total * percent div 100), st_port = 9090,
      st_hosts = [''a'', ''b''], st_rand = (\<lambda>seed m. m), st_time = (\<lambda>_. 0),
      st_opens = (\<lambda>_. True), st_mem = (\<lambda>_. (0, 0, 0)), st_param = main_params 0 0, st_env = (\<lambda>_ _. False)\<rparr>"

text \<open>Thread 1 is the first to lock; it starts its main loop before thread 0 locks.\<close>

lemma sample_threads:
  "case do_threads sample_setting [0, 1, 1, 1, 0] (all_spawned 0 0 ()) of None \<Rightarrow> False
   | Some (ls, p) \<Rightarrow> locks_of ls = [(1, True), (0, False)]"
  by code_simp

lemma sample_run:
  "\<exists>ls p. program_run sample_setting (program_start 0 0 ()) ls p \<and> locks_of ls = [(1, True), (0, False)]"
proof -
  obtain ls p where "do_threads sample_setting [0, 1, 1, 1, 0] (all_spawned 0 0 ()) = Some (ls, p)" "locks_of ls = [(1, True), (0, False)]"
    using sample_threads by (auto split: option.splits)
  with do_threads_run [OF all_spawned_run] show ?thesis by fastforce
qed

lemma sample_second:
  "case do_threads sample_setting [0, 1, 1, 1] (all_spawned 0 0 ()) of None \<Rightarrow> False
   | Some (ls, p) \<Rightarrow> locks_of ls = [(1, True)] \<and>
       (case (pg_phase p 0, thread_step sample_setting 0 p) of (Before_lock pt cl, Some (Inr p')) \<Rightarrow> True | _ \<Rightarrow> False)"
  by code_simp

text \<open>Thread 0 enters after thread 1: it only lists \<open>/read\<close>.\<close>

theorem one_thread_makes_tree_witness:
  "\<exists>ls p pt cl p' cl'. program_run sample_setting (program_start 0 0 ()) ls p \<and> past_lock (pg_phase p 1) \<and>
     pg_phase p 0 = Before_lock pt cl \<and> thread_step sample_setting 0 p = Some (Inr p') \<and>
     only_lists (st_net sample_setting) cl (pg_world p) cl' (pg_world p')"
proof -
  obtain ls p where do_them: "do_threads sample_setting [0, 1, 1, 1] (all_spawned 0 0 ()) = Some (ls, p)"
    and locks: "locks_of ls = [(1, True)]"
    and second: "case (pg_phase p 0, thread_step sample_setting 0 p) of (Before_lock pt cl, Some (Inr p')) \<Rightarrow> True | _ \<Rightarrow> False"
    using sample_second by (auto split: option.splits)
  obtain pt cl p' where p': "pg_phase p 0 = Before_lock pt cl" "thread_step sample_setting 0 p = Some (Inr p')"
    using second by (auto split: thread_phase.splits option.splits sum.splits)
  have run: "program_run sample_setting (program_start 0 0 ()) ([Main_spawns, Main_spawns, Main_spawns] @ ls) p"
    by (rule do_threads_run [OF all_spawned_run do_them])
  have all: "locks_of ([Main_spawns, Main_spawns, Main_spawns] @ ls) = [(1, True)]" by (simp add: locks)
  note h = one_thread_makes_tree [OF run, unfolded all]
  have "past_lock (pg_phase p 1)" using h by force
  moreover have "\<exists>cl'. only_lists (st_net sample_setting) cl (pg_world p) cl' (pg_world p')"
    using h p' by fastforce
  ultimately show ?thesis using run p' by blast
qed


section \<open>The threads end\<close>

definition phase_ok :: "int \<Rightarrow> thread_phase \<Rightarrow> bool" where
  "phase_ok j ph = (case ph of
     Not_started \<Rightarrow> True
   | Before_lock pt cl \<Rightarrow> test_ok j pt \<and> pt_executed pt = 0
   | In_loop no_valid pt cl \<Rightarrow> test_ok j pt \<and> no_valid = 0
   | Thread_done stats \<Rightarrow> main_figures stats)"

text \<open>The steps that a thread has made.\<close>

definition phase_steps :: "thread_phase \<Rightarrow> nat" where
  "phase_steps ph = (case ph of
     Not_started \<Rightarrow> 0
   | Before_lock pt cl \<Rightarrow> 1
   | In_loop no_valid pt cl \<Rightarrow> 2 + nat (pt_executed pt)
   | Thread_done stats \<Rightarrow> 503)"

definition program_ok :: "int \<Rightarrow> program_label list \<Rightarrow> 'w program \<Rightarrow> bool" where
  "program_ok j ls p \<longleftrightarrow> pg_spawned p \<le> client_num \<and> (\<forall>i. phase_ok j (pg_phase p i)) \<and>
     length (filter (\<lambda>l. l \<noteq> Others) ls) = pg_spawned p + (\<Sum>i < client_num. phase_steps (pg_phase p i))"

lemma phase_ok_simps [simp]:
  "phase_ok j Not_started"
  "phase_ok j (Before_lock pt cl) = (test_ok j pt \<and> pt_executed pt = 0)"
  "phase_ok j (In_loop no_valid pt cl) = (test_ok j pt \<and> no_valid = 0)"
  "phase_ok j (Thread_done stats) = main_figures stats"
  by (simp_all add: phase_ok_def)

lemma phase_steps_simps [simp]:
  "phase_steps Not_started = 0" "phase_steps (Before_lock pt cl) = 1"
  "phase_steps (In_loop no_valid pt cl) = 2 + nat (pt_executed pt)" "phase_steps (Thread_done stats) = 503"
  by (simp_all add: phase_steps_def)

lemma phase_steps_le: "phase_ok j ph \<Longrightarrow> phase_steps ph \<le> 503"
  by (cases ph) (auto dest: test_ok_executed)

text \<open>
  The parameters of \<open>main\<close>, with files that can be opened and shares that come out right, that of
  the uninitialised ratio not positive.
\<close>

definition main_setting :: "'w setting \<Rightarrow> int \<Rightarrow> bool" where
  "main_setting S junk \<longleftrightarrow> st_param S = main_params 0 junk \<and> (\<forall>i < client_num. st_opens S (perf_filename i)) \<and> st_scale S 500 0 = 0 \<and> st_scale S 500 30 = 150 \<and>
     st_scale S 500 70 = 350 \<and> st_scale S 500 junk \<le> 0"

lemma main_setting_new:
  assumes "main_setting S junk" and "i < client_num"
  shows "\<exists>pt. new_PerfTest (st_opens S) (st_scale S) mem ((st_param S)\<lparr>pp_filename := perf_filename i\<rparr>) t = Some (pt, t) \<and>
    test_ok (st_scale S 500 junk) pt \<and> pt_executed pt = 0"
proof -
  have "(st_param S)\<lparr>pp_filename := perf_filename i\<rparr> = main_params i junk"
    using assms(1) by (simp add: main_setting_def main_params_def)
  with assms main_test_new(1) [of "st_scale S" "st_opens S" i junk mem]
    new_PerfTest_executed [of "st_opens S" "st_scale S" mem "main_params i junk" t]
  show ?thesis by (auto simp: main_setting_def)
qed

lemma main_round:
  assumes "perf_round net now rnd k 0 pt cl w = Next_round k' no_valid' pt' cl' w'" and "test_ok j pt" and "j \<le> 0"
    and "pt_executed pt < pt_total pt"
  shows "test_ok j pt' \<and> no_valid' = 0 \<and> pt_executed pt' = pt_executed pt + 1"
proof -
  have ok: "accounts_ok pt" using assms(2) by (simp add: test_ok_def)
  have zero: "no_valid' = 0" using read_only_round [OF assms(1) test_ok_reads [OF assms(2,3)] ok] .
  from assms(1) have "pt_executed pt' = pt_executed pt + 1 \<and> pt_total pt' = pt_total pt \<and> pt_limit pt' = pt_limit pt"
    by (cases rule: perf_round_next) (use zero in simp_all)
  with zero perf_round_accounts [OF assms(1) ok assms(4)] assms(2) show ?thesis by (simp add: test_ok_def)
qed

lemma thread_step_ok:
  assumes "main_setting S junk" and i: "i < client_num" and "thread_step S i p = Some (Inr p')"
    and "phase_ok (st_scale S 500 junk) (pg_phase p i)"
  shows "phase_ok (st_scale S 500 junk) (pg_phase p' i) \<and> phase_steps (pg_phase p' i) = Suc (phase_steps (pg_phase p i)) \<and>
    (\<forall>j. j \<noteq> i \<longrightarrow> pg_phase p' j = pg_phase p j) \<and> pg_spawned p' = pg_spawned p"
proof -
  have junk: "st_scale S 500 junk \<le> 0" using assms(1) by (simp add: main_setting_def)
  from assms(3) show ?thesis
  proof (cases rule: thread_step_cases)
    case (Starts cl w pt seed)
    with main_setting_new [OF assms(1) i, of "st_mem S i" "st_time S w"] show ?thesis by simp
  next
    case (Locked pt cl pt' cl' w)
    with assms(4) main_test_tree [OF Locked(2)] show ?thesis by simp
  next
    case (Round no_valid pt cl k no_valid' pt' cl' w)
    have ok: "test_ok (st_scale S 500 junk) pt" and zero: "no_valid = 0" using assms(4) Round(1) by simp_all
    from main_round [OF Round(3) [unfolded zero] ok junk Round(2)]
    have "test_ok (st_scale S 500 junk) pt' \<and> no_valid' = 0 \<and> pt_executed pt' = pt_executed pt + 1" by blast
    with Round(1,4) test_ok_executed [OF ok] show ?thesis by (simp add: nat_add_distrib)
  next
    case (Ends no_valid pt cl stats k)
    with assms(4) have ok: "test_ok (st_scale S 500 junk) pt" and full: "pt_total pt \<le> pt_executed pt" by auto
    with test_ok_executed [OF ok] have "pt_executed pt = 500" by (simp add: test_ok_def)
    with Ends main_stats [OF ok junk full Ends(3)] show ?thesis by simp
  qed
qed

lemma thread_step_possible:
  assumes "main_setting S junk" and "\<forall>seed c k. \<exists>m \<ge> k. cmd_of (st_rand S seed m) = c" and i: "i < client_num"
    and "phase_ok (st_scale S 500 junk) (pg_phase p i)" and "\<forall>stats. pg_phase p i \<noteq> Thread_done stats"
  shows "\<exists>r. thread_step S i p = Some r \<and> r \<noteq> Inl Assertion"
proof -
  have failed: "go_on r f = Inl Assertion \<longleftrightarrow> (\<exists>v cl w. r = Inr (Inr v, cl, w) \<and> f v cl w = Inl Assertion)"
    for r :: "('b, 'a) call_result" and f :: "'b \<Rightarrow> fs_client \<Rightarrow> 'a \<Rightarrow> thread_failure + 'a program"
    by (cases "(r, f)" rule: go_on.cases) auto
  have ends: "end_thread S i pt cl w q \<noteq> Inl Assertion" for pt cl w q by (simp add: end_thread_def split: sum.splits)
  show ?thesis
  proof (cases "pg_phase p i")
    case Not_started
    have "\<exists>pt. new_PerfTest (st_opens S) (st_scale S) (st_mem S i) ((st_param S)\<lparr>pp_filename := perf_filename i\<rparr>) t = Some (pt, t)" for t
      using main_setting_new [OF assms(1) i, of "st_mem S i" t] by blast
    then show ?thesis using Not_started
      by (simp add: thread_step_def start_thread_def failed) (metis Inr_not_Inl case_prod_conv option.simps(5))
  next
    case (Before_lock pt cl)
    then show ?thesis by (auto simp: thread_step_def lock_thread_def failed)
  next
    case (In_loop no_valid pt cl)
    with assms(4) have ok: "test_ok (st_scale S 500 junk) pt" by simp
    have "perf_round (st_net S) (st_now S) (st_rand S (pg_seed p)) (pg_next p) no_valid pt cl (pg_world p) \<noteq> Draws_forever"
      if "pt_executed pt < pt_total pt"
      using perf_round_drawn [OF spec [OF assms(2)] _ that test_ok_total [OF ok]] ok by (simp add: test_ok_def)
    with In_loop ends show ?thesis by (auto simp: thread_step_def loop_thread_def failed split: round.splits)
  qed (use assms(5) in simp)
qed

lemma label_of_own: "label_of i p \<noteq> Others"
  by (simp add: label_of_def split: thread_phase.splits)

lemma main_run_ok:
  assumes "main_setting S junk" and "program_run S (program_start seed k w) ls p"
  shows "program_ok (st_scale S 500 junk) ls p"
  using assms(2)
proof induction
  case start
  show ?case by (simp add: program_ok_def program_start_def)
next
  case (step ls p l p')
  from step.hyps(2) show ?case
  proof cases
    case (thread i)
    have i: "i < client_num" using thread(2) step.IH by (simp add: program_ok_def)
    note now = thread_step_ok [OF assms(1) i thread(3)]
    have "(\<Sum>j < client_num. phase_steps (pg_phase p' j)) =
        phase_steps (pg_phase p' i) + (\<Sum>j \<in> {..< client_num} - {i}. phase_steps (pg_phase p' j))"
      using i by (simp add: sum.remove)
    also have "\<dots> = Suc (phase_steps (pg_phase p i)) + (\<Sum>j \<in> {..< client_num} - {i}. phase_steps (pg_phase p j))"
      using now step.IH by (simp add: program_ok_def)
    also have "\<dots> = Suc (\<Sum>j < client_num. phase_steps (pg_phase p j))" using i by (simp add: sum.remove)
    finally have "(\<Sum>j < client_num. phase_steps (pg_phase p' j)) = Suc (\<Sum>j < client_num. phase_steps (pg_phase p j))" .
    moreover have "phase_ok (st_scale S 500 junk) (pg_phase p' j)" for j
      using now step.IH by (cases "j = i") (simp_all add: program_ok_def)
    ultimately show ?thesis
      using now step.IH thread(1) label_of_own [of i p] by (simp add: program_ok_def)
  qed (use step.IH in \<open>simp_all add: program_ok_def\<close>)
qed

text \<open>
  C39. The client program ends.  Suppose the random numbers after any seed name every command
  again and again, the files of the results can be opened, and the share of the ratio of
  \<open>perf_rmdir\<close>, which \<open>main\<close> does not set, comes out as 0 or less.  Then \<open>main\<close> and its threads
  make no more than 1512 steps in any interleaving, a thread that has ended reports 150
  listings, 350 file queries and no change, and any other of the three can always go on, or
  fails otherwise than in an assertion.
\<close>

theorem main_threads_end:
  assumes "main_setting S junk" and "\<forall>seed c k. \<exists>m \<ge> k. cmd_of (st_rand S seed m) = c"
    and "program_run S (program_start seed k w) ls p"
  shows "length (filter (\<lambda>l. l \<noteq> Others) ls) \<le> 1512 \<and>
    (\<forall>i < client_num. case pg_phase p i of
       Thread_done stats \<Rightarrow> main_figures stats
     | _ \<Rightarrow> (\<exists>r. thread_step S i p = Some r \<and> r \<noteq> Inl Assertion))"
proof -
  note ok = main_run_ok [OF assms(1,3)]
  have "(\<Sum>i < client_num. phase_steps (pg_phase p i)) \<le> (\<Sum>i < client_num. 503)"
    using ok unfolding program_ok_def by (intro sum_mono phase_steps_le) blast
  then have "length (filter (\<lambda>l. l \<noteq> Others) ls) \<le> 1512" using ok by (simp add: program_ok_def client_num_def)
  moreover have "phase_ok (st_scale S 500 junk) (pg_phase p i)" for i using ok by (simp add: program_ok_def)
  ultimately show ?thesis
    using thread_step_possible [OF assms(1,2)] by (simp split: thread_phase.split)
      (metis phase_ok_simps(4) thread_phase.distinct)
qed

theorem main_threads_end_witness:
  "\<exists>ls p. program_run sample_setting (program_start 0 0 ()) ls p \<and> locks_of ls = [(1, True), (0, False)] \<and>
     length (filter (\<lambda>l. l \<noteq> Others) ls) \<le> 1512"
proof -
  obtain ls p where run: "program_run sample_setting (program_start 0 0 ()) ls p" "locks_of ls = [(1, True), (0, False)]"
    using sample_run by blast
  moreover have "main_setting sample_setting 0" by (simp add: main_setting_def sample_setting_def)
  moreover have "\<forall>seed c k. \<exists>m \<ge> k. cmd_of (st_rand sample_setting seed m) = c" using every_cmd_drawn by (simp add: sample_setting_def)
  ultimately show ?thesis using main_threads_end [OF _ _ run(1)] by blast
qed



section \<open>Latencies of the threads\<close>

text \<open>
  As long as no step turns the clock back, the latencies of a test grow from what their memory
  held by no more than the time since the start of the program.
\<close>

definition clock_runs_on :: "'w setting \<Rightarrow> bool" where
  "clock_runs_on S \<longleftrightarrow> (\<forall>p l p'. program_step S p l p' \<longrightarrow> st_now S (pg_world p) \<le> st_now S (pg_world p'))"

definition phase_latencies :: "thread_phase \<Rightarrow> (int \<times> int \<times> int) option" where
  "phase_latencies ph = (case ph of
     Not_started \<Rightarrow> None
   | Before_lock pt cl \<Rightarrow> Some (latencies pt)
   | In_loop no_valid pt cl \<Rightarrow> Some (latencies pt)
   | Thread_done stats \<Rightarrow> Some (ps_read_latency stats, ps_write_latency stats, ps_correct_latency stats))"

lemma thread_step_latency:
  assumes "thread_step S i p = Some (Inr p')" and "st_now S (pg_world p) \<le> st_now S (pg_world p')"
    and "\<forall>l. phase_latencies (pg_phase p i) = Some l \<longrightarrow> latency_within (st_mem S i) d l" and "0 \<le> d"
    and "phase_latencies (pg_phase p' i) = Some l'"
  shows "latency_within (st_mem S i) (d + (st_now S (pg_world p') - st_now S (pg_world p))) l'"
  using assms(1)
proof (cases rule: thread_step_cases)
  case (Starts cl w pt seed)
  with assms(2,4,5) new_PerfTest_latencies [OF Starts(3)] show ?thesis
    by (auto simp: phase_latencies_def intro: latency_refl)
next
  case (Locked pt cl pt' cl' w)
  have "latencies pt' = latencies pt" using create_test_tree_2 [OF Locked(2)] by (simp add: latencies_def)
  with Locked assms show ?thesis by (auto simp: phase_latencies_def intro: latency_later)
next
  case (Round no_valid pt cl k no_valid' pt' cl' w)
  then have "latency_within (latencies pt) (st_now S w - st_now S (pg_world p)) (latencies pt')"
    using assms(2) by (intro perf_round_latency [OF Round(3)]) simp
  with Round assms(3,5) show ?thesis by (auto simp: phase_latencies_def intro: latency_trans)
next
  case (Ends no_valid pt cl stats k)
  with assms stats_fields(6-8) [OF Ends(3)] show ?thesis
    by (auto simp: phase_latencies_def latencies_def intro: latency_later)
qed

lemma test_latencies:
  assumes "clock_runs_on S" and "program_run S (program_start seed k w) ls p"
  shows "st_now S w \<le> st_now S (pg_world p) \<and>
    (\<forall>i l. phase_latencies (pg_phase p i) = Some l \<longrightarrow>
      latency_within (st_mem S i) (st_now S (pg_world p) - st_now S w) l)"
  using assms(2)
proof induction
  case start
  show ?case by (simp add: program_start_def phase_latencies_def)
next
  case (step ls p l p')
  have on: "st_now S (pg_world p) \<le> st_now S (pg_world p')" using assms(1) step.hyps(2) by (auto simp: clock_runs_on_def)
  have kept: "latency_within (st_mem S j) (st_now S (pg_world p') - st_now S w) l'"
    if "pg_phase p' j = pg_phase p j" "phase_latencies (pg_phase p' j) = Some l'" for j l'
  proof (rule latency_later)
    show "latency_within (st_mem S j) (st_now S (pg_world p) - st_now S w) l'" using step.IH that by (cases l') simp
  qed (use on in simp)
  from step.hyps(2) show ?case
  proof cases
    case (thread i)
    have other: "j \<noteq> i \<Longrightarrow> pg_phase p' j = pg_phase p j" for j
      using thread(3) by (cases rule: thread_step_cases) simp_all
    have "latency_within (st_mem S i) (st_now S (pg_world p') - st_now S w) l'" if "phase_latencies (pg_phase p' i) = Some l'" for l'
      using thread_step_latency [OF thread(3) on, of "st_now S (pg_world p) - st_now S w" l'] step.IH that
      by (simp add: algebra_simps)
    with other kept step.IH on show ?thesis by (metis order_trans)
  qed (use step.IH on kept in auto)
qed

end
