(* ===== verification/Log_Memory.thy ===== *)
theory Log_Memory
  imports Raft_Consensus
begin

text \<open>
  The same log with its memory.  The deque of \<open>LogManager\<close> holds pointers to entries that
  \<open>new\<close> created and \<open>delete\<close> destroys; the consensus code keeps such pointers across calls:
  \<open>OnMetaOperation\<close> the one it appended, \<open>FSUpdateLoop\<close> the one \<open>GetEntry\<close> returned.  The
  operations are written here over an explicit heap, and each is shown to do to the list of
  entries what its definition in \<open>Log_Manager\<close> does, to lose and to free nothing twice, and
  to keep a pointer alive exactly as long as the entry stays in its place.
\<close>

section \<open>State\<close>

text \<open>
  An address is handed out once: a pointer to a freed entry never becomes valid again, so
  every use of it shows as \<open>Dangling_pointer\<close>.
\<close>

type_synonym entry_ptr = nat

record log_memory =
  entry_heap :: "entry_ptr \<Rightarrow> entry option"
  fresh :: entry_ptr
  pointers :: "entry_ptr list"
  commit_mark :: int

definition new_memory :: log_memory where
  "new_memory = \<lparr>entry_heap = Map.empty, fresh = 0, pointers = [], commit_mark = 0\<rparr>"

definition follow :: "log_memory \<Rightarrow> entry_ptr \<Rightarrow> entry outcome" where
  "follow m a = (case entry_heap m a of None \<Rightarrow> Inl Dangling_pointer | Some e \<Rightarrow> Inr e)"

definition new_entry :: "entry \<Rightarrow> log_memory \<Rightarrow> entry_ptr \<times> log_memory" where
  "new_entry e m = (fresh m, m\<lparr>entry_heap := (entry_heap m)(fresh m \<mapsto> e), fresh := Suc (fresh m)\<rparr>)"

definition delete_entry :: "entry_ptr \<Rightarrow> log_memory \<Rightarrow> log_memory outcome" where
  "delete_entry a m =
     (if entry_heap m a = None then Inl Dangling_pointer else Inr (m\<lparr>entry_heap := (entry_heap m)(a := None)\<rparr>))"

fun delete_entries :: "entry_ptr list \<Rightarrow> log_memory \<Rightarrow> log_memory outcome" where
  "delete_entries [] m = Inr m"
| "delete_entries (a # as) m = and_then (delete_entry a m) (delete_entries as)"

definition push_pointer :: "entry_ptr \<Rightarrow> log_memory \<Rightarrow> log_memory" where
  "push_pointer a m = m\<lparr>pointers := pointers m @ [a]\<rparr>"

text \<open>\<open>find_if\<close> follows the pointers until the test holds.\<close>

fun find_pointer :: "(entry \<Rightarrow> bool) \<Rightarrow> log_memory \<Rightarrow> entry_ptr list \<Rightarrow> nat option outcome" where
  "find_pointer P m [] = Inr None"
| "find_pointer P m (a # as) =
     and_then (follow m a) (\<lambda>e.
     if P e then Inr (Some 0)
     else and_then (find_pointer P m as) (\<lambda>r. Inr (map_option Suc r)))"


section \<open>Operations\<close>

text \<open>\<open>Append(Entry *)\<close> writes the index through the caller's pointer and keeps the pointer.\<close>

definition Append_pointer :: "entry_ptr \<Rightarrow> log_memory \<Rightarrow> log_memory outcome" where
  "Append_pointer a m =
     and_then (follow m a) (\<lambda>e.
     Inr (push_pointer a
       (m\<lparr>entry_heap := (entry_heap m)(a \<mapsto> e\<lparr>e_index := int (length (pointers m)) + 1\<rparr>)\<rparr>)))"

fun push_copies :: "entry list \<Rightarrow> log_memory \<Rightarrow> log_memory" where
  "push_copies [] m = m"
| "push_copies (e # es) m = (let (a, m') = new_entry e m in push_copies es (push_pointer a m'))"

fun overlay_pointers ::
  "log_memory \<Rightarrow> deque_iterator \<Rightarrow> entry list \<Rightarrow> (log_memory \<times> deque_iterator) outcome"
where
  "overlay_pointers m first_same_it [] = Inr (m, first_same_it)"
| "overlay_pointers m Invalidated (it # its) = Inl Invalid_iterator"
| "overlay_pointers m (At p) (it # its) =
     (if p < length (pointers m) then
        and_then (follow m (pointers m ! p)) (\<lambda>old.
        if same_entry it old then overlay_pointers m (At (Suc p)) its
        else and_then (delete_entry (pointers m ! p) m) (\<lambda>m1.
          let (a, m2) = new_entry it m1
          in overlay_pointers (m2\<lparr>pointers := (pointers m2)[p := a]\<rparr>) (At (Suc p)) its))
      else let (a, m1) = new_entry it m in overlay_pointers (push_pointer a m1) Invalidated its)"

definition erase_pointers :: "log_memory \<Rightarrow> deque_iterator \<Rightarrow> log_memory outcome" where
  "erase_pointers m first_same_it =
     (case first_same_it of
        Invalidated \<Rightarrow> Inl Invalid_iterator
      | At p \<Rightarrow>
          if p \<noteq> length (pointers m)
          then and_then (delete_entries (drop p (pointers m)) m) (\<lambda>m'.
            Inr (m'\<lparr>pointers := take p (pointers m')\<rparr>))
          else Inr m)"

definition Append_batch :: "entry list \<Rightarrow> log_memory \<Rightarrow> (bool \<times> log_memory) outcome" where
  "Append_batch new_entries m =
     (if pointers m = [] then Inr (True, push_copies new_entries m)
      else case new_entries of
        [] \<Rightarrow> Inl Front_of_empty
      | new_front # _ \<Rightarrow>
          and_then (follow m (last (pointers m))) (\<lambda>back.
          if e_index new_front = e_index back + 1
          then Inr (True, push_copies new_entries m)
          else and_then (find_pointer (same_entry new_front) m (pointers m)) (\<lambda>first_same.
            case first_same of
              Some p \<Rightarrow>
                and_then (overlay_pointers m (At p) new_entries) (\<lambda>(m', it).
                and_then (erase_pointers m' it) (\<lambda>m''. Inr (True, m'')))
            | None \<Rightarrow> Inr (False, m))))"

text \<open>\<open>GetEntry\<close> returns the pointer; it takes no lock.\<close>

definition GetEntry_pointer :: "int \<Rightarrow> log_memory \<Rightarrow> entry_ptr option outcome" where
  "GetEntry_pointer index m =
     and_then (find_pointer (\<lambda>e. e_index e = index) m (rev (pointers m))) (\<lambda>r.
     Inr (map_option (\<lambda>i. rev (pointers m) ! i) r))"

definition SetLastCommitIndex_memory :: "int \<Rightarrow> log_memory \<Rightarrow> log_memory outcome" where
  "SetLastCommitIndex_memory new_index m =
     (if pointers m = [] then Inl Back_of_empty
      else and_then (follow m (last (pointers m))) (\<lambda>back.
        Inr (if new_index \<le> e_index back then m\<lparr>commit_mark := new_index\<rparr> else m)))"

text \<open>\<open>RemoveEntryAfter\<close> erases the pointers and deletes none of the entries.\<close>

definition RemoveEntryAfter_pointers :: "int \<Rightarrow> log_memory \<Rightarrow> log_memory outcome" where
  "RemoveEntryAfter_pointers firstIndex m =
     and_then (find_pointer (\<lambda>e. e_index e = firstIndex) m (pointers m)) (\<lambda>r.
     Inr (case r of Some i \<Rightarrow> m\<lparr>pointers := take i (pointers m)\<rparr> | None \<Rightarrow> m))"

text \<open>The destructor deletes every entry of the deque.\<close>

definition destroy_log :: "log_memory \<Rightarrow> log_memory outcome" where
  "destroy_log m =
     and_then (delete_entries (pointers m) m) (\<lambda>m'. Inr (m'\<lparr>pointers := []\<rparr>))"

text \<open>The append of \<open>OnMetaOperation\<close>: it creates the entry, hands it over and keeps the pointer.\<close>

definition Append_new :: "entry \<Rightarrow> log_memory \<Rightarrow> (entry_ptr \<times> log_memory) outcome" where
  "Append_new e m =
     (let (a, m1) = new_entry e m in and_then (Append_pointer a m1) (\<lambda>m2. Inr (a, m2)))"


section \<open>The entries behind the pointers\<close>

definition entries_of :: "log_memory \<Rightarrow> entry list" where
  "entries_of m = map (\<lambda>a. the (entry_heap m a)) (pointers m)"

definition log_of :: "log_memory \<Rightarrow> log_manager" where
  "log_of m = \<lparr>memory_log = entries_of m, last_commited_index = commit_mark m\<rparr>"

text \<open>The pointers are live and pairwise distinct, and no address in use is handed out again.\<close>

definition memory_wf :: "log_memory \<Rightarrow> bool" where
  "memory_wf m \<longleftrightarrow>
     distinct (pointers m) \<and> set (pointers m) \<subseteq> dom (entry_heap m) \<and> (\<forall>a \<in> dom (entry_heap m). a < fresh m)"

text \<open>Entries that exist and are not in the deque: whoever created them must delete them.\<close>

definition unowned :: "log_memory \<Rightarrow> entry_ptr set" where
  "unowned m = dom (entry_heap m) - set (pointers m)"

text \<open>
  What an operation does to memory: it loses no entry and takes none over, it leaves every
  entry that survives as it was, and a pointer that stays in the deque stays at its position.
\<close>

definition tidy :: "log_memory \<Rightarrow> log_memory \<Rightarrow> bool" where
  "tidy m m' \<longleftrightarrow>
     memory_wf m' \<and> unowned m' = unowned m \<and> fresh m \<le> fresh m' \<and>
     (\<forall>a < fresh m. entry_heap m' a \<noteq> None \<longrightarrow> entry_heap m' a = entry_heap m a) \<and>
     (\<forall>i < length (pointers m'). pointers m' ! i < fresh m \<longrightarrow>
        i < length (pointers m) \<and> pointers m' ! i = pointers m ! i)"

text \<open>The appends leave the commit index alone as well.\<close>

definition keeps :: "log_memory \<Rightarrow> log_memory \<Rightarrow> bool" where
  "keeps m m' \<longleftrightarrow> tidy m m' \<and> commit_mark m' = commit_mark m"

lemmas keeps_iff = keeps_def tidy_def

lemma length_entries_of [simp]: "length (entries_of m) = length (pointers m)"
  by (simp add: entries_of_def)

lemma entries_of_Nil [simp]: "entries_of m = [] \<longleftrightarrow> pointers m = []"
  by (simp add: entries_of_def)

lemma nth_entries_of [simp]: "i < length (pointers m) \<Longrightarrow> entries_of m ! i = the (entry_heap m (pointers m ! i))"
  by (simp add: entries_of_def)

lemma last_entries_of: "pointers m \<noteq> [] \<Longrightarrow> last (entries_of m) = the (entry_heap m (last (pointers m)))"
  by (simp add: entries_of_def last_map)

lemma log_of_simps [simp]:
  "memory_log (log_of m) = entries_of m" "last_commited_index (log_of m) = commit_mark m"
  by (simp_all add: log_of_def)

lemma live_pointer:
  "memory_wf m \<Longrightarrow> a \<in> set (pointers m) \<Longrightarrow> entry_heap m a = Some (the (entry_heap m a)) \<and> a < fresh m"
  by (auto simp: memory_wf_def)

lemma follow_live: "memory_wf m \<Longrightarrow> a \<in> set (pointers m) \<Longrightarrow> follow m a = Inr (the (entry_heap m a))"
  using live_pointer [of m a] by (auto simp: follow_def split: option.splits)

lemma fresh_not_live: "memory_wf m \<Longrightarrow> entry_heap m (fresh m) = None"
  by (auto simp: memory_wf_def)

lemma fresh_not_held: "memory_wf m \<Longrightarrow> fresh m \<notin> set (pointers m)"
  using live_pointer [of m "fresh m"] by auto

lemma keeps_refl: "memory_wf m \<Longrightarrow> keeps m m"
  by (simp add: keeps_iff)

lemma keeps_trans:
  assumes "keeps m m'" and "keeps m' m''"
  shows "keeps m m''"
proof -
  have "entry_heap m'' a = entry_heap m a" if "a < fresh m" "entry_heap m'' a \<noteq> None" for a
    using assms that unfolding keeps_iff by (metis less_le_trans)
  moreover have "i < length (pointers m) \<and> pointers m'' ! i = pointers m ! i"
    if "i < length (pointers m'')" "pointers m'' ! i < fresh m" for i
    using assms that unfolding keeps_iff by (metis less_le_trans)
  ultimately show ?thesis using assms unfolding keeps_iff by auto
qed

lemma keeps_wf: "keeps m m' \<Longrightarrow> memory_wf m'"
  by (simp add: keeps_iff)


section \<open>The four changes an operation is made of\<close>

named_theorems memory_step "effect of an elementary change on the entries and on memory"

lemma find_pointer_live:
  "memory_wf m \<Longrightarrow> set as \<subseteq> set (pointers m) \<Longrightarrow>
   find_pointer P m as = Inr (find_index P (map (\<lambda>a. the (entry_heap m a)) as))"
  by (induction as) (auto simp: follow_live)

lemma push_new:
  fixes e :: entry
  assumes "memory_wf m"
  defines "m' \<equiv> push_pointer (fst (new_entry e m)) (snd (new_entry e m))"
  shows "keeps m m'" and "entries_of m' = entries_of m @ [e]" and "pointers m' = pointers m @ [fresh m]"
proof -
  note f = fresh_not_live [OF assms(1)] fresh_not_held [OF assms(1)]
  show "entries_of m' = entries_of m @ [e]"
    using f by (auto simp: m'_def entries_of_def push_pointer_def new_entry_def)
  show "pointers m' = pointers m @ [fresh m]"
    by (simp add: m'_def push_pointer_def new_entry_def)
  have "unowned m' = unowned m"
    using f by (auto simp: m'_def unowned_def push_pointer_def new_entry_def)
  moreover have "memory_wf m'"
    using assms(1) f
    by (auto simp: m'_def memory_wf_def push_pointer_def new_entry_def intro: less_SucI)
  ultimately show "keeps m m'"
    by (auto simp: keeps_iff m'_def push_pointer_def new_entry_def nth_append)
qed

lemma replace_entry:
  fixes e :: entry
  assumes "memory_wf m" and p: "p < length (pointers m)"
  defines "m1 \<equiv> m\<lparr>entry_heap := (entry_heap m)(pointers m ! p := None)\<rparr>"
  defines "m2 \<equiv> snd (new_entry e m1)"
  defines "m' \<equiv> m2\<lparr>pointers := (pointers m2)[p := fst (new_entry e m1)]\<rparr>"
  shows "delete_entry (pointers m ! p) m = Inr m1"
    and "keeps m m'" and "entries_of m' = (entries_of m)[p := e]" and "pointers m' = (pointers m)[p := fresh m]"
proof -
  let ?a = "pointers m ! p"
  have a: "entry_heap m ?a \<noteq> None" "?a < fresh m" "?a \<in> set (pointers m)"
    using live_pointer [OF assms(1), of ?a] p by auto
  note f = fresh_not_live [OF assms(1)] fresh_not_held [OF assms(1)]
  have d: "distinct (pointers m)" using assms(1) by (simp add: memory_wf_def)
  have m': "m' = m\<lparr>entry_heap := (entry_heap m)(?a := None, fresh m \<mapsto> e), fresh := Suc (fresh m),
      pointers := (pointers m)[p := fresh m]\<rparr>"
    by (simp add: m'_def m2_def m1_def new_entry_def)
  show "delete_entry ?a m = Inr m1" using a by (simp add: delete_entry_def m1_def)
  show ptrs: "pointers m' = (pointers m)[p := fresh m]" by (simp add: m')
  have other: "pointers m ! i \<noteq> ?a" if "i < length (pointers m)" "i \<noteq> p" for i
    using d p that by (simp add: nth_eq_iff_index_eq)
  show "entries_of m' = (entries_of m)[p := e]"
  proof (rule nth_equalityI)
    fix i assume "i < length (entries_of m')"
    then have i: "i < length (pointers m)" by (simp add: ptrs)
    with f(2) have "pointers m ! i \<noteq> fresh m" using nth_mem [OF i] by metis
    with i other [of i] show "entries_of m' ! i = (entries_of m)[p := e] ! i"
      by (cases "i = p") (auto simp: m')
  qed (simp add: ptrs)
  have set': "set (pointers m') = insert (fresh m) (set (pointers m) - {?a})"
    using d p by (simp add: ptrs set_update_distinct)
  have wf': "memory_wf m'"
    using assms(1) f a set' d
    by (auto simp: memory_wf_def m' distinct_list_update intro: less_SucI)
  have "unowned m' = unowned m"
    unfolding unowned_def set' using f a by (auto simp: m')
  moreover have "i < length (pointers m) \<and> pointers m' ! i = pointers m ! i"
    if "i < length (pointers m')" "pointers m' ! i < fresh m" for i
    using that p by (cases "i = p") (auto simp: ptrs)
  moreover have "entry_heap m' b = entry_heap m b" if "b < fresh m" "entry_heap m' b \<noteq> None" for b
    using that by (auto simp: m' split: if_splits)
  moreover have "fresh m \<le> fresh m'" "commit_mark m' = commit_mark m" by (simp_all add: m')
  ultimately show "keeps m m'"
    using wf' unfolding keeps_iff by blast
qed

lemma delete_entries_live:
  assumes "distinct as" and "set as \<subseteq> dom (entry_heap m)"
  shows "delete_entries as m = Inr (m\<lparr>entry_heap := (entry_heap m) |` (- set as)\<rparr>)"
  using assms
proof (induction as arbitrary: m)
  case Nil
  then show ?case by (simp add: restrict_map_def)
next
  case (Cons a as)
  have "delete_entry a m = Inr (m\<lparr>entry_heap := (entry_heap m)(a := None)\<rparr>)"
    using Cons.prems by (auto simp: delete_entry_def)
  moreover have "((entry_heap m)(a := None)) |` (- set as) = entry_heap m |` (- set (a # as))"
    by (auto simp: restrict_map_def)
  moreover have "set as \<subseteq> dom ((entry_heap m)(a := None))"
    using Cons.prems by auto
  ultimately show ?case
    using Cons.IH [of "m\<lparr>entry_heap := (entry_heap m)(a := None)\<rparr>"] Cons.prems
    by (simp del: fun_upd_apply)
qed

lemma erase_from:
  assumes "memory_wf m" and "p \<le> length (pointers m)"
  obtains m' where "erase_pointers m (At p) = Inr m'" and "keeps m m'"
    and "entries_of m' = take p (entries_of m)" and "pointers m' = take p (pointers m)"
proof -
  let ?as = "drop p (pointers m)"
  define m' where "m' = m\<lparr>entry_heap := (entry_heap m) |` (- set ?as), pointers := take p (pointers m)\<rparr>"
  have d: "distinct (pointers m)" and live: "set (pointers m) \<subseteq> dom (entry_heap m)"
    using assms(1) by (simp_all add: memory_wf_def)
  have split: "set (pointers m) = set (take p (pointers m)) \<union> set ?as"
    by (metis append_take_drop_id set_append)
  have disj: "set (take p (pointers m)) \<inter> set ?as = {}"
    by (rule set_take_disj_set_drop_if_distinct [OF d]) simp
  have "erase_pointers m (At p) = Inr m'"
  proof (cases "p = length (pointers m)")
    case True
    then have "m' = m" by (simp add: m'_def restrict_map_def)
    with True show ?thesis by (simp add: erase_pointers_def)
  next
    case False
    have "delete_entries ?as m = Inr (m\<lparr>entry_heap := (entry_heap m) |` (- set ?as)\<rparr>)"
      by (rule delete_entries_live) (use d live split in auto)
    with False show ?thesis by (simp add: erase_pointers_def m'_def)
  qed
  moreover have "memory_wf m'"
    using assms(1) d disj split by (auto simp: memory_wf_def m'_def restrict_map_def split: if_splits)
  moreover have "unowned m' = unowned m"
    using disj split by (auto simp: unowned_def m'_def restrict_map_def split: if_splits)
  moreover have "entries_of m' = take p (entries_of m)"
    using disj by (auto simp: entries_of_def m'_def take_map restrict_map_def)
  ultimately show thesis
    by (intro that [of m']) (auto simp: keeps_iff m'_def restrict_map_def)
qed


section \<open>Every operation does to the entries what the log's definition does\<close>

lemma push_copies_keeps:
  "memory_wf m \<Longrightarrow>
   keeps m (push_copies es m) \<and> entries_of (push_copies es m) = entries_of m @ es \<and>
   take (length (pointers m)) (pointers (push_copies es m)) = pointers m"
proof (induction es arbitrary: m)
  case Nil
  then show ?case by (simp add: keeps_refl)
next
  case (Cons e es)
  define m1 where "m1 = push_pointer (fst (new_entry e m)) (snd (new_entry e m))"
  have step: "keeps m m1" "entries_of m1 = entries_of m @ [e]" "pointers m1 = pointers m @ [fresh m]"
    unfolding m1_def by (rule push_new [OF Cons.prems])+
  note rest = Cons.IH [OF keeps_wf [OF step(1)]]
  have "take (length (pointers m)) (take (Suc (length (pointers m))) (pointers (push_copies es m1))) =
      pointers m"
    using rest step(3) by simp
  moreover have "push_copies (e # es) m = push_copies es m1"
    by (simp add: m1_def case_prod_unfold Let_def)
  ultimately show ?case
    using rest step keeps_trans [OF step(1)] by simp
qed

text \<open>
  The loop, at each position: before the iterator nothing changes, and from there on a pointer
  is kept unless the entry that took its place differs in index or term.
\<close>

definition overlaid :: "nat \<Rightarrow> log_memory \<Rightarrow> log_memory \<Rightarrow> bool" where
  "overlaid p m m' \<longleftrightarrow>
     length (pointers m) \<le> length (pointers m') \<and>
     (\<forall>i < length (pointers m). pointers m' ! i = pointers m ! i \<or>
        p \<le> i \<and> \<not> same_entry (entries_of m' ! i) (entries_of m ! i))"

lemma overlaid_refl: "overlaid p m m"
  by (simp add: overlaid_def)

lemma overlay_pointers_invalid:
  "overlay_pointers m Invalidated es =
    (if es = [] then Inr (m, Invalidated) else Inl Invalid_iterator)"
  by (cases es) auto

lemma overlay_loop_invalid:
  "overlay_loop log Invalidated es =
    (if es = [] then Inr (log, Invalidated) else Inl Invalid_iterator)"
  by (cases es) auto

definition loop_refines ::
  "nat \<Rightarrow> log_memory \<Rightarrow> (log_memory \<times> deque_iterator) outcome \<Rightarrow>
   (entry list \<times> deque_iterator) outcome \<Rightarrow> bool"
where
  "loop_refines p m r s \<longleftrightarrow>
     (case r of Inl u \<Rightarrow> s = Inl u
      | Inr (m', it) \<Rightarrow> s = Inr (entries_of m', it) \<and> keeps m m' \<and> overlaid p m m' \<and>
          (\<forall>q. it = At q \<longrightarrow> p \<le> q \<and> (p \<le> length (pointers m) \<longrightarrow> q \<le> length (pointers m'))))"

lemma overlay_pointers_refines:
  "memory_wf m \<Longrightarrow>
   loop_refines p m (overlay_pointers m (At p) es) (overlay_loop (entries_of m) (At p) es)"
proof (induction es arbitrary: m p)
  case Nil
  then show ?case by (simp add: loop_refines_def keeps_refl overlaid_refl)
next
  case (Cons e es)
  show ?case
  proof (cases "p < length (pointers m)")
    case False
    define m1 where "m1 = push_pointer (fst (new_entry e m)) (snd (new_entry e m))"
    have step: "keeps m m1" "entries_of m1 = entries_of m @ [e]" "pointers m1 = pointers m @ [fresh m]"
      unfolding m1_def by (rule push_new [OF Cons.prems])+
    have "overlay_pointers m (At p) (e # es) = overlay_pointers m1 Invalidated es"
      using False by (simp add: m1_def case_prod_unfold Let_def)
    with False step show ?thesis
      by (auto simp: overlay_pointers_invalid overlay_loop_invalid loop_refines_def overlaid_def
          nth_append)
  next
    case p: True
    have at: "pointers m ! p \<in> set (pointers m)" using p by simp
    note read = follow_live [OF Cons.prems at]
    show ?thesis
    proof (cases "same_entry e (entries_of m ! p)")
      case True
      with p read have
        "overlay_pointers m (At p) (e # es) = overlay_pointers m (At (Suc p)) es"
        "overlay_loop (entries_of m) (At p) (e # es) = overlay_loop (entries_of m) (At (Suc p)) es"
        by simp_all
      with Cons.IH [OF Cons.prems, of "Suc p"] p show ?thesis
        by (auto simp: loop_refines_def overlaid_def split: sum.splits)
    next
      case False
      define m1 where "m1 = m\<lparr>entry_heap := (entry_heap m)(pointers m ! p := None)\<rparr>"
      define m2 where "m2 = snd (new_entry e m1)"
      define m3 where "m3 = m2\<lparr>pointers := (pointers m2)[p := fst (new_entry e m1)]\<rparr>"
      have step: "delete_entry (pointers m ! p) m = Inr m1"
        "keeps m m3" "entries_of m3 = (entries_of m)[p := e]" "pointers m3 = (pointers m)[p := fresh m]"
        unfolding m3_def m2_def m1_def by (rule replace_entry [OF Cons.prems p])+
      have run: "overlay_pointers m (At p) (e # es) = overlay_pointers m3 (At (Suc p)) es"
        "overlay_loop (entries_of m) (At p) (e # es) = overlay_loop (entries_of m3) (At (Suc p)) es"
        using p False read step by (simp_all add: m3_def m2_def case_prod_unfold Let_def)
      note wf3 = keeps_wf [OF step(2)]
      have ih: "loop_refines (Suc p) m3 (overlay_pointers m3 (At (Suc p)) es)
          (overlay_loop (entries_of m3) (At (Suc p)) es)"
        by (rule Cons.IH [OF wf3])
      have "overlaid p m m'" if k: "keeps m3 m'" and o: "overlaid (Suc p) m3 m'" for m'
        unfolding overlaid_def
      proof (intro conjI allI impI)
        show "length (pointers m) \<le> length (pointers m')"
          using o by (simp add: overlaid_def step(4))
        fix i assume i: "i < length (pointers m)"
        show "pointers m' ! i = pointers m ! i \<or>
            p \<le> i \<and> \<not> same_entry (entries_of m' ! i) (entries_of m ! i)"
        proof (cases "i = p")
          case True
          have at': "pointers m' ! p = pointers m3 ! p" "p < length (pointers m')"
            using o p step(4) unfolding overlaid_def by auto
          have "entry_heap m' (pointers m3 ! p) = entry_heap m3 (pointers m3 ! p)"
            using k at' live_pointer [OF keeps_wf [OF k], of "pointers m3 ! p"]
              live_pointer [OF wf3, of "pointers m3 ! p"] p step(4) nth_mem [of p "pointers m'"]
              nth_mem [of p "pointers m3"]
            unfolding keeps_iff by auto
          then have "entries_of m' ! p = entries_of m3 ! p" using at' p step(4) by simp
          with True False p step(3) show ?thesis by simp
        next
          case False
          then have "pointers m3 ! i = pointers m ! i" "entries_of m3 ! i = entries_of m ! i"
            using step(3,4) by simp_all
          with o i step(4) show ?thesis unfolding overlaid_def by auto
        qed
      qed
      with ih p step show ?thesis
        unfolding run by (auto simp: loop_refines_def keeps_trans split: sum.splits)
    qed
  qed
qed


text \<open>The batch.  A batch that is refused, or accepted at the end of the log, keeps every pointer.\<close>

definition batch_refines ::
  "log_memory \<Rightarrow> (bool \<times> log_memory) outcome \<Rightarrow> (bool \<times> log_manager) outcome \<Rightarrow> bool"
where
  "batch_refines m r s \<longleftrightarrow>
     (case r of Inl u \<Rightarrow> s = Inl u
      | Inr (ok, m') \<Rightarrow> s = Inr (ok, log_of m') \<and> keeps m m' \<and>
          (\<forall>i < min (length (pointers m)) (length (pointers m')).
             pointers m' ! i = pointers m ! i \<or> \<not> same_entry (entries_of m' ! i) (entries_of m ! i)))"

lemma copies_refine:
  assumes wf: "memory_wf m"
  shows "batch_refines m (Inr (True, push_copies es m))
    (Inr (True, (log_of m)\<lparr>memory_log := entries_of m @ es\<rparr>))"
proof -
  from push_copies_keeps [OF wf, of es] have k: "keeps m (push_copies es m)"
    and h: "entries_of (push_copies es m) = entries_of m @ es"
    and t: "take (length (pointers m)) (pointers (push_copies es m)) = pointers m" by auto
  have "pointers (push_copies es m) ! i = pointers m ! i" if "i < length (pointers m)" for i
    using that t by (metis nth_take)
  moreover have "commit_mark (push_copies es m) = commit_mark m"
    using k by (simp add: keeps_iff)
  ultimately show ?thesis
    using k h unfolding batch_refines_def by (auto simp: log_of_def)
qed

lemma overlay_and_erase_refine:
  assumes wf: "memory_wf m" and p: "p < length (pointers m)"
  shows "batch_refines m
    (and_then (overlay_pointers m (At p) es) (\<lambda>(m', it).
     and_then (erase_pointers m' it) (\<lambda>m''. Inr (True, m''))))
    (and_then (overlay_loop (entries_of m) (At p) es) (\<lambda>(log', it).
     and_then (erase_rest log' it) (\<lambda>log''. Inr (True, (log_of m)\<lparr>memory_log := log''\<rparr>))))"
proof (cases "overlay_pointers m (At p) es")
  case (Inl u)
  with overlay_pointers_refines [OF wf, of p es] show ?thesis
    by (simp add: loop_refines_def batch_refines_def)
next
  case (Inr r)
  obtain m' it where r: "r = (m', it)" by (cases r)
  from overlay_pointers_refines [OF wf, of p es] Inr r
  have l: "overlay_loop (entries_of m) (At p) es = Inr (entries_of m', it)"
    and k: "keeps m m'" and o: "overlaid p m m'"
    and q: "\<And>q. it = At q \<Longrightarrow> q \<le> length (pointers m')"
    using p by (auto simp: loop_refines_def)
  show ?thesis
  proof (cases it)
    case Invalidated
    with Inr r l show ?thesis by (simp add: batch_refines_def erase_pointers_def erase_rest_def)
  next
    case (At q)
    from erase_from [OF keeps_wf [OF k] q [OF At]] obtain m'' where
      e: "erase_pointers m' (At q) = Inr m''" and k': "keeps m' m''"
      and h: "entries_of m'' = take q (entries_of m')" and t: "pointers m'' = take q (pointers m')" .
    have "commit_mark m'' = commit_mark m" using k k' by (simp add: keeps_iff)
    moreover have "erase_rest (entries_of m') (At q) = Inr (entries_of m'')"
      using q [OF At] by (simp add: erase_rest_def h)
    moreover have "pointers m'' ! i = pointers m ! i \<or> \<not> same_entry (entries_of m'' ! i) (entries_of m ! i)"
      if "i < min (length (pointers m)) (length (pointers m''))" for i
      using that o by (auto simp: overlaid_def t h)
    ultimately show ?thesis
      using Inr r l At e keeps_trans [OF k k']
      by (simp add: batch_refines_def log_of_def)
  qed
qed

lemma Append_batch_refines:
  assumes wf: "memory_wf m"
  shows "batch_refines m (Append_batch es m) (Append_entries es (log_of m))"
proof (cases "pointers m = []")
  case True
  with copies_refine [OF wf, of es] show ?thesis by (simp add: Append_batch_def Append_entries_def)
next
  case False
  note rear = follow_live [OF wf last_in_set [OF False]] last_entries_of [OF False]
  show ?thesis
  proof (cases es)
    case Nil
    with False show ?thesis by (simp add: Append_batch_def Append_entries_def batch_refines_def)
  next
    case (Cons e rest)
    have find: "find_pointer (same_entry e) m (pointers m) =
        Inr (find_index (same_entry e) (entries_of m))"
      using find_pointer_live [OF wf order_refl] by (simp add: entries_of_def)
    consider (follows) "e_index e = e_index (last (entries_of m)) + 1"
      | (unknown) "e_index e \<noteq> e_index (last (entries_of m)) + 1"
          "find_index (same_entry e) (entries_of m) = None"
      | (inside) p where "e_index e \<noteq> e_index (last (entries_of m)) + 1"
          "find_index (same_entry e) (entries_of m) = Some p"
      by (cases "find_index (same_entry e) (entries_of m)") blast+
    then show ?thesis
    proof cases
      case follows
      with False rear copies_refine [OF wf, of es] Cons show ?thesis
        by (simp add: Append_batch_def Append_entries_def)
    next
      case unknown
      with False rear find Cons wf show ?thesis
        by (simp add: Append_batch_def Append_entries_def batch_refines_def keeps_refl Let_def
            del: find_index_None)
    next
      case (inside p)
      then have "p < length (pointers m)" using find_index_SomeD by fastforce
      from overlay_and_erase_refine [OF wf this, of es] inside False rear find Cons show ?thesis
        by (simp add: Append_batch_def Append_entries_def Let_def)
    qed
  qed
qed


text \<open>The other operations.\<close>

lemma Append_new_refines:
  assumes "memory_wf m"
  obtains m' where "Append_new e m = Inr (fresh m, m')" and "keeps m m'"
    and "Append_entry e (log_of m) = (e\<lparr>e_index := int (length (pointers m)) + 1\<rparr>, log_of m')"
    and "pointers m' = pointers m @ [fresh m]"
proof -
  let ?e = "e\<lparr>e_index := int (length (pointers m)) + 1\<rparr>"
  define m' where "m' = push_pointer (fst (new_entry ?e m)) (snd (new_entry ?e m))"
  have step: "keeps m m'" "entries_of m' = entries_of m @ [?e]" "pointers m' = pointers m @ [fresh m]"
    unfolding m'_def by (rule push_new [OF assms])+
  have "Append_new e m = Inr (fresh m, m')"
    by (simp add: Append_new_def Append_pointer_def follow_def new_entry_def m'_def push_pointer_def)
  moreover have "Append_entry e (log_of m) = (?e, log_of m')"
    using step by (simp add: Append_entry_def log_of_def keeps_def Let_def)
  ultimately show thesis using step by (intro that) auto
qed

lemma SetLastCommitIndex_refines:
  assumes "memory_wf m"
  shows "map_sum id log_of (SetLastCommitIndex_memory c m) = SetLastCommitIndex c (log_of m)"
proof (cases "pointers m = []")
  case False
  with follow_live [OF assms last_in_set [OF False]] last_entries_of [OF False] show ?thesis
    by (simp add: SetLastCommitIndex_memory_def SetLastCommitIndex_def log_of_def entries_of_def)
qed (simp add: SetLastCommitIndex_memory_def SetLastCommitIndex_def)

lemma find_as_index: "find P xs = map_option (\<lambda>i. xs ! i) (find_index P xs)"
  by (induction xs) (auto simp: option.map_comp comp_def)

lemma GetEntry_refines:
  assumes "memory_wf m"
  obtains r where "GetEntry_pointer i m = Inr r"
    and "map_option (\<lambda>a. the (entry_heap m a)) r = GetEntry i (log_of m)"
    and "set_option r \<subseteq> set (pointers m)"
proof -
  let ?f = "find_index (\<lambda>e. e_index e = i) (rev (entries_of m))"
  let ?r = "map_option (\<lambda>k. rev (pointers m) ! k) ?f"
  have "GetEntry_pointer i m = Inr ?r"
    using find_pointer_live [OF assms, of "rev (pointers m)"]
    by (simp add: GetEntry_pointer_def entries_of_def rev_map)
  moreover have len: "k < length (pointers m)" if "?f = Some k" for k
    using find_index_SomeD [OF that] by simp
  have "map_option (\<lambda>a. the (entry_heap m a)) ?r = GetEntry i (log_of m)"
  proof (cases ?f)
    case (Some k)
    with len [OF Some] show ?thesis
      by (simp add: GetEntry_def find_as_index entries_of_def rev_map [symmetric] rev_nth)
  qed (simp add: GetEntry_def find_as_index del: find_index_None)
  moreover have "set_option ?r \<subseteq> set (pointers m)"
  proof (cases ?f)
    case (Some k)
    with len [OF Some] nth_mem [of k "rev (pointers m)"] show ?thesis by simp
  qed (simp del: find_index_None)
  ultimately show thesis by (rule that)
qed

lemma destroy_log_wf:
  assumes "memory_wf m"
  obtains m' where "destroy_log m = Inr m'" and "pointers m' = []"
    and "entry_heap m' = entry_heap m |` unowned m"
proof -
  have "delete_entries (pointers m) m = Inr (m\<lparr>entry_heap := entry_heap m |` (- set (pointers m))\<rparr>)"
    by (rule delete_entries_live) (use assms in \<open>auto simp: memory_wf_def\<close>)
  moreover have "entry_heap m |` (- set (pointers m)) = entry_heap m |` unowned m"
    by (auto simp: restrict_map_def unowned_def)
  ultimately show thesis
    by (intro that [of "m\<lparr>entry_heap := entry_heap m |` unowned m, pointers := []\<rparr>"]) (auto simp: destroy_log_def)
qed



section \<open>Any sequence of operations\<close>

text \<open>
  The calls that change the log: the append of a client's operation, a batch of the leader,
  a new commit index.
\<close>

datatype log_op = Push entry | Batch "entry list" | Mark int

fun step_memory :: "log_op \<Rightarrow> log_memory \<Rightarrow> log_memory outcome" where
  "step_memory (Push e) m = and_then (Append_new e m) (\<lambda>(a, m'). Inr m')"
| "step_memory (Batch es) m = and_then (Append_batch es m) (\<lambda>(ok, m'). Inr m')"
| "step_memory (Mark c) m = SetLastCommitIndex_memory c m"

fun step_log :: "log_op \<Rightarrow> log_manager \<Rightarrow> log_manager outcome" where
  "step_log (Push e) l = Inr (snd (Append_entry e l))"
| "step_log (Batch es) l = and_then (Append_entries es l) (\<lambda>(ok, l'). Inr l')"
| "step_log (Mark c) l = SetLastCommitIndex c l"

fun run_memory :: "log_op list \<Rightarrow> log_memory \<Rightarrow> log_memory outcome" where
  "run_memory [] m = Inr m"
| "run_memory (op # ops) m = and_then (step_memory op m) (run_memory ops)"

fun run_log :: "log_op list \<Rightarrow> log_manager \<Rightarrow> log_manager outcome" where
  "run_log [] l = Inr l"
| "run_log (op # ops) l = and_then (step_log op l) (run_log ops)"

text \<open>The logs that a run goes through, one after each operation.\<close>

fun log_trace :: "log_op list \<Rightarrow> log_manager \<Rightarrow> log_manager list" where
  "log_trace [] l = []"
| "log_trace (op # ops) l = (case step_log op l of Inl u \<Rightarrow> [] | Inr l' \<Rightarrow> l' # log_trace ops l')"

lemma keeps_tidy: "keeps m m' \<Longrightarrow> tidy m m'"
  by (simp add: keeps_def)

lemma tidy_trans: "tidy m m' \<Longrightarrow> tidy m' m'' \<Longrightarrow> tidy m m''"
  using keeps_trans [of "m\<lparr>commit_mark := 0\<rparr>" "m'\<lparr>commit_mark := 0\<rparr>" "m''\<lparr>commit_mark := 0\<rparr>"]
  by (simp add: keeps_def tidy_def memory_wf_def unowned_def)

text \<open>
  One operation: the same undefined outcome, or the same log; memory stays tidy, and a
  position that both logs have holds its old pointer or an entry of another index or term.
\<close>

definition step_refines :: "log_memory \<Rightarrow> log_memory outcome \<Rightarrow> log_manager outcome \<Rightarrow> bool" where
  "step_refines m r s \<longleftrightarrow>
     (case r of Inl u \<Rightarrow> s = Inl u
      | Inr m' \<Rightarrow> s = Inr (log_of m') \<and> tidy m m' \<and>
          (\<forall>i < min (length (pointers m)) (length (pointers m')).
             pointers m' ! i = pointers m ! i \<or> \<not> same_entry (entries_of m' ! i) (entries_of m ! i)))"

lemma step_memory_refines:
  assumes wf: "memory_wf m"
  shows "step_refines m (step_memory op m) (step_log op (log_of m))"
proof (cases op)
  case (Push e)
  obtain m' where "Append_new e m = Inr (fresh m, m')" "keeps m m'"
    "Append_entry e (log_of m) = (e\<lparr>e_index := int (length (pointers m)) + 1\<rparr>, log_of m')"
    "pointers m' = pointers m @ [fresh m]"
    by (rule Append_new_refines [OF wf])
  with Push show ?thesis by (auto simp: step_refines_def keeps_tidy nth_append)
next
  case (Batch es)
  with Append_batch_refines [OF wf, of es] show ?thesis
    by (cases "Append_batch es m") (auto simp: step_refines_def batch_refines_def keeps_tidy)
next
  case (Mark c)
  have "tidy m m'" "pointers m' = pointers m" if "SetLastCommitIndex_memory c m = Inr m'" for m'
    using that keeps_refl [OF wf]
    by (auto simp: SetLastCommitIndex_memory_def and_then_eq_Inr keeps_iff memory_wf_def
        unowned_def split: if_splits)
  with Mark SetLastCommitIndex_refines [OF wf, of c] show ?thesis
    by (cases "SetLastCommitIndex_memory c m") (auto simp: step_refines_def)
qed

lemma run_memory_refines:
  "memory_wf m \<Longrightarrow>
   map_sum id log_of (run_memory ops m) = run_log ops (log_of m) \<and>
   (\<forall>m'. run_memory ops m = Inr m' \<longrightarrow> tidy m m')"
proof (induction ops arbitrary: m)
  case Nil
  then show ?case by (simp add: keeps_tidy keeps_refl)
next
  case (Cons op ops)
  show ?case
  proof (cases "step_memory op m")
    case (Inl u)
    with step_memory_refines [OF Cons.prems, of op] show ?thesis by (simp add: step_refines_def)
  next
    case (Inr m1)
    with step_memory_refines [OF Cons.prems, of op]
    have step: "step_log op (log_of m) = Inr (log_of m1)" "tidy m m1"
      by (simp_all add: step_refines_def)
    then have "memory_wf m1" by (simp add: tidy_def)
    from Cons.IH [OF this] step Inr show ?thesis by (auto intro: tidy_trans)
  qed
qed

lemma new_memory_wf: "memory_wf new_memory" "log_of new_memory = new_log" "unowned new_memory = {}"
  by (simp_all add: memory_wf_def new_memory_def log_of_def entries_of_def new_log_def unowned_def)

text \<open>
  A pointer into the log is alive as long as its entry is in its place, and then it shows the
  entry it showed before.
\<close>

definition in_place :: "nat \<Rightarrow> entry \<Rightarrow> log_manager \<Rightarrow> bool" where
  "in_place i e l \<longleftrightarrow> i < length (memory_log l) \<and> same_entry (memory_log l ! i) e"

lemma step_pointer_alive:
  assumes wf: "memory_wf m" and i: "i < length (pointers m)"
    and step: "step_refines m (Inr m') s"
  shows "entry_heap m' (pointers m ! i) \<noteq> None \<longleftrightarrow> in_place i (entries_of m ! i) (log_of m')"
    and "in_place i (entries_of m ! i) (log_of m') \<Longrightarrow>
      pointers m' ! i = pointers m ! i \<and> entries_of m' ! i = entries_of m ! i"
proof -
  let ?a = "pointers m ! i"
  have t: "tidy m m'" using step by (simp add: step_refines_def)
  have a: "?a \<in> set (pointers m)" "?a < fresh m" using live_pointer [OF wf] i by auto
  have stay: "pointers m' ! i = ?a \<and> entry_heap m' ?a \<noteq> None \<and> entries_of m' ! i = entries_of m ! i"
    if "in_place i (entries_of m ! i) (log_of m')"
  proof -
    from that have i': "i < length (pointers m')" by (simp add: in_place_def)
    with that i step have p: "pointers m' ! i = ?a" by (auto simp: in_place_def step_refines_def)
    have "memory_wf m'" using t by (simp add: tidy_def)
    with nth_mem [OF i'] p live_pointer [of m' ?a] have "entry_heap m' ?a \<noteq> None"
      by (metis option.distinct(1))
    moreover from this t a(2) have "entry_heap m' ?a = entry_heap m ?a" unfolding tidy_def by blast
    ultimately show ?thesis using p i i' by simp
  qed
  have "in_place i (entries_of m ! i) (log_of m')" if alive: "entry_heap m' ?a \<noteq> None"
  proof -
    have "?a \<in> set (pointers m')" using alive a t by (auto simp: tidy_def unowned_def)
    then obtain j where j: "j < length (pointers m')" "pointers m' ! j = ?a"
      by (auto simp: in_set_conv_nth)
    with t a have "j < length (pointers m)" "pointers m ! j = ?a" by (auto simp: tidy_def)
    with wf i have "j = i" by (auto simp: memory_wf_def nth_eq_iff_index_eq)
    moreover have "entry_heap m' ?a = entry_heap m ?a" using alive a t by (simp add: tidy_def)
    ultimately show ?thesis using j i by (simp add: in_place_def)
  qed
  with stay show "entry_heap m' ?a \<noteq> None \<longleftrightarrow> in_place i (entries_of m ! i) (log_of m')" by blast
  from stay show "in_place i (entries_of m ! i) (log_of m') \<Longrightarrow>
      pointers m' ! i = pointers m ! i \<and> entries_of m' ! i = entries_of m ! i" by blast
qed

lemma run_pointer:
  "memory_wf m \<Longrightarrow> i < length (pointers m) \<Longrightarrow> run_memory ops m = Inr m' \<Longrightarrow>
   follow m' (pointers m ! i) =
     (if list_all (in_place i (entries_of m ! i)) (log_trace ops (log_of m)) then Inr (entries_of m ! i)
      else Inl Dangling_pointer)"
proof (induction ops arbitrary: m)
  case Nil
  then show ?case using follow_live [of m "pointers m ! i"] by simp
next
  case (Cons op ops)
  from Cons.prems obtain m1 where m1: "step_memory op m = Inr m1" "run_memory ops m1 = Inr m'"
    by (auto simp: and_then_eq_Inr)
  with step_memory_refines [OF Cons.prems(1), of op] have step: "step_refines m (Inr m1) (step_log op (log_of m))"
    by simp
  then have log: "step_log op (log_of m) = Inr (log_of m1)" and wf1: "memory_wf m1"
    and t: "fresh m \<le> fresh m1" by (simp_all add: step_refines_def tidy_def)
  note alive = step_pointer_alive [OF Cons.prems(1,2) step]
  show ?case
  proof (cases "in_place i (entries_of m ! i) (log_of m1)")
    case True
    then have "i < length (pointers m1)" by (simp add: in_place_def)
    from Cons.IH [OF wf1 this m1(2)] alive(2) [OF True] True log show ?thesis by simp
  next
    case False
    with alive(1) have dead: "entry_heap m1 (pointers m ! i) = None" by blast
    have "pointers m ! i < fresh m1"
      using live_pointer [OF Cons.prems(1) nth_mem [OF Cons.prems(2)]] t by simp
    moreover have "tidy m1 m'" using run_memory_refines [OF wf1, of ops] m1(2) by simp
    ultimately have "entry_heap m' (pointers m ! i) = None" using dead unfolding tidy_def by metis
    with False log show ?thesis by (simp add: follow_def)
  qed
qed

text \<open>
  C21. The log over memory refines the log of values: any sequence of appends, batches and
  commit marks on a new log is undefined in both or in neither, for the same reason, and ends
  with the same entries and the same commit index.
\<close>

theorem log_pointers_refine:
  "map_sum id log_of (run_memory ops new_memory) = run_log ops new_log"
  using run_memory_refines [of new_memory ops] new_memory_wf by simp

text \<open>
  C22. The log frees what it allocated: after any sequence of the operations that a server calls
  on its log (appends of an entry, appends of a batch, marks of the commit index) the
  destructor meets no pointer that was freed before, and no entry is left.
  \<open>RemoveEntryAfter\<close>, which no code calls, is not among them: it leaks the entries it drops.
\<close>

theorem log_frees_once:
  assumes "run_memory ops new_memory = Inr m"
  shows "\<exists>m'. destroy_log m = Inr m' \<and> entry_heap m' = Map.empty \<and> pointers m' = []"
proof -
  have "tidy new_memory m" using run_memory_refines [of new_memory ops] new_memory_wf assms by simp
  then have "memory_wf m" and "unowned m = {}" by (simp_all add: tidy_def new_memory_wf)
  with destroy_log_wf [OF this(1)] show ?thesis by (metis restrict_map_to_empty)
qed


theorem log_frees_once_witness:
  "\<exists>m m'. run_memory [Batch [\<lparr>e_term = 1, e_index = 1, e_op = kMkdir, e_value = []\<rparr>], Mark 1] new_memory = Inr m
     \<and> destroy_log m = Inr m' \<and> entry_heap m' = Map.empty \<and> pointers m' = []"
proof -
  obtain m where
    "run_memory [Batch [\<lparr>e_term = 1, e_index = 1, e_op = kMkdir, e_value = []\<rparr>], Mark 1] new_memory = Inr m"
    by (simp add: new_memory_def Append_batch_def new_entry_def push_pointer_def
        SetLastCommitIndex_memory_def follow_def)
  with log_frees_once [OF this] show ?thesis by blast
qed

text \<open>
  C23. The pointer that \<open>OnMetaOperation\<close> keeps.  Whatever the other threads do to the log while
  it waits, in any order: reading through the pointer shows the entry that was appended as long
  as each operation left the entry in its place, and is a use of a freed entry otherwise.  This
  is the test of \<open>entry_alive\<close> with which the model of \<open>OnMetaOperation\<close> decides.
\<close>

theorem meta_pointer_alive:
  assumes "memory_wf m" and "log_of m = raft_log st"
    and "Append_new (meta_entry op path st) m = Inr (a, m1)"
    and "meta_append op path st = (e, st1)"
    and "run_memory ops m1 = Inr m2"
    and "map raft_log waits = log_trace ops (raft_log st1)"
  shows "follow m2 a = (if list_all (entry_alive e) waits then Inr e else Inl Dangling_pointer)"
proof -
  obtain m' where app: "Append_new (meta_entry op path st) m = Inr (fresh m, m')" "keeps m m'"
    "Append_entry (meta_entry op path st) (log_of m) =
       (meta_entry op path st\<lparr>e_index := int (length (pointers m)) + 1\<rparr>, log_of m')"
    "pointers m' = pointers m @ [fresh m]"
    by (rule Append_new_refines [OF assms(1)])
  let ?n = "length (pointers m)"
  from app(1) assms(3) have "m1 = m'" "a = fresh m" by simp_all
  with app(4) keeps_wf [OF app(2)] have m1: "m1 = m'" "a = pointers m1 ! ?n" "memory_wf m1"
    "?n < length (pointers m1)" by simp_all
  have "Append_entry (meta_entry op path st) (raft_log st) =
      (meta_entry op path st\<lparr>e_index := int ?n + 1\<rparr>, log_of m1)"
    using app(3) unfolding assms(2) m1(1) .
  with assms(4) have "e = meta_entry op path st\<lparr>e_index := int ?n + 1\<rparr> \<and>
      st1 = st\<lparr>raft_log := log_of m1\<rparr>"
    unfolding meta_append_def by simp
  then have e: "e = meta_entry op path st\<lparr>e_index := int ?n + 1\<rparr>"
    and log: "raft_log st1 = log_of m1" by simp_all
  have "entries_of m1 ! ?n = e"
  proof -
    have "entries_of m1 = entries_of m @ [e]"
      using arg_cong [OF app(3), of "\<lambda>r. memory_log (snd r)"]
      unfolding m1(1) e by (simp add: Append_entry_def Let_def)
    then show ?thesis by (simp only: length_entries_of [symmetric] nth_append_length)
  qed
  moreover have "list_all (in_place ?n e) (map raft_log waits) = list_all (entry_alive e) waits"
    unfolding list.pred_map comp_def
    by (rule list.pred_cong) (auto simp: in_place_def entry_alive_def Size_def e nat_int_add)
  ultimately show ?thesis
    using run_pointer [OF m1(3,4) assms(5)] assms(6) m1(2) log by simp
qed


theorem meta_pointer_alive_witness:
  "\<exists>m1 m2 st a.
     Append_new (meta_entry kMkdir ''/a'' st) new_memory = Inr (a, m1) \<and>
     run_memory [Mark 1, Batch [\<lparr>e_term = 1, e_index = 1, e_op = kMkdir, e_value = ''/b''\<rparr>]] m1 = Inr m2 \<and>
     follow m2 a = Inr \<lparr>e_term = 0, e_index = 1, e_op = kMkdir, e_value = ''/a''\<rparr>"
proof -
  define st where "st = new_raft \<lparr>t_now = 0, t_delay = 0\<rparr> (\<lambda>_. 0) 1 ''s1'' []"
  define e where "e = \<lparr>e_term = 0, e_index = 1, e_op = kMkdir, e_value = ''/a''\<rparr>"
  define b where "b = \<lparr>e_term = 1, e_index = 1, e_op = kMkdir, e_value = ''/b''\<rparr>"
  define m1 where "m1 = \<lparr>entry_heap = [0 \<mapsto> e], fresh = 1, pointers = [0], commit_mark = 0\<rparr>"
  define st1 where "st1 = st\<lparr>raft_log := log_of m1\<rparr>"
  let ?ops = "[Mark 1, Batch [b]]"
  have log: "log_of m1 = \<lparr>memory_log = [e], last_commited_index = 0\<rparr>"
    by (simp add: log_of_def entries_of_def m1_def)
  have st: "log_of new_memory = raft_log st" "meta_entry kMkdir ''/a'' st = e\<lparr>e_index := 0\<rparr>"
    by (simp_all add: new_memory_wf st_def new_raft_def PostponeElection_def meta_entry_def e_def)
  have push: "Append_new (meta_entry kMkdir ''/a'' st) new_memory = Inr (0, m1)"
    unfolding st by (simp add: Append_new_def Append_pointer_def follow_def new_entry_def
        push_pointer_def new_memory_def m1_def e_def)
  have app: "meta_append kMkdir ''/a'' st = (e, st1)"
    by (simp add: meta_append_def st(1) [symmetric] st(2) st1_def log Append_entry_def new_memory_wf(2) Let_def
        new_log_def e_def)
  have trace: "log_trace ?ops (raft_log st1) =
      [\<lparr>memory_log = [e], last_commited_index = 1\<rparr>, \<lparr>memory_log = [e], last_commited_index = 1\<rparr>]"
    by (simp add: st1_def log SetLastCommitIndex_def Append_entries_def same_entry_def e_def b_def)
  have run: "run_memory ?ops m1 = Inr (m1\<lparr>commit_mark := 1\<rparr>)"
    by (simp add: SetLastCommitIndex_memory_def Append_batch_def follow_def same_entry_def m1_def
        e_def b_def)
  have "map raft_log (map (\<lambda>l. st\<lparr>raft_log := l\<rparr>) (log_trace ?ops (raft_log st1))) =
      log_trace ?ops (raft_log st1)" by (simp add: comp_def)
  from meta_pointer_alive [OF new_memory_wf(1) st(1) push app run this]
  have "follow (m1\<lparr>commit_mark := 1\<rparr>) 0 = Inr e"
    unfolding trace by (simp add: entry_alive_def Size_def e_def)
  with push run show ?thesis unfolding e_def b_def by blast
qed

text \<open>
  The pointer of \<open>FSUpdateLoop\<close>: it takes it from \<open>GetEntry\<close> without a lock and reads through it
  several times while it applies the entry.
\<close>

lemma fetched_pointer:
  assumes "memory_wf m" and "GetEntry_pointer i m = Inr (Some a)" and "run_memory ops m = Inr m'"
  obtains k where "GetEntry i (log_of m) = Some (entries_of m ! k)"
    and "follow m' a = (if list_all (in_place k (entries_of m ! k)) (log_trace ops (log_of m))
      then Inr (entries_of m ! k) else Inl Dangling_pointer)"
proof -
  obtain r where r: "GetEntry_pointer i m = Inr r"
    "map_option (\<lambda>a. the (entry_heap m a)) r = GetEntry i (log_of m)" "set_option r \<subseteq> set (pointers m)"
    by (rule GetEntry_refines [OF assms(1)])
  with assms(2) obtain k where k: "k < length (pointers m)" "pointers m ! k = a"
    by (auto simp: in_set_conv_nth)
  from r assms(2) k have "GetEntry i (log_of m) = Some (entries_of m ! k)" by auto
  with run_pointer [OF assms(1) k(1) assms(3)] k(2) show thesis by (intro that [of k]) auto
qed

text \<open>
  The second entry is committed and fetched; then the leader of term 2 replaces it, and the
  thread reads a freed entry.
\<close>

lemma fetched_pointer_dangles:
  defines "e1 \<equiv> \<lparr>e_term = 1, e_index = 1, e_op = kMkdir, e_value = ''/a''\<rparr>"
    and "e2 \<equiv> \<lparr>e_term = 1, e_index = 2, e_op = kMkdir, e_value = ''/b''\<rparr>"
    and "e2' \<equiv> \<lparr>e_term = 2, e_index = 2, e_op = kMkdir, e_value = ''/c''\<rparr>"
  shows "\<exists>m a m'. run_memory [Batch [e1, e2], Mark 2] new_memory = Inr m \<and>
    GetEntry_pointer 2 m = Inr (Some a) \<and>
    run_memory [Batch [e1, e2']] m = Inr m' \<and> follow m' a = Inl Dangling_pointer"
  by (simp add: new_memory_def Append_batch_def new_entry_def push_pointer_def follow_def
      SetLastCommitIndex_memory_def GetEntry_pointer_def same_entry_def delete_entry_def
      erase_pointers_def e1_def e2_def e2'_def)

text \<open>
  What \<open>RemoveEntryAfter\<close> takes out of the deque is lost: nobody holds a pointer to it, and the
  destructor does not see it.
\<close>

lemma RemoveEntryAfter_refines:
  assumes "memory_wf m"
  obtains m' where "RemoveEntryAfter_pointers i m = Inr m'"
    and "log_of m' = RemoveEntryAfter i (log_of m)" and "entry_heap m' = entry_heap m" and "memory_wf m'"
proof -
  let ?f = "find_index (\<lambda>e. e_index e = i) (entries_of m)"
  have f: "find_pointer (\<lambda>e. e_index e = i) m (pointers m) = Inr ?f"
    using find_pointer_live [OF assms order_refl] by (simp add: entries_of_def)
  show thesis
  proof (cases ?f)
    case None
    with f that [of m] assms show thesis
      by (simp add: RemoveEntryAfter_pointers_def RemoveEntryAfter_def del: find_index_None)
  next
    case (Some k)
    have "memory_wf (m\<lparr>pointers := take k (pointers m)\<rparr>)"
      using assms set_take_subset [of k "pointers m"] by (auto simp: memory_wf_def)
    with Some f that [of "m\<lparr>pointers := take k (pointers m)\<rparr>"] show thesis
      by (simp add: RemoveEntryAfter_pointers_def RemoveEntryAfter_def log_of_def entries_of_def take_map)
  qed
qed

lemma RemoveEntryAfter_leaks:
  assumes "memory_wf m" and "RemoveEntryAfter_pointers i m = Inr m'" and "destroy_log m' = Inr m''"
    and "a \<in> set (pointers m)" and "a \<notin> set (pointers m')"
  shows "entry_heap m'' a \<noteq> None"
proof -
  obtain m1 where "RemoveEntryAfter_pointers i m = Inr m1" "entry_heap m1 = entry_heap m" "memory_wf m1"
    by (rule RemoveEntryAfter_refines [OF assms(1)])
  with assms(2) have m': "entry_heap m' = entry_heap m" "memory_wf m'" by auto
  from destroy_log_wf [OF m'(2)] assms(3) have "entry_heap m'' = entry_heap m' |` unowned m'" by force
  with live_pointer [OF assms(1,4)] m' assms(5) show ?thesis
    by (auto simp: restrict_map_def unowned_def)
qed

end
