(* ===== verification/Leader_Waits.thy ===== *)
theory Leader_Waits
  imports Client_Answers Log_Memory
begin

text \<open>
  When the wait of \<open>OnMetaOperation\<close> is safe.  The handler keeps a pointer to its entry and the
  log may free the entry meanwhile; as long as the term of the server lasts it is a leader that
  takes no requests, so its log only grows, the entry stays and the handler has an answer.
\<close>

section \<open>The log of a leader along a run\<close>

lemma leader_stays:
  assumes reach: "reachable orderly ids c" and step: "orderly c l" "cluster_step ids c l d"
    and n: "n \<in> set ids" and leader: "current_role (node c n) = kLeader"
    and same: "current_term (node d n) = current_term (node c n)"
  shows "current_role (node d n) = kLeader"
    and "set (memory_log (raft_log (node c n))) \<subseteq> set (memory_log (raft_log (node d n)))"
proof -
  obtain H where H: "entries_inv ids c H" using reachable_entries_inv [OF reach] by blast
  have inv: "election_inv ids c" using reach by (simp add: reachable_election_inv orderly_timely)
  from leader_log_grows [OF step(2) inv H n leader same]
  show "set (memory_log (raft_log (node c n))) \<subseteq> set (memory_log (raft_log (node d n)))" .
  show "current_role (node d n) = kLeader"
    using step(2) reachable_members [OF reach]
  proof (cases rule: cluster_step_server)
    case (moved k st')
    with leader same server.leader_of_term [OF moved(2)] show ?thesis by (cases "k = n") auto
  qed (use leader in simp)
qed

lemma leader_keeps_entry:
  assumes "reachable orderly ids c" and "run_through orderly ids c ds" and "n \<in> set ids"
    and "current_role (node c n) = kLeader" and "e \<in> set (memory_log (raft_log (node c n)))"
    and "\<forall>d \<in> set ds. current_term (node d n) = current_term (node c n)"
  shows "\<forall>d \<in> set ds. e \<in> set (memory_log (raft_log (node d n))) \<and> log_wf (raft_log (node d n))"
  using assms
proof (induction ds arbitrary: c)
  case (Cons d ds)
  then obtain l where l: "orderly c l" "cluster_step ids c l d" and rest: "run_through orderly ids d ds" by auto
  have reach: "reachable orderly ids d" by (rule reachable.step [OF Cons.prems(1) l])
  note stays = leader_stays [OF Cons.prems(1) l Cons.prems(3,4)]
  have e: "e \<in> set (memory_log (raft_log (node d n)))" using stays(2) Cons.prems(5,6) by auto
  have wf: "log_wf (raft_log (node d n))"
    using cluster_logs_okD(1) [OF reachable_logs_ok [OF reach] Cons.prems(3)] by (simp add: server_logs_ok_def)
  have "\<forall>d' \<in> set ds. current_term (node d' n) = current_term (node d n)" using Cons.prems(6) by simp
  from Cons.IH [OF reach rest Cons.prems(3) _ e this] stays(1) Cons.prems(6) e wf show ?case by auto
qed simp

lemma member_alive:
  assumes "log_wf (raft_log st)" and "e \<in> set (memory_log (raft_log st))"
  shows "entry_alive e st"
proof -
  obtain i where i: "i < length (memory_log (raft_log st))" "memory_log (raft_log st) ! i = e"
    using assms(2) by (auto simp: in_set_conv_nth)
  with assms(1) have "e_index e = int i + 1" by (auto simp: log_wf_def numbered_nth)
  with i show ?thesis by (simp add: entry_alive_def Size_def)
qed


section \<open>The handler always has an answer\<close>

lemma leader_wait:
  assumes "reachable orderly ids c" and "n \<in> set ids" and "rpc_meta op = Some handler"
    and "ValidatePath path" and "current_role (node c n) = kLeader"
    and "c1 = set_node n (snd (meta_append op path (node c n))) c" and "run_through orderly ids c1 ds"
    and "\<forall>d \<in> set ds. current_term (node d n) = current_term (node c n)"
  shows "list_all (entry_alive (fst (meta_append op path (node c n)))) (map (\<lambda>d. node d n) ds)"
proof -
  have ok: "raft_ok (node c n)" by (rule members_okD(1) [OF reachable_members(1) [OF assms(1)] assms(2)])
  have wf: "log_wf (raft_log (node c n))"
    using cluster_logs_okD(1) [OF reachable_logs_ok [OF assms(1)] assms(2)] by (simp add: server_logs_ok_def)
  note app = meta_append_eq [OF wf, of op path]
  have step: "cluster_step ids c (Client n) c1"
    unfolding assms(6) by (rule cluster_step.client [OF assms(2)]) (use ok assms(5) in \<open>auto simp: raft_ok_def\<close>)
  have reach1: "reachable orderly ids c1"
    by (rule reachable.step [OF assms(1) _ step]) (simp add: orderly_def assms(5))
  have "current_role (node c1 n) = kLeader" "current_term (node c1 n) = current_term (node c n)"
    "fst (meta_append op path (node c n)) \<in> set (memory_log (raft_log (node c1 n)))"
    using assms(5) app(2) by (simp_all add: assms(6) raft_frame)
  with leader_keeps_entry [OF reach1 assms(7,2)] assms(8) show ?thesis
    by (auto simp: list_all_iff intro: member_alive)
qed

text \<open>
  C9. A leader answers.  In a run in which vote replies are counted in their term and leaders
  log the operations, a handler called with a valid path at a leader reads no freed memory
  and answers \<open>kOK\<close> or \<open>kTimeout\<close>, whatever steps such a run takes while it waits, as long as
  the term of its server lasts.
\<close>

theorem leader_answers:
  assumes "reachable orderly ids c" and "n \<in> set ids" and "rpc_meta op = Some handler"
    and "ValidatePath path" and "current_role (node c n) = kLeader"
    and "c1 = set_node n (snd (meta_append op path (node c n))) c" and "run_through orderly ids c1 ds"
    and "\<forall>d \<in> set ds. current_term (node d n) = current_term (node c n)"
  shows "\<exists>ret. handler path (\<lambda>_. map (\<lambda>d. node d n) ds) (node c n) default_meta_response =
      Inr (node (last (c1 # ds)) n, ret) \<and> mr_status ret \<in> {kOK, kTimeout}"
proof -
  have ok: "raft_ok (node c n)" by (rule members_okD(1) [OF reachable_members(1) [OF assms(1)] assms(2)])
  then have "leader_id (node c n) \<noteq> -1" using assms(5) by (auto simp: raft_ok_def)
  with leader_wait [OF assms] have "OnMetaOperation op path (\<lambda>_. map (\<lambda>d. node d n) ds) (node c n) =
      (let st' = last (snd (meta_append op path (node c n)) # map (\<lambda>d. node d n) ds) in
       Inr (st', if e_index (fst (meta_append op path (node c n))) \<le> GetLastCommitIndex (raft_log st')
                 then kOK else kTimeout))"
    unfolding OnMetaOperation_eq Let_def by simp
  moreover have "last (snd (meta_append op path (node c n)) # map (\<lambda>d. node d n) ds) = node (last (c1 # ds)) n"
    by (simp add: assms(6) last_map)
  ultimately show ?thesis
    using assms(4,5) rpc_meta_handler [OF assms(3)]
    by (simp add: meta_handler_def IsLeader_def default_meta_response_def Let_def del: last.simps)
qed


text \<open>The handler of the leader of three servers, while it replicates the entry to server 3.\<close>

theorem leader_answers_witness:
  "\<exists>ret. rpc_Mkdir ''/a'' (\<lambda>_. map (\<lambda>d. node d 1) [demo_entry_sent, demo_replicated]) (node demo_elected 1)
      default_meta_response = Inr (node demo_replicated 1, ret) \<and> mr_status ret \<in> {kOK, kTimeout}"
proof -
  have "\<forall>d \<in> set [demo_entry_sent, demo_replicated]. current_term (node d 1) = current_term (node demo_elected 1)"
    using demo_logged_fields(3) demo_replicated_logs(4) demo_elected_leader(2)
    by (simp add: demo_entry_sent_def)
  moreover have "ValidatePath ''/a''" by (simp add: ValidatePath_def)
  ultimately show ?thesis
    using leader_answers [OF demo_elected_orderly _ rpc_meta.simps(1) _ demo_elected_leader(1)
        demo_logged_def demo_logged_run] by simp
qed

end
