(* ===== verification/Lock_Order.thy ===== *)
theory Lock_Order
  imports Raft_Prelude
begin

text \<open>
  Threads and mutexes.  A thread is the list of the locking actions it still has to do, the
  machine interleaves any number of threads, and two disciplines are stated as locales: locks
  are taken in the order of a rank, and each shared variable has a set of guards.  Nothing here
  is about the server; \<open>Server_Locks\<close> instantiates both with its threads.
\<close>

section \<open>Threads and their interleavings\<close>

text \<open>
  A thread takes and releases mutexes, reads and writes shared variables, and calls another
  server.  \<open>lock_guard\<close> and \<open>unique_lock\<close> are a pair of the first two, the wait of a condition
  variable is a release followed by an acquisition.
\<close>

datatype ('l, 'v) action = Acquire 'l | Release 'l | Reads 'v | Writes 'v | Remote_call

type_synonym ('l, 'v) thread = "'l list \<times> ('l, 'v) action list"

definition free :: "'l \<Rightarrow> ('l, 'v) thread list \<Rightarrow> bool" where
  "free l ts \<longleftrightarrow> list_all (\<lambda>(held, t). l \<notin> set held) ts"

text \<open>
  The next action of one thread among all of them.  A mutex that another thread holds, or
  that the thread itself holds, cannot be taken.
\<close>

fun advance :: "('l, 'v) thread list \<Rightarrow> ('l, 'v) thread \<Rightarrow> ('l, 'v) thread option" where
  "advance ts (held, []) = None"
| "advance ts (held, Acquire l # t) = (if free l ts then Some (l # held, t) else None)"
| "advance ts (held, Release l # t) = Some (remove1 l held, t)"
| "advance ts (held, a # t) = Some (held, t)"

inductive interleave :: "('l, 'v) thread list \<Rightarrow> ('l, 'v) thread list \<Rightarrow> bool" where
  none: "interleave ts ts"
| one: "interleave ts us \<Longrightarrow> i < length us \<Longrightarrow> advance us (us ! i) = Some th \<Longrightarrow>
    interleave ts (us[i := th])"

definition start :: "('l, 'v) action list list \<Rightarrow> ('l, 'v) thread list" where
  "start progs = map (Pair []) progs"

text \<open>The interleaving in which the threads take their turns as a list of positions says.\<close>

fun schedule :: "nat list \<Rightarrow> ('l, 'v) thread list \<Rightarrow> ('l, 'v) thread list option" where
  "schedule [] ts = Some ts"
| "schedule (i # is) ts =
     (if i < length ts
      then case advance ts (ts ! i) of None \<Rightarrow> None | Some th \<Rightarrow> schedule is (ts[i := th])
      else None)"

definition finished :: "('l, 'v) thread list \<Rightarrow> bool" where
  "finished ts \<longleftrightarrow> list_all (\<lambda>(held, t). t = []) ts"

lemma interleave_trans: "interleave us vs \<Longrightarrow> interleave ts us \<Longrightarrow> interleave ts vs"
  by (induction rule: interleave.induct) (auto intro: interleave.one)

lemma schedule_interleave: "schedule is ts = Some us \<Longrightarrow> interleave ts us"
proof (induction "is" arbitrary: ts)
  case (Cons i "is")
  then obtain th where "i < length ts" "advance ts (ts ! i) = Some th" "schedule is (ts[i := th]) = Some us"
    by (auto split: if_splits option.splits)
  with Cons.IH interleave.one [OF interleave.none] interleave_trans show ?case by blast
qed (simp add: interleave.none)

text \<open>A mutex has one holder.\<close>

definition exclusive :: "('l, 'v) thread list \<Rightarrow> bool" where
  "exclusive ts \<longleftrightarrow>
     (\<forall>i < length ts. distinct (fst (ts ! i))) \<and>
     (\<forall>i < length ts. \<forall>j < length ts. i \<noteq> j \<longrightarrow> set (fst (ts ! i)) \<inter> set (fst (ts ! j)) = {})"

lemma free_nth: "free l ts \<longleftrightarrow> (\<forall>i < length ts. l \<notin> set (fst (ts ! i)))"
  by (auto simp: free_def list_all_length case_prod_unfold)

lemma advance_held:
  "advance ts (held, t) = Some (held', t') \<Longrightarrow>
   (\<exists>l. free l ts \<and> held' = l # held) \<or> (\<exists>l. held' = remove1 l held) \<or> held' = held"
  by (cases "(ts, held, t)" rule: advance.cases) (auto split: if_splits)

lemma exclusive_update:
  assumes ex: "exclusive ts" and i: "i < length ts" and d: "distinct (fst th)"
    and h: "\<And>l. l \<in> set (fst th) \<Longrightarrow> l \<in> set (fst (ts ! i)) \<or> free l ts"
  shows "exclusive (ts[i := th])"
proof -
  have other: "set (fst th) \<inter> set (fst (ts ! k)) = {}" if "k < length ts" "k \<noteq> i" for k
    using that ex i h unfolding exclusive_def free_nth by (metis disjoint_iff)
  have "distinct (fst (ts[i := th] ! k))" if "k < length ts" for k
    using that ex d i by (cases "k = i") (auto simp: exclusive_def)
  moreover have "set (fst (ts[i := th] ! j)) \<inter> set (fst (ts[i := th] ! k)) = {}"
    if "j < length ts" "k < length ts" "j \<noteq> k" for j k
  proof -
    consider "j = i" "k \<noteq> i" | "k = i" "j \<noteq> i" | "j \<noteq> i" "k \<noteq> i"
      using \<open>j \<noteq> k\<close> by blast
    then show ?thesis
    proof cases
      case 1
      with that i other [of k] show ?thesis by simp
    next
      case 2
      with that i other [of j] show ?thesis by (simp add: Int_commute)
    next
      case 3
      with that ex show ?thesis by (simp add: exclusive_def)
    qed
  qed
  ultimately show ?thesis by (simp add: exclusive_def)
qed

lemma advance_exclusive:
  assumes "exclusive ts" and "i < length ts" and "advance ts (ts ! i) = Some th"
  shows "exclusive (ts[i := th])"
proof -
  obtain held t held' t' where th: "ts ! i = (held, t)" "th = (held', t')" by (metis surj_pair)
  have d: "distinct held" using assms(1,2) th(1) by (auto simp: exclusive_def dest: spec [of _ i])
  from assms(3) th advance_held [of ts held t held' t']
  have "(\<exists>l. free l ts \<and> held' = l # held) \<or> (\<exists>l. held' = remove1 l held) \<or> held' = held" by simp
  moreover have "l \<notin> set held" if "free l ts" for l
    using that assms(2) th(1) by (auto simp: free_nth dest: spec [of _ i])
  ultimately show ?thesis
    using d th set_remove1_subset by (intro exclusive_update [OF assms(1,2)]) (fastforce simp: notin_set_remove1)+
qed

lemma interleave_exclusive: "interleave ts us \<Longrightarrow> exclusive ts \<Longrightarrow> exclusive us"
  by (induction rule: interleave.induct) (auto intro: advance_exclusive)

lemma start_exclusive: "exclusive (start progs)"
  by (simp add: exclusive_def start_def)


section \<open>Locks taken in the order of a rank\<close>

text \<open>
  Every mutex that is taken ranks above those the thread holds, only a mutex that is held is
  released, none is kept at the end, and none is held during a call of another server.
\<close>

fun in_order :: "('l \<Rightarrow> nat) \<Rightarrow> 'l list \<Rightarrow> ('l, 'v) action list \<Rightarrow> bool" where
  "in_order rank held [] \<longleftrightarrow> held = []"
| "in_order rank held (Acquire l # t) \<longleftrightarrow>
     list_all (\<lambda>k. rank k < rank l) held \<and> in_order rank (l # held) t"
| "in_order rank held (Release l # t) \<longleftrightarrow> l \<in> set held \<and> in_order rank (remove1 l held) t"
| "in_order rank held (Remote_call # t) \<longleftrightarrow> held = [] \<and> in_order rank held t"
| "in_order rank held (a # t) \<longleftrightarrow> in_order rank held t"

definition all_in_order :: "('l \<Rightarrow> nat) \<Rightarrow> ('l, 'v) thread list \<Rightarrow> bool" where
  "all_in_order rank ts \<longleftrightarrow> list_all (\<lambda>(held, t). in_order rank held t) ts"

lemma advance_in_order:
  "in_order rank held t \<Longrightarrow> advance ts (held, t) = Some (held', t') \<Longrightarrow> in_order rank held' t'"
  by (cases "(ts, held, t)" rule: advance.cases) (auto split: if_splits)

lemma interleave_in_order: "interleave ts us \<Longrightarrow> all_in_order rank ts \<Longrightarrow> all_in_order rank us"
proof (induction rule: interleave.induct)
  case (one ts us i th)
  then have us: "all_in_order rank us" by simp
  obtain held t where i: "us ! i = (held, t)" by (cases "us ! i")
  obtain held' t' where th: "th = (held', t')" by (cases th)
  from us one.hyps(2) i have "in_order rank held t"
    by (auto simp: all_in_order_def list_all_length dest: spec [of _ i])
  then have "in_order rank held' t'" by (rule advance_in_order) (use one.hyps(3) i th in simp)
  with us th show ?case
    unfolding all_in_order_def list_all_iff using set_update_subset_insert [of us i th] by auto
qed

text \<open>A thread that cannot move wants a mutex that a thread holds.\<close>

lemma stuck_wants:
  assumes "in_order rank held t" and "t \<noteq> []" and "advance ts (held, t) = None"
  obtains l rest where "t = Acquire l # rest" and "\<not> free l ts"
  using assms by (cases "(ts, held, t)" rule: advance.cases) (auto split: if_splits)

lemma in_order_wants: "in_order rank held (Acquire l # t) \<Longrightarrow> k \<in> set held \<Longrightarrow> rank k < rank l"
  by (auto simp: list_all_iff)

text \<open>The rank of what a thread waits for, and 0 if it waits for nothing.\<close>

fun waited_rank :: "('l \<Rightarrow> nat) \<Rightarrow> ('l, 'v) thread \<Rightarrow> nat" where
  "waited_rank rank (held, Acquire l # t) = Suc (rank l)"
| "waited_rank rank _ = 0"

lemma in_order_progress:
  assumes ord: "all_in_order rank ts" and "\<not> finished ts"
  shows "\<exists>i < length ts. \<exists>th. advance ts (ts ! i) = Some th"
proof (rule ccontr)
  assume "\<not> ?thesis"
  then have stuck: "advance ts (ts ! i) = None" if "i < length ts" for i
    using that by (metis option.exhaust)
  have wants: "\<exists>l rest. snd (ts ! i) = Acquire l # rest \<and> \<not> free l ts"
    if "i < length ts" "snd (ts ! i) \<noteq> []" for i
  proof -
    obtain held t where i: "ts ! i = (held, t)" by (cases "ts ! i")
    with ord that(1) have "in_order rank held t"
      by (auto simp: all_in_order_def list_all_length dest: spec [of _ i])
    then show ?thesis using stuck [OF that(1)] that(2) i by (auto elim: stuck_wants)
  qed
  have above: "\<exists>j < length ts. snd (ts ! j) \<noteq> [] \<and> waited_rank rank (ts ! i) < waited_rank rank (ts ! j)"
    if i: "i < length ts" "snd (ts ! i) \<noteq> []" for i
  proof -
    from wants [OF i] obtain l rest where l: "snd (ts ! i) = Acquire l # rest" "\<not> free l ts" by blast
    then obtain j where j: "j < length ts" "l \<in> set (fst (ts ! j))" by (auto simp: free_nth)
    obtain held t where tj: "ts ! j = (held, t)" by (cases "ts ! j")
    with ord j have o: "in_order rank held t"
      by (auto simp: all_in_order_def list_all_length dest: spec [of _ j])
    have "t \<noteq> []" using o j tj by auto
    with wants [OF j(1)] tj obtain k rest' where k: "t = Acquire k # rest'" by auto
    have "rank l < rank k" using in_order_wants o j tj unfolding k by fastforce
    moreover have "waited_rank rank (ts ! i) = Suc (rank l)" using l(1) by (cases "ts ! i") simp
    ultimately show ?thesis using j(1) tj k by (intro exI [of _ j]) simp
  qed
  let ?is = "{i. i < length ts \<and> snd (ts ! i) \<noteq> []}"
  let ?m = "Max ((\<lambda>i. waited_rank rank (ts ! i)) ` ?is)"
  have ne: "?is \<noteq> {}" using assms(2) by (auto simp: finished_def list_all_length case_prod_unfold)
  have "?m \<in> (\<lambda>i. waited_rank rank (ts ! i)) ` ?is" by (rule Max_in) (use ne in auto)
  then obtain i where i: "i \<in> ?is" "?m = waited_rank rank (ts ! i)" by blast
  with above [of i] obtain j where "j \<in> ?is" "waited_rank rank (ts ! i) < waited_rank rank (ts ! j)" by blast
  moreover from this(1) have "waited_rank rank (ts ! j) \<le> ?m" by (intro Max_ge) auto
  ultimately show False using i by simp
qed

text \<open>Each step shortens what is left, so some continuation finishes all threads.\<close>

definition left :: "('l, 'v) thread list \<Rightarrow> nat" where
  "left ts = sum_list (map (\<lambda>(held, t). length t) ts)"

lemma advance_shorter: "advance ts (held, t) = Some (held', t') \<Longrightarrow> length t' < length t"
  by (cases "(ts, held, t)" rule: advance.cases) (auto split: if_splits)

lemma left_update:
  "i < length ts \<Longrightarrow> length (snd th) < length (snd (ts ! i)) \<Longrightarrow> left (ts[i := th]) < left ts"
  by (induction ts arbitrary: i) (auto simp: left_def nth_Cons case_prod_unfold split: nat.splits)

lemma in_order_finishes:
  "all_in_order rank ts \<Longrightarrow> \<exists>us. interleave ts us \<and> finished us"
proof (induction "left ts" arbitrary: ts rule: less_induct)
  case less
  show ?case
  proof (cases "finished ts")
    case True
    then show ?thesis using interleave.none by blast
  next
    case False
    from in_order_progress [OF less.prems False] obtain i th where
      i: "i < length ts" "advance ts (ts ! i) = Some th" by blast
    have step: "interleave ts (ts[i := th])" by (rule interleave.one [OF interleave.none i])
    have "length (snd th) < length (snd (ts ! i))"
      using advance_shorter [of ts "fst (ts ! i)" "snd (ts ! i)" "fst th" "snd th"] i by simp
    with less.hyps [of "ts[i := th]"] left_update [OF i(1)] interleave_in_order [OF step less.prems]
    obtain us where "interleave (ts[i := th]) us" "finished us" by blast
    then show ?thesis using interleave_trans [OF _ step] by blast
  qed
qed



section \<open>Variables and their guards\<close>

text \<open>
  A shared variable is read with one of its guards held and written with all of them held; a
  variable without guards is not checked.  Two threads race when one is about to write a
  variable that the other is about to read or write.
\<close>

fun guarded :: "('v \<Rightarrow> 'l list) \<Rightarrow> 'l list \<Rightarrow> ('l, 'v) action list \<Rightarrow> bool" where
  "guarded g held [] \<longleftrightarrow> True"
| "guarded g held (Acquire l # t) \<longleftrightarrow> guarded g (l # held) t"
| "guarded g held (Release l # t) \<longleftrightarrow> guarded g (remove1 l held) t"
| "guarded g held (Reads v # t) \<longleftrightarrow>
     (g v = [] \<or> list_ex (\<lambda>l. l \<in> set held) (g v)) \<and> guarded g held t"
| "guarded g held (Writes v # t) \<longleftrightarrow> list_all (\<lambda>l. l \<in> set held) (g v) \<and> guarded g held t"
| "guarded g held (Remote_call # t) \<longleftrightarrow> guarded g held t"

fun about_to_write :: "'v \<Rightarrow> ('l, 'v) thread \<Rightarrow> bool" where
  "about_to_write v (held, Writes u # t) \<longleftrightarrow> u = v"
| "about_to_write v _ \<longleftrightarrow> False"

fun about_to_use :: "'v \<Rightarrow> ('l, 'v) thread \<Rightarrow> bool" where
  "about_to_use v (held, Writes u # t) \<longleftrightarrow> u = v"
| "about_to_use v (held, Reads u # t) \<longleftrightarrow> u = v"
| "about_to_use v _ \<longleftrightarrow> False"

definition race :: "'v \<Rightarrow> ('l, 'v) thread list \<Rightarrow> bool" where
  "race v ts \<longleftrightarrow> (\<exists>i < length ts. \<exists>j < length ts. i \<noteq> j \<and> about_to_write v (ts ! i) \<and> about_to_use v (ts ! j))"

lemma race_eval:
  "race v ts \<longleftrightarrow> list_ex (\<lambda>i. list_ex (\<lambda>j. i \<noteq> j \<and> about_to_write v (ts ! i) \<and> about_to_use v (ts ! j))
     [0..<length ts]) [0..<length ts]"
  unfolding race_def list_ex_iff set_upt Bex_def atLeastLessThan_iff by simp

definition all_guarded :: "('v \<Rightarrow> 'l list) \<Rightarrow> ('l, 'v) thread list \<Rightarrow> bool" where
  "all_guarded g ts \<longleftrightarrow> (\<forall>(held, t) \<in> set ts. guarded g held t)"

lemma advance_guarded:
  "guarded g held t \<Longrightarrow> advance ts (held, t) = Some (held', t') \<Longrightarrow> guarded g held' t'"
  by (cases "(ts, held, t)" rule: advance.cases) (auto split: if_splits)

lemma interleave_guarded: "interleave ts us \<Longrightarrow> all_guarded g ts \<Longrightarrow> all_guarded g us"
proof (induction rule: interleave.induct)
  case (one ts us i th)
  then have us: "all_guarded g us" by simp
  have "(fst (us ! i), snd (us ! i)) \<in> set us" using one.hyps(2) by simp
  with us have "guarded g (fst (us ! i)) (snd (us ! i))" unfolding all_guarded_def by blast
  then have "guarded g (fst th) (snd th)" by (rule advance_guarded) (use one.hyps(3) in simp)
  with us show ?case
    unfolding all_guarded_def using set_update_subset_insert [of us i th] by (auto simp: case_prod_unfold)
qed

lemma write_holds_all:
  "guarded g held t \<Longrightarrow> about_to_write v (held, t) \<Longrightarrow> set (g v) \<subseteq> set held"
  by (cases "(v, held, t)" rule: about_to_write.cases) (auto simp: list_all_iff)

lemma use_holds_one:
  "guarded g held t \<Longrightarrow> about_to_use v (held, t) \<Longrightarrow> g v \<noteq> [] \<Longrightarrow> set (g v) \<inter> set held \<noteq> {}"
  by (cases "(v, held, t)" rule: about_to_use.cases) (auto simp: list_all_iff list_ex_iff neq_Nil_conv)

lemma guarded_no_race:
  assumes "all_guarded g ts" and "exclusive ts" and "g v \<noteq> []"
  shows "\<not> race v ts"
proof
  assume "race v ts"
  then obtain i j where ij: "i < length ts" "j < length ts" "i \<noteq> j"
    "about_to_write v (ts ! i)" "about_to_use v (ts ! j)" by (auto simp: race_def)
  have "guarded g (fst (ts ! k)) (snd (ts ! k))" if "k < length ts" for k
    using assms(1) that unfolding all_guarded_def by (metis case_prod_unfold nth_mem)
  then have "set (g v) \<subseteq> set (fst (ts ! i))" "set (g v) \<inter> set (fst (ts ! j)) \<noteq> {}"
    using ij write_holds_all [of g _ _ v] use_holds_one [of g _ _ v] assms(3) by (metis prod.collapse)+
  moreover have "set (fst (ts ! i)) \<inter> set (fst (ts ! j)) = {}"
    using assms(2) ij by (simp add: exclusive_def)
  ultimately show False by auto
qed


section \<open>The two disciplines as interfaces\<close>

locale ranked_threads =
  fixes rank :: "'l \<Rightarrow> nat"
    and program :: "('l, 'v) action list \<Rightarrow> bool"
  assumes program_in_order: "program t \<Longrightarrow> in_order rank [] t"
begin

lemma start_in_order: "list_all program progs \<Longrightarrow> all_in_order rank (start progs)"
  by (auto simp: all_in_order_def start_def list_all_iff program_in_order)

lemma no_deadlock:
  "list_all program progs \<Longrightarrow> interleave (start progs) us \<Longrightarrow> \<not> finished us \<Longrightarrow>
   \<exists>i < length us. \<exists>th. advance us (us ! i) = Some th"
  using in_order_progress [OF interleave_in_order [OF _ start_in_order]] by blast

lemma can_finish:
  "list_all program progs \<Longrightarrow> interleave (start progs) us \<Longrightarrow> \<exists>vs. interleave us vs \<and> finished vs"
  using in_order_finishes [OF interleave_in_order [OF _ start_in_order]] by blast

end

locale guarded_threads = ranked_threads rank program
  for rank :: "'l \<Rightarrow> nat" and program :: "('l, 'v) action list \<Rightarrow> bool" +
  fixes guards :: "'v \<Rightarrow> 'l list"
  assumes program_guarded: "program t \<Longrightarrow> guarded guards [] t"
begin

lemma no_race:
  assumes "list_all program progs" and "interleave (start progs) us" and "guards v \<noteq> []"
  shows "\<not> race v us"
proof -
  have "all_guarded guards (start progs)"
    using assms(1) program_guarded by (auto simp: all_guarded_def start_def list_all_iff)
  from guarded_no_race [OF interleave_guarded [OF assms(2) this]
      interleave_exclusive [OF assms(2) start_exclusive] assms(3)]
  show ?thesis .
qed

end

end
