(* ===== verification/Server_Locks.thy ===== *)
theory Server_Locks
  imports Lock_Order Client_RPC FS_Thread Raft_Threads
begin

text \<open>
  The mutexes of a server and the threads that take them.  For every function of
  \<open>RaftConsensus\<close>, \<open>LogManager\<close>, \<open>FSNamespace\<close> and \<open>INodeDirectory\<close> that takes part, the list
  of what it does to mutexes and shared variables, in the order of its source and with its
  branches taken as the state says.  The threads follow the order of \<open>mutex_rank\<close>, so the
  server cannot deadlock; the tree, the votes and the commit index are guarded; the log and
  the acknowledgements are not.
\<close>

section \<open>Mutexes and shared variables\<close>

text \<open>
  \<open>m\<close>, \<open>fs_m\<close> and \<open>cli_m\<close> of \<open>RaftConsensus\<close>, \<open>m\<close> of the name space, \<open>m\<close> of the log, and one
  \<open>m\<close> per directory, named by the address of the directory.
\<close>

datatype mutex = Raft_m | Fs_m | Cli_m | Name_m | Log_m | Node_m addr

datatype shared = V_role | V_term | V_leader | V_votes | V_pending | V_log | V_commit | V_tree

type_synonym acts = "(mutex, shared) action list"

fun mutex_rank :: "mutex \<Rightarrow> nat" where
  "mutex_rank Raft_m = 0"
| "mutex_rank Fs_m = 0"
| "mutex_rank Cli_m = 0"
| "mutex_rank Name_m = 1"
| "mutex_rank Log_m = 2"
| "mutex_rank (Node_m a) = a + 3"

text \<open>
  \<open>vote_for\<close> and \<open>vote_pool\<close> are used under \<open>m\<close>, the commit index under the mutex of the log.
  The tree is written by the file system thread only, under \<open>fs_m\<close> and the mutex of the name
  space; clients read it under the latter and \<open>Print\<close> under the former.
\<close>

fun guards :: "shared \<Rightarrow> mutex list" where
  "guards V_votes = [Raft_m]"
| "guards V_commit = [Log_m]"
| "guards V_tree = [Name_m, Fs_m]"
| "guards _ = []"

text \<open>The scope of a \<open>lock_guard\<close>, and the wait of a condition variable on a mutex.\<close>

definition holding :: "mutex \<Rightarrow> acts \<Rightarrow> acts" where
  "holding l t = Acquire l # t @ [Release l]"

definition cv_wait :: "mutex \<Rightarrow> acts" where
  "cv_wait l = [Release l, Acquire l]"


section \<open>The log\<close>

definition log_read_acts :: acts where
  "log_read_acts = holding Log_m [Reads V_log]"

definition GetLastCommitIndex_acts :: "log_manager \<Rightarrow> acts" where
  "GetLastCommitIndex_acts l =
     holding Log_m (Reads V_log # (if memory_log l = [] then [] else [Reads V_commit]))"

definition SetLastCommitIndex_acts :: "int \<Rightarrow> log_manager \<Rightarrow> acts" where
  "SetLastCommitIndex_acts new_index l =
     holding Log_m (Reads V_log #
       (if memory_log l \<noteq> [] \<and> new_index \<le> e_index (last (memory_log l)) then [Writes V_commit] else []))"

definition Append_entry_acts :: acts where
  "Append_entry_acts = holding Log_m [Reads V_log, Writes V_log]"

definition Append_entries_acts :: "entry list \<Rightarrow> log_manager \<Rightarrow> acts" where
  "Append_entries_acts es l =
     holding Log_m (Reads V_log #
       (case Append_entries es l of
          Inl u \<Rightarrow> [Writes V_log]
        | Inr (ok, l') \<Rightarrow> if memory_log l' = memory_log l then [] else [Writes V_log]))"

text \<open>\<open>GetEntry\<close>, \<open>GetEntriesStartAt\<close> and the debug print of the log take no lock.\<close>

definition unlocked_log_read_acts :: acts where
  "unlocked_log_read_acts = [Reads V_log]"


section \<open>The consensus object\<close>

definition StartLeaderElection_acts :: acts where
  "StartLeaderElection_acts = [Writes V_term, Writes V_role, Writes V_leader, Writes V_votes]"

definition ChangeToLeader_acts :: acts where
  "ChangeToLeader_acts = [Writes V_role, Writes V_leader] @ log_read_acts"

definition ChangeToFollower_acts :: "raft \<Rightarrow> acts" where
  "ChangeToFollower_acts st =
     Reads V_role # (if current_role st = kCandidate then [Writes V_votes] else []) @
     [Writes V_role, Writes V_term, Writes V_leader]"

definition OnRequestVote_acts :: "rv_request \<Rightarrow> raft \<Rightarrow> acts" where
  "OnRequestVote_acts req st =
     holding Raft_m
       (log_read_acts @ [Reads V_term] @
        (if rv_term req > current_term st then ChangeToFollower_acts st else []) @
        (if GetLastLogIndex (raft_log st) \<le> rv_last_log_index req
            \<and> GetLastLogTerm (raft_log st) \<le> rv_last_log_term req
         then Reads V_votes #
           (if vote_for st (rv_term req) \<in> {None, Some (rv_candidate_id req)}
            then [Writes V_votes, Reads V_term] else [])
         else []) @
        [Reads V_term])"

definition OnAppendEntries_acts :: "tick \<Rightarrow> tick \<Rightarrow> ae_request \<Rightarrow> raft \<Rightarrow> acts" where
  "OnAppendEntries_acts t1 t2 req st =
     holding Raft_m
       ([Reads V_term, Reads V_term] @
        (if current_term st > ae_term req then []
         else
           let st1 = ae_adopt_term t1 t2 req st; l = raft_log st in
           [Reads V_term, Reads V_role] @
           (if ae_term req > current_term st \<or> current_role st = kCandidate
            then ChangeToFollower_acts st @ [Writes V_leader] else []) @
           [Reads V_leader] @ (if leader_id st1 = -1 then [Writes V_leader] else []) @
           log_read_acts @
           (if GetLastLogIndex l \<ge> ae_prev_log_index req
            then (if ae_entries req \<noteq> [] then Append_entries_acts (ae_entries req) l @ log_read_acts else [])
            else log_read_acts @ log_read_acts) @
           (case ae_append req l of
              Inl u \<Rightarrow> []
            | Inr (success, last_index, l1) \<Rightarrow>
                GetLastCommitIndex_acts l1 @
                (if ae_leader_commit_index req > GetLastCommitIndex l1
                 then SetLastCommitIndex_acts (ae_leader_commit_index req) l1 @ GetLastCommitIndex_acts l1
                 else []) @
                (if ae_entries req \<noteq> [] then unlocked_log_read_acts else []) @
                (if success then log_read_acts else []))))"

text \<open>One round of \<open>CheckLeaderLoop\<close>; the lock is scoped to the round.\<close>

definition check_leader_acts :: "int \<Rightarrow> raft \<Rightarrow> acts" where
  "check_leader_acts now st =
     holding Raft_m
       (Reads V_role #
        (if current_role st \<noteq> kLeader \<and> now \<ge> next_election st then StartLeaderElection_acts else []) @
        [Reads V_role] @ cv_wait Raft_m)"

text \<open>
  One round of \<open>RemoteHostLoop\<close>, which holds \<open>m\<close> between rounds and lets go of it around the
  call of the other server.  \<open>st'\<close> is the state when it has the lock again, \<open>answer\<close> how the
  call ended.
\<close>

definition remote_call_acts :: acts where
  "remote_call_acts = [Release Raft_m, Remote_call, Acquire Raft_m]"

definition ae_response_acts :: "int \<Rightarrow> ae_request \<Rightarrow> ae_response \<Rightarrow> raft \<Rightarrow> acts" where
  "ae_response_acts i req resp st =
     Reads V_term #
     (if aer_term resp = current_term st
      then (if aer_success resp
            then (if ae_entries req \<noteq> []
                  then
                    let commit_index = GetLastCommitIndex (raft_log st);
                        new_commit = snd (count_acks i (quorum_size st) commit_index (ae_entries req)
                          (pending_entries st) commit_index) in
                    GetLastCommitIndex_acts (raft_log st) @
                    concat (map (\<lambda>e. if commit_index \<ge> e_index e then [] else [Writes V_pending, Reads V_pending])
                      (ae_entries req)) @
                    (if commit_index \<noteq> new_commit
                     then SetLastCommitIndex_acts new_commit (raft_log st) @ unlocked_log_read_acts else []) @
                    cv_wait Raft_m
                  else cv_wait Raft_m)
            else [])
      else Reads V_term #
        (if aer_term resp > current_term st then ChangeToFollower_acts st else []) @ cv_wait Raft_m)"

definition rv_response_acts :: "int \<Rightarrow> rv_response \<Rightarrow> raft \<Rightarrow> acts" where
  "rv_response_acts i resp st =
     Reads V_role #
     (if current_role st \<noteq> kCandidate then []
      else
        [Reads V_term, Reads V_role] @
        (if rvr_vote_granted resp \<and> rvr_term resp \<le> current_term st
         then [Writes V_votes, Reads V_votes] @
           (if int (card (insert i (vote_pool st))) \<ge> quorum_size st then ChangeToLeader_acts else cv_wait Raft_m)
         else cv_wait Raft_m))"

definition remote_round_acts ::
  "int \<Rightarrow> ae_response rpc_result \<Rightarrow> rv_response rpc_result \<Rightarrow> raft \<Rightarrow> raft \<Rightarrow> acts"
where
  "remote_round_acts i ae_answer rv_answer st st' =
     Reads V_role #
     (case remote_call i st of
        Call_AE req \<Rightarrow>
          Reads V_term # log_read_acts @ GetLastCommitIndex_acts (raft_log st) @
          [Reads V_term, Reads V_leader] @ log_read_acts @
          (if ae_prev_log_index req < GetLastLogIndex (raft_log st) then unlocked_log_read_acts else []) @
          remote_call_acts @
          (case ae_answer of
             Comm_lost \<Rightarrow> cv_wait Raft_m
           | Not_connected \<Rightarrow> ae_response_acts i req default_ae_response st'
           | Replied resp \<Rightarrow> ae_response_acts i req resp st')
      | No_call \<Rightarrow> cv_wait Raft_m
      | Call_RV req \<Rightarrow>
          [Reads V_term] @ log_read_acts @ log_read_acts @ [Reads V_term] @
          remote_call_acts @
          (case rv_answer of
             Comm_lost \<Rightarrow> cv_wait Raft_m
           | Not_connected \<Rightarrow> rv_response_acts i default_rv_response st'
           | Replied resp \<Rightarrow> rv_response_acts i resp st'))"

text \<open>
  \<open>OnMetaOperation\<close>: it takes no lock of the consensus object; \<open>waits\<close> are the states in
  which its wait tests the commit index again.
\<close>

definition meta_test_acts :: "raft \<Rightarrow> acts" where
  "meta_test_acts st = Reads V_log # GetLastCommitIndex_acts (raft_log st)"

definition OnMetaOperation_acts :: "raft \<Rightarrow> raft list \<Rightarrow> acts" where
  "OnMetaOperation_acts st waits =
     Reads V_leader #
     (if leader_id st = -1 then []
      else
        [Reads V_term] @ Append_entry_acts @ [Reads V_log] @ log_read_acts @
        holding Cli_m (meta_test_acts st @ concat (map (\<lambda>st'. cv_wait Cli_m @ meta_test_acts st') waits)))"



section \<open>The name space\<close>

definition node_read :: "addr \<Rightarrow> acts" where
  "node_read d = holding (Node_m d) [Reads V_tree]"

definition node_write :: "addr \<Rightarrow> acts" where
  "node_write d = holding (Node_m d) [Writes V_tree]"

text \<open>\<open>CreateFile\<close> and \<open>CreateDir\<close> of a directory: \<open>GetChild\<close>, then \<open>AddChild\<close>, each with its own lock.\<close>

definition create_acts :: "string \<Rightarrow> addr \<Rightarrow> heap \<Rightarrow> acts" where
  "create_acts x d h =
     node_read d @ (case GetChild x d h of Inr None \<Rightarrow> node_write d | _ \<Rightarrow> [])"

text \<open>
  \<open>DeleteChild\<close> keeps the lock of the directory while it asks the child whether it is empty and
  deletes what is below it.
\<close>

definition child_named :: "string \<Rightarrow> addr \<Rightarrow> heap \<Rightarrow> (addr \<times> inode) outcome" where
  "child_named x d h =
     and_then (dir_at d h) (\<lambda>(cs, m).
     and_then (find_child x cs h) (\<lambda>found.
     case found of
       None \<Rightarrow> Inl Iterator_out_of_range
     | Some p \<Rightarrow> and_then (deref (cs ! p) h) (\<lambda>n. Inr (cs ! p, n))))"

fun DeleteChild_acts :: "nat \<Rightarrow> string \<Rightarrow> bool \<Rightarrow> addr \<Rightarrow> heap \<Rightarrow> acts"
  and DeleteAllChild_acts :: "nat \<Rightarrow> addr \<Rightarrow> heap \<Rightarrow> acts"
where
  "DeleteChild_acts 0 x recursive d h = []"
| "DeleteChild_acts (Suc f) x recursive d h =
     holding (Node_m d)
       (Reads V_tree #
        (case child_named x d h of
           Inl u \<Rightarrow> []
         | Inr (c, n) \<Rightarrow>
             (if IsDir n then node_read c else []) @
             (if \<not> IsDir n \<or> DirIsEmpty c h = Inr True then [Writes V_tree]
              else if \<not> recursive then []
              else DeleteAllChild_acts f c h @
                (case DeleteAllChild_fuel f c h of Inr (True, h1) \<Rightarrow> [Writes V_tree] | _ \<Rightarrow> []))))"
| "DeleteAllChild_acts 0 d h = []"
| "DeleteAllChild_acts (Suc f) d h =
     node_read d @
     (case dir_at d h of
        Inr (c # cs, m) \<Rightarrow>
          Reads V_tree #
          (case deref c h of
             Inl u \<Rightarrow> []
           | Inr n \<Rightarrow> DeleteChild_acts f (i_name n) True d h @
               (case DeleteChild_fuel f (i_name n) True d h of
                  Inr (True, h1) \<Rightarrow> DeleteAllChild_acts f d h1
                | _ \<Rightarrow> []))
      | _ \<Rightarrow> [])"

fun descend_acts :: "string list \<Rightarrow> addr \<Rightarrow> heap \<Rightarrow> acts" where
  "descend_acts [] current h = []"
| "descend_acts (x # xs) current h =
     node_read current @
     (case GetChild x current h of
        Inr (Some s) \<Rightarrow>
          (case deref s h of Inr n \<Rightarrow> if IsDir n then descend_acts xs s h else [] | _ \<Rightarrow> [])
      | _ \<Rightarrow> [])"

definition parent_acts :: "string \<Rightarrow> fs_namespace \<Rightarrow> acts" where
  "parent_acts abs_path ns =
     (if abs_path = ''/'' then []
      else descend_acts (butlast (SplitPath abs_path)) (fs_root ns) (fs_heap ns))"

fun MakeDir_loop_acts :: "int \<Rightarrow> bool \<Rightarrow> string list \<Rightarrow> addr \<Rightarrow> heap \<Rightarrow> acts" where
  "MakeDir_loop_acts now make_parents [] current h = []"
| "MakeDir_loop_acts now make_parents (x # xs) current h =
     node_read current @
     (case GetChild x current h of
        Inl u \<Rightarrow> []
      | Inr (Some s) \<Rightarrow> MakeDir_loop_acts now make_parents xs s h
      | Inr None \<Rightarrow>
          if xs \<noteq> [] then
            (if make_parents then
               create_acts x current h @
               (case node_CreateDir now x current h of
                  Inr (Some s, h1) \<Rightarrow> MakeDir_loop_acts now make_parents xs s h1
                | _ \<Rightarrow> [])
             else [])
          else create_acts x current h)"

definition MakeDir_acts :: "int \<Rightarrow> string \<Rightarrow> bool \<Rightarrow> fs_namespace \<Rightarrow> acts" where
  "MakeDir_acts now abs_dir make_parents ns =
     (let dir_split = SplitPath abs_dir in
      holding Name_m
        (MakeDir_loop_acts now make_parents dir_split (fs_root ns) (fs_heap ns) @
         (case MakeDir_loop now make_parents 0 dir_split (fs_root ns) 0 (fs_heap ns) of
            Inr (Left_loop i current new_dir h) \<Rightarrow>
              if new_dir \<noteq> 0 \<and> new_dir \<noteq> i then
                Reads V_tree #
                (case ascend (i - (new_dir - 1)) current h of
                   Inr d \<Rightarrow> DeleteChild_acts (delete_fuel h) (dir_split ! new_dir) True d h
                 | _ \<Rightarrow> [])
              else []
          | _ \<Rightarrow> [])))"

definition remove_acts :: "(inode \<Rightarrow> bool) \<Rightarrow> bool \<Rightarrow> string \<Rightarrow> fs_namespace \<Rightarrow> acts" where
  "remove_acts removable recursive path ns =
     holding Name_m
       (parent_acts path ns @
        (case GetParentFolderAndChild path ns of
           Inr (Some d, name) \<Rightarrow>
             if name = [] then []
             else node_read d @
               (case GetChild name d (fs_heap ns) of
                  Inr (Some c) \<Rightarrow>
                    Reads V_tree #
                    (case deref c (fs_heap ns) of
                       Inr n \<Rightarrow>
                         if removable n
                         then DeleteChild_acts (delete_fuel (fs_heap ns)) name recursive d (fs_heap ns)
                         else []
                     | _ \<Rightarrow> [])
                | _ \<Rightarrow> [])
         | _ \<Rightarrow> []))"

definition CreateFile_acts :: "string \<Rightarrow> fs_namespace \<Rightarrow> acts" where
  "CreateFile_acts new_file ns =
     holding Name_m
       (parent_acts new_file ns @
        (case GetParentFolderAndChild new_file ns of
           Inr (Some d, name) \<Rightarrow> if name = [] then [] else create_acts name d (fs_heap ns)
         | _ \<Rightarrow> []))"

text \<open>\<open>ListDir\<close> and \<open>GetFileInfo\<close> end with a locked listing and an unlocked climb to the root.\<close>

definition ListDir_acts :: "string \<Rightarrow> fs_namespace \<Rightarrow> acts" where
  "ListDir_acts abs_dir ns =
     holding Name_m
       (parent_acts abs_dir ns @
        (case GetParentFolderAndChild abs_dir ns of
           Inr (Some d, name) \<Rightarrow>
             if name = [] then node_read d
             else node_read d @
               (case GetChild name d (fs_heap ns) of Inr (Some c) \<Rightarrow> node_read c | _ \<Rightarrow> [])
         | _ \<Rightarrow> []))"

definition GetFileInfo_acts :: "string \<Rightarrow> fs_namespace \<Rightarrow> acts" where
  "GetFileInfo_acts filename ns =
     holding Name_m
       (parent_acts filename ns @
        (case GetParentFolderAndChild filename ns of
           Inr (Some d, name) \<Rightarrow>
             if name = [] then []
             else node_read d @
               (case GetChild name d (fs_heap ns) of Inr (Some c) \<Rightarrow> [Reads V_tree] | _ \<Rightarrow> [])
         | _ \<Rightarrow> []))"


section \<open>The file system thread\<close>

definition apply_entry_acts :: "int \<Rightarrow> entry \<Rightarrow> fs_namespace \<Rightarrow> acts" where
  "apply_entry_acts now e ns =
     (case e_op e of
        kMkdir \<Rightarrow> MakeDir_acts now (e_value e) True ns
      | kRmdir \<Rightarrow> remove_acts (\<lambda>n. IsDir n \<and> may_access ''unknown'' n) True (e_value e) ns
      | kCreate \<Rightarrow> CreateFile_acts (e_value e) ns
      | kDelete \<Rightarrow> remove_acts (\<lambda>n. IsFile n \<and> may_access ''unknown'' n) False (e_value e) ns
      | _ \<Rightarrow> [])"

text \<open>
  A step of \<open>FSUpdateLoop\<close>, which holds \<open>fs_m\<close>: a test of the wait, or an iteration.  The
  subscript \<open>pending_entries[i]\<close> creates a missing element, so it writes the map.
\<close>

fun fs_step_acts :: "(int \<Rightarrow> int) \<Rightarrow> raft \<Rightarrow> fs_thread \<Rightarrow> fs_namespace \<Rightarrow> acts" where
  "fs_step_acts now st Fs_waiting ns =
     GetLastCommitIndex_acts (raft_log st) @ (if must_update st ns then [] else cv_wait Fs_m)"
| "fs_step_acts now st (Fs_running i commited) ns =
     GetLastCommitIndex_acts (raft_log st) @
     (if i \<le> GetLastCommitIndex (raft_log st)
      then Reads V_role # (if IsLeader st then [Writes V_pending] else []) @ [Reads V_role]
      else []) @
     (if i \<le> GetLastCommitIndex (raft_log st) \<and> may_apply i st
      then unlocked_log_read_acts @
        (case GetEntry i (raft_log st) of
           None \<Rightarrow> []
         | Some e \<Rightarrow> Reads V_log # apply_entry_acts (now i) e ns @ [Reads V_tree])
      else [Reads V_role])"


section \<open>The threads of a server\<close>

text \<open>
  What a thread of the server does: an RPC thread serves one call after the other, the check
  thread goes through its rounds, each remote thread through its own with \<open>m\<close> held in
  between, the file system thread through its steps with \<open>fs_m\<close> held.  The states are those
  the thread finds, whatever they are; the name space is one that the invariant of
  \<open>FS_Spec\<close> allows.
\<close>

inductive server_program :: "acts \<Rightarrow> bool" where
  idle: "server_program []"
| more: "server_program t \<Longrightarrow> server_program u \<Longrightarrow> server_program (t @ u)"
| vote: "server_program (OnRequestVote_acts req st)"
| append: "server_program (OnAppendEntries_acts t1 t2 req' st)"
| check: "server_program (check_leader_acts now st)"
| remote: "(\<And>t. t \<in> set rounds \<Longrightarrow> \<exists>i a r st st'. t = remote_round_acts i a r st st') \<Longrightarrow>
    server_program (holding Raft_m (concat rounds))"
| meta: "server_program (OnMetaOperation_acts st waits)"
| list: "fs_wf ns \<Longrightarrow> server_program (ListDir_acts path ns)"
| info: "fs_wf ns \<Longrightarrow> server_program (GetFileInfo_acts path ns)"
| update: "(\<And>t. t \<in> set steps \<Longrightarrow> \<exists>now' st th ns. fs_wf ns \<and> t = fs_step_acts now' st th ns) \<Longrightarrow>
    server_program (holding Fs_m (concat steps))"



section \<open>Every thread follows the two disciplines\<close>

text \<open>
  A piece of a thread fits the mutexes held before it when it follows both disciplines and
  leaves those mutexes held.
\<close>

definition fits :: "mutex list \<Rightarrow> acts \<Rightarrow> bool" where
  "fits held t \<longleftrightarrow> (\<forall>rest.
     (in_order mutex_rank held (t @ rest) \<longleftrightarrow> in_order mutex_rank held rest) \<and>
     (guarded guards held (t @ rest) \<longleftrightarrow> guarded guards held rest))"

named_theorems fitting "pieces that fit"

lemma fits_Nil [fitting]: "fits held []"
  by (simp add: fits_def)

lemma fits_append [fitting]: "fits held t \<Longrightarrow> fits held u \<Longrightarrow> fits held (t @ u)"
  by (simp add: fits_def)

lemma fits_reads [fitting]:
  "guards v = [] \<or> list_ex (\<lambda>l. l \<in> set held) (guards v) \<Longrightarrow> fits held t \<Longrightarrow> fits held (Reads v # t)"
  by (simp add: fits_def)

lemma fits_writes [fitting]:
  "list_all (\<lambda>l. l \<in> set held) (guards v) \<Longrightarrow> fits held t \<Longrightarrow> fits held (Writes v # t)"
  by (simp add: fits_def)

lemma fits_if [fitting]: "(b \<Longrightarrow> fits held t) \<Longrightarrow> (\<not> b \<Longrightarrow> fits held u) \<Longrightarrow> fits held (if b then t else u)"
  by simp

lemma fits_case [fitting]:
  "(\<And>u. fits held (f u)) \<Longrightarrow> (\<And>x. fits held (g x)) \<Longrightarrow>
   fits held (case r of Inl u \<Rightarrow> f u | Inr x \<Rightarrow> g x)"
  "(\<And>a b. fits held (k a b)) \<Longrightarrow> fits held (case p of (a, b) \<Rightarrow> k a b)"
  "(\<And>x. fits held (k' x)) \<Longrightarrow> fits held (let x = y in k' x)"
  by (auto split: sum.split prod.split)

lemma fits_concat [fitting]: "(\<And>t. t \<in> set ts \<Longrightarrow> fits held t) \<Longrightarrow> fits held (concat ts)"
  by (induction ts) (auto intro: fitting)

lemma fits_holding [fitting]:
  "list_all (\<lambda>k. mutex_rank k < mutex_rank l) held \<Longrightarrow> fits (l # held) t \<Longrightarrow> fits held (holding l t)"
  by (simp add: fits_def holding_def)

lemma fits_wait [fitting]:
  "list_all (\<lambda>k. mutex_rank k < mutex_rank l) held \<Longrightarrow> fits (l # held) (cv_wait l)"
  by (simp add: fits_def cv_wait_def)

lemma fits_remote_call [fitting]: "fits [Raft_m] remote_call_acts"
  by (simp add: fits_def remote_call_acts_def)

text \<open>The log's mutex comes after those of the consensus object.\<close>

definition above_log :: "mutex list \<Rightarrow> bool" where
  "above_log held \<longleftrightarrow> list_all (\<lambda>k. mutex_rank k < 2) held"

lemma fits_log [fitting]:
  assumes "above_log held"
  shows "fits held log_read_acts"
    and "fits held (GetLastCommitIndex_acts l)"
    and "fits held (SetLastCommitIndex_acts c l)"
    and "fits held Append_entry_acts"
    and "fits held (Append_entries_acts es l)"
    and "fits held unlocked_log_read_acts"
  using assms
  by (auto simp: log_read_acts_def GetLastCommitIndex_acts_def SetLastCommitIndex_acts_def
      Append_entry_acts_def Append_entries_acts_def unlocked_log_read_acts_def above_log_def
      intro!: fitting split: sum.splits)

lemma above_log_simps [simp]:
  "above_log []" "above_log [Raft_m]" "above_log [Fs_m]" "above_log [Cli_m]"
  by (simp_all add: above_log_def)

lemma fits_roles [fitting]:
  "fits [Raft_m] StartLeaderElection_acts" "fits [Raft_m] ChangeToLeader_acts"
  "fits [Raft_m] (ChangeToFollower_acts st)"
  unfolding StartLeaderElection_acts_def ChangeToLeader_acts_def ChangeToFollower_acts_def
  by (intro fitting; simp)+

lemma fits_OnRequestVote: "fits [] (OnRequestVote_acts req st)"
  unfolding OnRequestVote_acts_def by (intro fitting; simp)

lemma fits_OnAppendEntries: "fits [] (OnAppendEntries_acts t1 t2 req st)"
  unfolding OnAppendEntries_acts_def by (intro fitting; simp)

lemma fits_check_leader: "fits [] (check_leader_acts now st)"
  unfolding check_leader_acts_def by (intro fitting; simp)

lemma fits_ae_response: "fits [Raft_m] (ae_response_acts i req resp st)"
  unfolding ae_response_acts_def Let_def by (auto intro!: fitting)

lemma fits_rv_response: "fits [Raft_m] (rv_response_acts i resp st)"
  unfolding rv_response_acts_def by (auto intro!: fitting)

lemma fits_remote_round: "fits [Raft_m] (remote_round_acts i a r st st')"
  unfolding remote_round_acts_def
  by (auto intro!: fitting fits_ae_response fits_rv_response split: rpc_call.split rpc_result.split)

lemma fits_OnMetaOperation: "fits [] (OnMetaOperation_acts st waits)"
  unfolding OnMetaOperation_acts_def meta_test_acts_def by (auto intro!: fitting)


text \<open>Nodes: the mutexes held before belong to directories further up or to none.\<close>

definition above_node :: "addr \<Rightarrow> mutex list \<Rightarrow> bool" where
  "above_node d held \<longleftrightarrow> Name_m \<in> set held \<and> list_all (\<lambda>k. mutex_rank k < d + 3) held"

lemma above_node_simps [simp]:
  "above_node d [Name_m]" "above_node d [Name_m, Fs_m]"
  by (simp_all add: above_node_def)

lemma above_node_child: "above_node d held \<Longrightarrow> d < c \<Longrightarrow> above_node c (Node_m d # held)"
  by (auto simp: above_node_def list_all_iff)

lemma above_node_holds: "above_node d held \<Longrightarrow> Name_m \<in> set held"
  by (simp add: above_node_def)

lemma fits_node_read [fitting]: "above_node d held \<Longrightarrow> fits held (node_read d)"
  unfolding node_read_def by (intro fitting) (auto simp: above_node_def)

lemma fits_node_write [fitting]: "above_node d held \<Longrightarrow> Fs_m \<in> set held \<Longrightarrow> fits held (node_write d)"
  unfolding node_write_def by (intro fitting) (auto simp: above_node_def)

text \<open>In a tree addresses grow from parent to child; deletions keep that.\<close>

definition upward :: "heap \<Rightarrow> bool" where
  "upward h \<longleftrightarrow> (\<forall>a cs m. kids h a = Some (cs, m) \<longrightarrow> (\<forall>c \<in> set cs. a < c))"

lemma tree_upward: "tree_ok h r \<Longrightarrow> upward h"
  using kids_members(2) by (fastforce simp: upward_def)

lemma kids_dir_at: "dir_at a h = Inr (cs, m) \<longleftrightarrow> kids h a = Some (cs, m)"
  by (auto simp: dir_at_def deref_def kids_def and_then_def split: option.splits inode_kind.splits)

lemma erase_upward:
  assumes "upward h" and "erase_child x p d h = Inr h1"
  shows "upward h1"
proof -
  from assms(2) obtain n cs m where n: "cells h d = Some n" "i_kind n = Dir_node cs m"
    and h1: "h1 = set_node_at d (n\<lparr>i_kind := Dir_node (take p cs @ drop (Suc p) cs) (m(x := None))\<rparr>)
      (free_node (cs ! p) h)"
    by (auto simp: erase_child_def and_then_eq_Inr deref_def split: option.splits inode_kind.splits)
  have up: "\<forall>c \<in> set cs. d < c" using assms(1) n by (auto simp: upward_def kids_cell)
  have "set (take p cs @ drop (Suc p) cs) \<subseteq> set cs"
    using set_take_subset [of p cs] set_drop_subset [of "Suc p" cs] by auto
  with assms(1) up show ?thesis
    unfolding upward_def h1 by (auto simp: kids_def set_node_at_def free_node_def split: if_splits)
qed

lemma delete_upward:
  "upward h \<Longrightarrow> DeleteChild_fuel f x recursive d h = Inr (ok, h1) \<Longrightarrow> upward h1"
  "upward h' \<Longrightarrow> DeleteAllChild_fuel f' d' h' = Inr (ok', h1') \<Longrightarrow> upward h1'"
proof (induction f x recursive d h and f' d' h' arbitrary: ok h1 and ok' h1'
    rule: DeleteChild_fuel_DeleteAllChild_fuel.induct)
  case (2 f x recursive d h)
  from "2.prems"(2) obtain cs m p child e where *: "dir_at d h = Inr (cs, m)"
    "find_child x cs h = Inr (Some p)" "deref (cs ! p) h = Inr child"
    "(if IsDir child then DirIsEmpty (cs ! p) h else Inr True) = Inr e"
    and rest: "(if e then and_then (erase_child x p d h) (\<lambda>h1. Inr (True, h1))
        else if \<not> recursive then Inr (False, h)
        else and_then (DeleteAllChild_fuel f (cs ! p) h) (\<lambda>(ok, h1).
          if ok then and_then (erase_child x p d h1) (\<lambda>h2. Inr (True, h2)) else Inr (False, h1)))
      = Inr (ok, h1)"
    by (auto simp: and_then_eq_Inr simp del: IsDir.simps split: option.splits)
  show ?case
  proof (cases "e \<or> \<not> recursive")
    case True
    with rest "2.prems"(1) show ?thesis by (auto simp: and_then_eq_Inr erase_upward split: if_splits)
  next
    case False
    with rest obtain ok2 h2 where d: "DeleteAllChild_fuel f (cs ! p) h = Inr (ok2, h2)"
      and r: "(if ok2 then and_then (erase_child x p d h2) (\<lambda>h2. Inr (True, h2)) else Inr (False, h2)) = Inr (ok, h1)"
      by (auto simp: and_then_eq_Inr)
    have "upward h2" using "2.IH" [OF _ _ "2.prems"(1) d] False by blast
    with r show ?thesis by (auto simp: and_then_eq_Inr erase_upward split: if_splits)
  qed
next
  case (4 f d h)
  from "4.prems"(2) obtain cs m where cs: "dir_at d h = Inr (cs, m)" by (auto simp: and_then_eq_Inr)
  show ?case
  proof (cases cs)
    case Nil
    with "4.prems" cs show ?thesis by simp
  next
    case (Cons c cs')
    with "4.prems"(2) cs obtain n ok2 h2 where n: "deref c h = Inr n"
      and d: "DeleteChild_fuel f (i_name n) True d h = Inr (ok2, h2)"
      and r: "(if ok2 then DeleteAllChild_fuel f d h2 else Inr (False, h2)) = Inr (ok', h1')"
      by (auto simp: and_then_eq_Inr)
    have "upward h2" using "4.IH"(1) [OF _ "4.prems"(1) d] Cons by blast
    moreover from this have "upward h1'" if ok2
    proof -
      have x: "DeleteAllChild_fuel f d h2 = Inr (ok', h1')" using r that by simp
      show ?thesis by (rule "4.IH"(2) [OF _ that \<open>upward h2\<close> x]) (rule list.simps(3))
    qed
    ultimately show ?thesis using r by (cases ok2) auto
  qed
qed auto


lemma find_child_bound: "find_child x cs h = Inr (Some p) \<Longrightarrow> p < length cs"
  by (induction cs arbitrary: p) (auto simp: and_then_eq_Inr split: if_splits)

lemma child_named_up:
  assumes "upward h" and "child_named x d h = Inr (c, n)"
  shows "d < c"
proof -
  from assms(2) obtain cs m p where "kids h d = Some (cs, m)" "find_child x cs h = Inr (Some p)" "c = cs ! p"
    by (auto simp: child_named_def and_then_eq_Inr kids_dir_at split: option.splits)
  with assms(1) find_child_bound nth_mem show ?thesis unfolding upward_def by metis
qed

lemma fits_deletes:
  "upward h \<Longrightarrow> above_node d held \<Longrightarrow> Fs_m \<in> set held \<Longrightarrow> fits held (DeleteChild_acts f x recursive d h)"
  "upward h' \<Longrightarrow> above_node d' held' \<Longrightarrow> Fs_m \<in> set held' \<Longrightarrow> fits held' (DeleteAllChild_acts f' d' h')"
proof (induction f x recursive d h and f' d' h' arbitrary: held and held'
    rule: DeleteChild_acts_DeleteAllChild_acts.induct)
  case (2 f x recursive d h)
  have ord: "list_all (\<lambda>k. mutex_rank k < mutex_rank (Node_m d)) held" and name: "Name_m \<in> set held"
    using "2.prems"(2) by (simp_all add: above_node_def)
  show ?case
  proof (cases "child_named x d h")
    case (Inl u)
    with ord name show ?thesis by (auto intro!: fitting)
  next
    case (Inr cn)
    obtain c n where cn: "cn = (c, n)" by (cases cn)
    have "above_node c (Node_m d # held)"
      by (rule above_node_child [OF "2.prems"(2) child_named_up [OF "2.prems"(1)]]) (use Inr cn in simp)
    with ord name "2.prems" "2.IH" [OF Inr [unfolded cn] refl] show ?thesis
      unfolding DeleteChild_acts.simps Inr cn
      by (auto intro!: fitting simp del: IsDir.simps split: sum.split prod.split bool.split)
  qed
next
  case (4 f d h)
  note all = fits_node_read [OF "4.prems"(2)]
  show ?case
  proof (cases "\<exists>c cs m n. dir_at d h = Inr (c # cs, m) \<and> deref c h = Inr n")
    case True
    then obtain c cs m n where c: "dir_at d h = Inr (c # cs, m)" "deref c h = Inr n" by blast
    have "fits held' (DeleteChild_acts f (i_name n) True d h)"
      using "4.IH"(1) c "4.prems" by blast
    moreover have "fits held' (DeleteAllChild_acts f d h1)"
      if "DeleteChild_fuel f (i_name n) True d h = Inr (True, h1)" for h1
      using "4.IH"(2) c that delete_upward(1) [OF "4.prems"(1) that] "4.prems"(2,3) by blast
    ultimately show ?thesis
      using all above_node_holds [OF "4.prems"(2)] c
      by (auto intro!: fitting split: sum.split prod.split bool.split)
  next
    case False
    with all above_node_holds [OF "4.prems"(2)] show ?thesis
      by (auto intro!: fitting split: sum.split prod.split list.split)
  qed
qed (auto intro: fitting)


text \<open>The operations of the name space, with its mutex held: by a client, or by the file system thread.\<close>

lemma fits_descend:
  "(\<And>d. above_node d held) \<Longrightarrow> fits held (descend_acts xs current h)"
  by (induction xs current h rule: descend_acts.induct)
    (auto intro!: fitting split: sum.split option.split)

lemma fits_parent [fitting]: "(\<And>d. above_node d held) \<Longrightarrow> fits held (parent_acts path ns)"
  unfolding parent_acts_def by (intro fitting fits_descend)

lemma fits_create [fitting]: "fits [Name_m, Fs_m] (create_acts x d h)"
  unfolding create_acts_def by (auto intro!: fitting split: sum.split option.split)

lemma fits_MakeDir_loop: "fits [Name_m, Fs_m] (MakeDir_loop_acts now make_parents xs current h)"
  by (induction now make_parents xs current h rule: MakeDir_loop_acts.induct)
    (auto intro!: fitting split: sum.split option.split)

lemma fits_MakeDir:
  assumes "fs_wf ns"
  shows "fits [Fs_m] (MakeDir_acts now path make_parents ns)"
proof -
  let ?xs = "SplitPath path"
  have "\<forall>x \<in> set ?xs. CHR ''/'' \<notin> set x" using SplitPath_names by blast
  moreover have "kids (fs_heap ns) (fs_root ns) \<noteq> None"
    using assms root_dir by (metis fs_wf_def option.distinct(1))
  ultimately have spec: "mkdir_loop_ok make_parents [] ?xs (fs_heap ns) (fs_root ns)
      (MakeDir_loop now make_parents 0 ?xs (fs_root ns) 0 (fs_heap ns))"
    using assms by (intro MakeDir_loop_correct) (auto simp: fs_wf_def)
  have "new_dir = 0" if "MakeDir_loop now make_parents 0 ?xs (fs_root ns) 0 (fs_heap ns) = Inr (Left_loop i a new_dir h)"
    for i a new_dir h
    using spec that by (auto simp: mkdir_loop_ok_def split: if_splits)
  then show ?thesis
    unfolding MakeDir_acts_def Let_def
    by (auto intro!: fitting fits_MakeDir_loop split: sum.split mkdir_exit.split)
qed

lemma fits_remove:
  assumes "fs_wf ns"
  shows "fits [Fs_m] (remove_acts removable recursive path ns)"
proof -
  have "upward (fs_heap ns)" using assms tree_upward by (auto simp: fs_wf_def)
  then have "fits [Name_m, Fs_m] (DeleteChild_acts f name recursive d (fs_heap ns))" for f name d
    by (rule fits_deletes(1)) simp_all
  then show ?thesis
    unfolding remove_acts_def by (auto intro!: fitting split: sum.split option.split)
qed

lemma fits_CreateFile: "fits [Fs_m] (CreateFile_acts path ns)"
  unfolding CreateFile_acts_def by (auto intro!: fitting split: sum.split option.split)

lemma fits_ListDir: "fits [] (ListDir_acts path ns)"
  unfolding ListDir_acts_def by (auto intro!: fitting split: sum.split option.split)

lemma fits_GetFileInfo: "fits [] (GetFileInfo_acts path ns)"
  unfolding GetFileInfo_acts_def by (auto intro!: fitting split: sum.split option.split)

lemma fits_fs_step:
  assumes "fs_wf ns"
  shows "fits [Fs_m] (fs_step_acts now st th ns)"
proof -
  have "fits [Fs_m] (apply_entry_acts t e ns)" for t e
    unfolding apply_entry_acts_def
    by (auto intro!: fitting fits_MakeDir fits_remove fits_CreateFile assms split: meta_op.split)
  then show ?thesis
    by (cases th) (auto intro!: fitting split: option.split)
qed

lemma server_program_fits: "server_program t \<Longrightarrow> fits [] t"
proof (induction rule: server_program.induct)
  case (remote rounds)
  then have "fits [Raft_m] t" if "t \<in> set rounds" for t
    using that fits_remote_round by blast
  then show ?case by (intro fitting) simp_all
next
  case (update steps)
  then have "fits [Fs_m] t" if "t \<in> set steps" for t
    using that fits_fs_step by blast
  then show ?case by (intro fitting) simp_all
qed (auto intro: fitting fits_OnRequestVote fits_OnAppendEntries fits_check_leader fits_OnMetaOperation
    fits_ListDir fits_GetFileInfo)

interpretation locks: guarded_threads mutex_rank server_program guards
proof unfold_locales
  fix t assume "server_program t"
  then have f: "fits [] t" by (rule server_program_fits)
  then show "in_order mutex_rank [] t" unfolding fits_def by (metis append_Nil2 in_order.simps(1))
  from f show "guarded guards [] t" unfolding fits_def by (metis append_Nil2 guarded.simps(1))
qed


section \<open>What follows for the server\<close>

text \<open>
  C10. A server does not deadlock on its mutexes.  Whatever its threads do, however many there
  are, and in any interleaving: as long as one of them has something to do, one can take its
  next step, and the threads can be scheduled so that all of them get to the end.
\<close>

theorem server_never_deadlocks:
  assumes "list_all server_program progs" and "interleave (start progs) us"
  shows "(finished us \<or> (\<exists>i < length us. \<exists>th. advance us (us ! i) = Some th)) \<and>
    (\<exists>vs. interleave us vs \<and> finished vs)"
  using locks.no_deadlock [OF assms] locks.can_finish [OF assms] by blast

text \<open>
  C20. The tree of files, the votes and the commit index are never used by two threads at once
  with one of them writing.
\<close>

theorem guarded_state_has_no_race:
  assumes "list_all server_program progs" and "interleave (start progs) us"
    and "v \<in> {V_tree, V_votes, V_commit}"
  shows "\<not> race v us"
  by (rule locks.no_race [OF assms(1,2)]) (use assms(3) in auto)


text \<open>
  A leader with two entries, one of them committed, that has one entry to send.  One of its
  threads serves a client, one is in the round of host 2, one applies the first entry.
\<close>

definition busy_leader :: raft where
  "busy_leader =
     (new_raft \<lparr>t_now = 0, t_delay = 0\<rparr> (\<lambda>_. 0) 1 ''s1'' [(2, ''s2''), (3, ''s3'')])
       \<lparr>current_role := kLeader, current_term := 1, leader_id := 1,
        raft_log :=
          \<lparr>memory_log =
             [\<lparr>e_term = 1, e_index = 1, e_op = kMkdir, e_value = ''/a''\<rparr>,
              \<lparr>e_term = 1, e_index = 2, e_op = kMkdir, e_value = ''/b''\<rparr>],
           last_commited_index = 1\<rparr>\<rparr>"

definition busy_threads :: "acts list" where
  "busy_threads =
     (let st = ResetNextIndex 2 2 busy_leader;
          reply = Replied \<lparr>aer_term = 1, aer_success = True, aer_last_log_index = Some 2\<rparr>
      in [OnMetaOperation_acts st [],
          holding Raft_m (concat [remote_round_acts 2 reply Comm_lost st st]),
          holding Fs_m (concat [fs_step_acts (\<lambda>_. 0) st (Fs_running 1 0) (new_FSNamespace 0)])])"

lemma busy_programs: "list_all server_program busy_threads"
proof -
  have "server_program (holding Raft_m (concat [remote_round_acts i a r st st']))" for i a r st st'
    by (rule server_program.remote) (simp, blast)
  moreover have "server_program (holding Fs_m (concat [fs_step_acts now st th (new_FSNamespace 0)]))" for now st th
    by (rule server_program.update) (use new_FSNamespace_wf in \<open>simp, blast\<close>)
  ultimately show ?thesis
    unfolding busy_threads_def Let_def by (simp add: server_program.meta del: concat.simps fs_step_acts.simps)
qed

text \<open>The first actions of the three threads.\<close>

lemma busy_leader_state:
  defines "st \<equiv> ResetNextIndex 2 2 busy_leader"
  shows "leader_id st = 1" "current_role st = kLeader" "current_term st = 1"
    "GetLastCommitIndex (raft_log st) = 1" "GetLastLogIndex (raft_log st) = 2" "GetNextIndex 2 st = 2"
    "memory_log (raft_log st) \<noteq> []"
    "GetEntriesStartAt 1 (raft_log st) = [\<lparr>e_term = 1, e_index = 2, e_op = kMkdir, e_value = ''/b''\<rparr>]"
proof -
  have "log_wf (raft_log st)"
    by (simp add: st_def busy_leader_def ResetNextIndex_def log_wf_def)
  from GetEntriesStartAt_wf [OF this, of 1]
  show "GetEntriesStartAt 1 (raft_log st) = [\<lparr>e_term = 1, e_index = 2, e_op = kMkdir, e_value = ''/b''\<rparr>]"
    by (simp add: st_def busy_leader_def ResetNextIndex_def)
qed (simp_all add: st_def busy_leader_def ResetNextIndex_def new_raft_def PostponeElection_def
    new_RemoteHost_def GetLastCommitIndex_def GetLastLogIndex_def GetNextIndex_def)

lemma busy_threads_begin:
  obtains r0 r1 r2 where "busy_threads =
    [[Reads V_leader, Reads V_term, Acquire Log_m, Reads V_log, Writes V_log] @ r0,
     [Acquire Raft_m, Reads V_role, Reads V_term, Acquire Log_m, Reads V_log, Release Log_m,
      Acquire Log_m, Reads V_log, Reads V_commit, Release Log_m, Reads V_term, Reads V_leader,
      Acquire Log_m, Reads V_log, Release Log_m, Reads V_log, Release Raft_m, Remote_call,
      Acquire Raft_m, Reads V_term, Acquire Log_m, Reads V_log, Reads V_commit, Release Log_m,
      Writes V_pending] @ r1,
     [Acquire Fs_m, Acquire Log_m, Reads V_log, Reads V_commit, Release Log_m, Reads V_role,
      Writes V_pending] @ r2]"
proof -
  note state = busy_leader_state
  note acts = holding_def log_read_acts_def GetLastCommitIndex_acts_def unlocked_log_read_acts_def
  define st where "st = ResetNextIndex 2 2 busy_leader"
  note state = busy_leader_state [folded st_def]
  have "\<exists>r. OnMetaOperation_acts st [] =
      [Reads V_leader, Reads V_term, Acquire Log_m, Reads V_log, Writes V_log] @ r"
    by (simp add: OnMetaOperation_acts_def Append_entry_acts_def acts state)
  moreover have "\<exists>r. holding Raft_m (concat [remote_round_acts 2
        (Replied \<lparr>aer_term = 1, aer_success = True, aer_last_log_index = Some 2\<rparr>) Comm_lost st st]) =
      [Acquire Raft_m, Reads V_role, Reads V_term, Acquire Log_m, Reads V_log, Release Log_m,
      Acquire Log_m, Reads V_log, Reads V_commit, Release Log_m, Reads V_term, Reads V_leader,
      Acquire Log_m, Reads V_log, Release Log_m, Reads V_log, Release Raft_m, Remote_call,
      Acquire Raft_m, Reads V_term, Acquire Log_m, Reads V_log, Reads V_commit, Release Log_m,
      Writes V_pending] @ r"
    by (simp add: remote_round_acts_def remote_call_def make_ae_request_def remote_call_acts_def
        ae_response_acts_def acts state)
  moreover have "\<exists>r. holding Fs_m (concat [fs_step_acts (\<lambda>_. 0) st (Fs_running 1 0) (new_FSNamespace 0)]) =
      [Acquire Fs_m, Acquire Log_m, Reads V_log, Reads V_commit, Release Log_m, Reads V_role,
      Writes V_pending] @ r"
    by (simp add: acts state IsLeader_def)
  ultimately show thesis
    using that unfolding busy_threads_def Let_def st_def [symmetric] by metis
qed



text \<open>The three threads of the busy leader, when one of them is about to append.\<close>

theorem server_never_deadlocks_witness:
  "\<exists>vs. interleave (start busy_threads) vs \<and> finished vs"
  using server_never_deadlocks [OF busy_programs interleave.none] by blast

theorem guarded_state_has_no_race_witness:
  "\<exists>us. interleave (start busy_threads) us \<and> us \<noteq> start busy_threads \<and>
     \<not> race V_tree us \<and> \<not> race V_votes us \<and> \<not> race V_commit us"
proof -
  obtain r0 rest where progs: "busy_threads = (Reads V_leader # r0) # rest"
    by (rule busy_threads_begin) simp
  obtain us where us: "schedule [0] (start busy_threads) = Some us" "us \<noteq> start busy_threads"
    unfolding progs by (simp add: start_def)
  from schedule_interleave [OF us(1)] have "interleave (start busy_threads) us" .
  with us(2) guarded_state_has_no_race [OF busy_programs this] show ?thesis by blast
qed

end
