(* ===== verification/FS_Wakeup.thy ===== *)
theory FS_Wakeup
  imports Server_Locks
begin

text \<open>
  How \<open>FSUpdateLoop\<close> sleeps.  The thread waits on the condition variable \<open>fs_commit\<close> under its
  own mutex \<open>fs_m\<close>; the consensus code sets the commit index and calls \<open>notify_all\<close> under \<open>m\<close>,
  so nothing keeps the two calls from falling between the test of the thread and the moment
  it blocks.  \<open>FS_Thread\<close> has one state for the waiting thread; here the wait is taken apart into
  the steps the C++ standard gives it: \<open>wait(lock, pred)\<close> is \<open>while (!pred()) wait(lock)\<close>, and
  \<open>notify_all\<close> wakes the threads that are blocked at that moment.  The code that announces a
  commit is the list of what it does, mutexes included, and a mutex has one holder; with
  \<open>fs_m\<close> taken around the announcement no wake-up would be lost.
\<close>

section \<open>The waiting thread\<close>

datatype cv_phase = Testing | Going_to_block | Blocked | Waking | In_loop int int

record watch =
  w_raft :: raft
  w_fs :: fs_namespace
  w_phase :: cv_phase

text \<open>
  The thread has released \<open>fs_m\<close> while it is blocked, and takes it again when it wakes up; in
  every other phase it holds it.
\<close>

definition fs_m_held :: "cv_phase \<Rightarrow> bool" where
  "fs_m_held ph \<longleftrightarrow> ph \<notin> {Blocked, Waking}"

text \<open>
  An event is one step of the thread, a state that another thread brings the consensus object
  to, a call of \<open>notify_all\<close>, or a spurious wake-up, which the standard allows.
\<close>

datatype cv_event = Thread_step "int \<Rightarrow> int" | Others raft | Notify_all | Spurious

definition woken :: "cv_phase \<Rightarrow> cv_phase" where
  "woken ph = (if ph = Blocked then Waking else ph)"

definition wait_step :: "(int \<Rightarrow> int) \<Rightarrow> watch \<Rightarrow> watch outcome" where
  "wait_step now w =
     (case w_phase w of
        Testing \<Rightarrow>
          Inr (w\<lparr>w_phase :=
            if must_update (w_raft w) (w_fs w) then In_loop (GetCommitedIndex (w_fs w) + 1) 0
            else Going_to_block\<rparr>)
      | Going_to_block \<Rightarrow> Inr (w\<lparr>w_phase := Blocked\<rparr>)
      | Blocked \<Rightarrow> Inr w
      | Waking \<Rightarrow> Inr (w\<lparr>w_phase := Testing\<rparr>)
      | In_loop i commited \<Rightarrow>
          and_then (update_iter (w_raft w) now (Fs_running i commited) (w_fs w)) (\<lambda>(th, ns).
          Inr (w\<lparr>w_fs := ns,
            w_phase := case th of Fs_waiting \<Rightarrow> Testing | Fs_running j c \<Rightarrow> In_loop j c\<rparr>)))"

fun cv_step :: "cv_event \<Rightarrow> watch \<Rightarrow> watch outcome" where
  "cv_step (Thread_step now) w = wait_step now w"
| "cv_step (Others st) w = Inr (w\<lparr>w_raft := st\<rparr>)"
| "cv_step Notify_all w = Inr (w\<lparr>w_phase := woken (w_phase w)\<rparr>)"
| "cv_step Spurious w = Inr (w\<lparr>w_phase := woken (w_phase w)\<rparr>)"

fun cv_run :: "cv_event list \<Rightarrow> watch \<Rightarrow> watch outcome" where
  "cv_run [] w = Inr w"
| "cv_run (ev # evs) w = and_then (cv_step ev w) (cv_run evs)"


section \<open>The steps of the wait refine the iterations\<close>

fun thread_of :: "cv_phase \<Rightarrow> fs_thread" where
  "thread_of (In_loop i commited) = Fs_running i commited"
| "thread_of _ = Fs_waiting"

text \<open>
  A step of the thread is an iteration of \<open>FS_Thread\<close> or changes nothing but the phase of its
  wait; so what is proved of iterations holds however the thread is woken.
\<close>

lemma thread_of_woken [simp]: "thread_of (woken ph) = thread_of ph"
  by (cases ph) (simp_all add: woken_def)

lemma thread_of_loop [simp]:
  "thread_of (case th of Fs_waiting \<Rightarrow> Testing | Fs_running j c \<Rightarrow> In_loop j c) = th"
  by (cases th) simp_all

lemma wait_step_iter:
  "(case wait_step now w of
      Inl u \<Rightarrow> update_iter (w_raft w) now (thread_of (w_phase w)) (w_fs w) = Inl u
    | Inr w' \<Rightarrow> w_raft w' = w_raft w \<and>
        (update_iter (w_raft w) now (thread_of (w_phase w)) (w_fs w) =
           Inr (thread_of (w_phase w'), w_fs w') \<or>
         thread_of (w_phase w') = thread_of (w_phase w) \<and> w_fs w' = w_fs w))"
  by (cases "w_phase w") (auto simp: wait_step_def and_then_def split: sum.splits)

text \<open>A replica stays the fold of the entries it applied, through any run that never forgets.\<close>

fun never_forgets :: "cv_event list \<Rightarrow> watch \<Rightarrow> bool" where
  "never_forgets [] w \<longleftrightarrow> True"
| "never_forgets (ev # evs) w \<longleftrightarrow>
     log_wf (raft_log (w_raft w)) \<and> \<not> forgets (w_raft w) (thread_of (w_phase w)) \<and>
     (case cv_step ev w of Inl u \<Rightarrow> True | Inr w' \<Rightarrow> never_forgets evs w')"

lemma cv_run_replica:
  "replica A (thread_of (w_phase w)) (w_fs w) \<Longrightarrow> never_forgets evs w \<Longrightarrow> cv_run evs w = Inr w' \<Longrightarrow>
   \<exists>B. replica (A @ B) (thread_of (w_phase w')) (w_fs w')"
proof (induction evs arbitrary: A w)
  case Nil
  then show ?case by (intro exI [of _ "[]"]) simp
next
  case (Cons ev evs)
  then obtain w1 where w1: "cv_step ev w = Inr w1" and rest: "cv_run evs w1 = Inr w'"
    by (auto simp: and_then_eq_Inr)
  have "\<exists>B. replica (A @ B) (thread_of (w_phase w1)) (w_fs w1)"
  proof (cases ev)
    case (Thread_step now)
    with w1 wait_step_iter [of w now] consider
      "update_iter (w_raft w) now (thread_of (w_phase w)) (w_fs w) = Inr (thread_of (w_phase w1), w_fs w1)"
      | "thread_of (w_phase w1) = thread_of (w_phase w)" "w_fs w1 = w_fs w" by auto
    then show ?thesis
    proof cases
      case 1
      with replica_iter [OF _ Cons.prems(1) _ 1] Cons.prems(2) show ?thesis by (meson never_forgets.simps(2))
    next
      case 2
      with Cons.prems(1) show ?thesis by (intro exI [of _ "[]"]) simp
    qed
  qed (use w1 Cons.prems(1) in \<open>auto intro: exI [of _ "[]"]\<close>)
  then obtain B where "replica (A @ B) (thread_of (w_phase w1)) (w_fs w1)" ..
  from Cons.IH [OF this _ rest] Cons.prems(2) w1 show ?case by (metis append_assoc never_forgets.simps(2) old.sum.simps(6))
qed



section \<open>The code that announces a commit\<close>

text \<open>
  \<open>OnAppendEntries\<close> of a follower and \<open>RemoteHostLoop\<close> of a leader, when it takes a reply, as
  far as the file system thread can tell: both hold \<open>m\<close>, bring the consensus object to its new
  state, and call \<open>notify_all\<close> if they have set the commit index.
\<close>

datatype notifier_act = Takes mutex | Drops mutex | Becomes raft | Notifies

definition OnAppendEntries_notifier :: "tick \<Rightarrow> tick \<Rightarrow> ae_request \<Rightarrow> raft \<Rightarrow> notifier_act list" where
  "OnAppendEntries_notifier t1 t2 req st =
     Takes Raft_m #
     (case OnAppendEntries t1 t2 req st of
        Inl u \<Rightarrow> []
      | Inr (st', resp) \<Rightarrow>
          Becomes st' #
          (if current_term st \<le> ae_term req \<and>
              (case ae_append req (raft_log st) of
                 Inl u \<Rightarrow> False
               | Inr (success, last_index, l) \<Rightarrow> ae_leader_commit_index req > GetLastCommitIndex l)
           then [Notifies] else [])) @
     [Drops Raft_m]"

definition ae_response_notifier :: "tick \<Rightarrow> int \<Rightarrow> ae_request \<Rightarrow> ae_response \<Rightarrow> raft \<Rightarrow> notifier_act list" where
  "ae_response_notifier t i req resp st =
     Takes Raft_m #
     (case on_ae_response t i req resp st of
        Inl u \<Rightarrow> []
      | Inr (st', _) \<Rightarrow>
          Becomes st' #
          (if aer_term resp = current_term st \<and> aer_success resp \<and> ae_entries req \<noteq> [] \<and>
              snd (count_acks i (quorum_size st) (GetLastCommitIndex (raft_log st)) (ae_entries req)
                (pending_entries st) (GetLastCommitIndex (raft_log st))) \<noteq> GetLastCommitIndex (raft_log st)
           then [Notifies] else [])) @
     [Drops Raft_m]"

text \<open>Such code that brings the server from one state to another.\<close>

definition announcement :: "raft \<Rightarrow> notifier_act list \<Rightarrow> raft \<Rightarrow> bool" where
  "announcement st acts st' \<longleftrightarrow> Notifies \<in> set acts \<and>
     ((\<exists>t1 t2 req resp. OnAppendEntries t1 t2 req st = Inr (st', resp) \<and>
         acts = OnAppendEntries_notifier t1 t2 req st) \<or>
      (\<exists>t i req resp nxt. on_ae_response t i req resp st = Inr (st', nxt) \<and>
         acts = ae_response_notifier t i req resp st))"

lemma announcement_acts:
  "announcement st acts st' \<Longrightarrow> acts = [Takes Raft_m, Becomes st', Notifies, Drops Raft_m]"
  by (auto simp: announcement_def OnAppendEntries_notifier_def ae_response_notifier_def split: if_splits sum.splits prod.splits)

text \<open>
  The thread and one piece of code that announces, which holds some mutexes and has a list of
  acts before it.  A mutex that is held cannot be taken; the thread can be woken for no reason.
\<close>

inductive wake_step ::
  "(int \<Rightarrow> int) \<Rightarrow> watch \<times> mutex list \<times> notifier_act list \<Rightarrow> watch \<times> mutex list \<times> notifier_act list \<Rightarrow> bool"
for now where
  thread: "w_phase w = Waking \<longrightarrow> Fs_m \<notin> set held \<Longrightarrow> wait_step now w = Inr w' \<Longrightarrow>
    wake_step now (w, held, todo) (w', held, todo)"
| spurious: "wake_step now (w, held, todo) (w\<lparr>w_phase := woken (w_phase w)\<rparr>, held, todo)"
| takes: "l \<notin> set held \<Longrightarrow> l = Fs_m \<longrightarrow> \<not> fs_m_held (w_phase w) \<Longrightarrow>
    wake_step now (w, held, Takes l # todo) (w, l # held, todo)"
| drops: "wake_step now (w, held, Drops l # todo) (w, remove1 l held, todo)"
| becomes: "wake_step now (w, held, Becomes st # todo) (w\<lparr>w_raft := st\<rparr>, held, todo)"
| notifies: "wake_step now (w, held, Notifies # todo) (w\<lparr>w_phase := woken (w_phase w)\<rparr>, held, todo)"

inductive_cases wake_stepE: "wake_step now (w, held, todo) c"


section \<open>When a wake-up is lost, and when it is not\<close>

lemma blocked_stays:
  "w_phase w = Blocked \<Longrightarrow> Notify_all \<notin> set evs \<Longrightarrow> Spurious \<notin> set evs \<Longrightarrow>
   \<exists>st. cv_run evs w = Inr (w\<lparr>w_raft := st\<rparr>)"
proof (induction evs arbitrary: w)
  case Nil
  then show ?case by (intro exI [of _ "w_raft w"]) simp
next
  case (Cons ev evs)
  then obtain st where st: "cv_step ev w = Inr (w\<lparr>w_raft := st\<rparr>)"
    by (cases ev) (auto simp: wait_step_def intro: that [of "w_raft w"])
  from Cons.IH [of "w\<lparr>w_raft := st\<rparr>"] Cons.prems st show ?case by auto
qed

lemma lost_run:
  assumes "\<not> must_update st ns" and "announcement st acts st'"
  shows "(wake_step now)\<^sup>*\<^sup>* (\<lparr>w_raft = st, w_fs = ns, w_phase = Testing\<rparr>, [], acts)
    (\<lparr>w_raft = st', w_fs = ns, w_phase = Blocked\<rparr>, [], [])"
proof -
  let ?w = "\<lambda>st ph. \<lparr>w_raft = st, w_fs = ns, w_phase = ph\<rparr>"
  note acts = announcement_acts [OF assms(2)]
  have "wake_step now (?w st Testing, [], acts) (?w st Going_to_block, [], acts)"
    by (rule wake_step.thread) (use assms(1) in \<open>simp_all add: wait_step_def\<close>)
  moreover have "wake_step now (?w st Going_to_block, [], acts)
      (?w st Going_to_block, [Raft_m], [Becomes st', Notifies, Drops Raft_m])"
    unfolding acts by (rule wake_step.takes) simp_all
  moreover have "wake_step now (?w st Going_to_block, [Raft_m], [Becomes st', Notifies, Drops Raft_m])
      (?w st' Going_to_block, [Raft_m], [Notifies, Drops Raft_m])"
    using wake_step.becomes [of now "?w st Going_to_block"] by simp
  moreover have "wake_step now (?w st' Going_to_block, [Raft_m], [Notifies, Drops Raft_m])
      (?w st' Going_to_block, [Raft_m], [Drops Raft_m])"
    using wake_step.notifies [of now "?w st' Going_to_block"] by (simp add: woken_def)
  moreover have "wake_step now (?w st' Going_to_block, [Raft_m], [Drops Raft_m]) (?w st' Going_to_block, [], [])"
    using wake_step.drops [of now "?w st' Going_to_block" "[Raft_m]" Raft_m "[]"] by simp
  moreover have "wake_step now (?w st' Going_to_block, [], []) (?w st' Blocked, [], [])"
    by (rule wake_step.thread) (simp_all add: wait_step_def)
  ultimately show ?thesis by (meson converse_rtranclp_into_rtranclp rtranclp.rtrancl_refl)
qed

text \<open>
  C12. A wake-up can be lost.  When \<open>OnAppendEntries\<close> or the round that takes a reply moves the
  commit index and announces it, and the file system thread has entries to apply after it but
  had none before, the two can interleave, with the mutexes that each of them takes, so that
  the code ends and the thread is blocked with entries to apply.  It then sleeps, whatever the
  other threads do to the consensus object, until there is another announcement or the thread
  is woken for no reason.
\<close>

theorem wakeup_lost:
  assumes "\<not> must_update st ns" and "must_update st' ns" and "announcement st acts st'"
  shows "\<exists>w. (wake_step now)\<^sup>*\<^sup>* (\<lparr>w_raft = st, w_fs = ns, w_phase = Testing\<rparr>, [], acts) (w, [], []) \<and>
      w_phase w = Blocked \<and> must_update (w_raft w) (w_fs w) \<and>
      (\<forall>evs. Notify_all \<notin> set evs \<and> Spurious \<notin> set evs \<longrightarrow>
        (\<exists>w'. cv_run evs w = Inr w' \<and> w_phase w' = Blocked \<and> w_fs w' = ns))"
proof -
  let ?w = "\<lparr>w_raft = st', w_fs = ns, w_phase = Blocked\<rparr>"
  have "\<exists>w'. cv_run evs ?w = Inr w' \<and> w_phase w' = Blocked \<and> w_fs w' = ns"
    if "Notify_all \<notin> set evs" "Spurious \<notin> set evs" for evs
    using blocked_stays [of ?w evs] that by auto
  with lost_run [OF assms(1,3)] assms(2) show ?thesis by (intro exI [of _ ?w]) simp
qed

text \<open>A fresh server, and the same server when its first entry, a \<open>kNoop\<close>, is committed.\<close>

definition idle_server :: raft where
  "idle_server = new_raft \<lparr>t_now = 0, t_delay = 0\<rparr> (\<lambda>_. 0) 1 ''s1'' []"

definition committed_server :: raft where
  "committed_server = idle_server
     \<lparr>raft_log := \<lparr>memory_log = [\<lparr>e_term = 1, e_index = 1, e_op = kNoop, e_value = []\<rparr>],
        last_commited_index = 1\<rparr>\<rparr>"

lemma server_indices:
  "GetLastCommitIndex (raft_log idle_server) = 0"
  "GetLastCommitIndex (raft_log committed_server) = 1"
  "GetCommitedIndex (new_FSNamespace 0) = 0"
  "IsFollower committed_server"
  "GetEntry 1 (raft_log committed_server) = Some \<lparr>e_term = 1, e_index = 1, e_op = kNoop, e_value = []\<rparr>"
  by (simp_all add: idle_server_def committed_server_def new_raft_def PostponeElection_def new_log_def
      GetLastCommitIndex_def GetCommitedIndex_def new_FSNamespace_def IsFollower_def GetEntry_def
      case_prod_unfold Let_def)

text \<open>The same server, when it has stored an entry of its leader and is told that it is committed.\<close>

definition stored_server :: raft where
  "stored_server = committed_server\<lparr>raft_log := (raft_log committed_server)\<lparr>last_commited_index := 0\<rparr>\<rparr>"

definition commit_request :: ae_request where
  "commit_request = \<lparr>ae_term = 0, ae_leader_id = 2, ae_prev_log_index = 1, ae_prev_log_term = 1,
     ae_entries = [], ae_leader_commit_index = 1\<rparr>"

lemma commit_announced:
  obtains st' where
    "announcement stored_server (OnAppendEntries_notifier \<lparr>t_now = 0, t_delay = 500\<rparr> \<lparr>t_now = 0, t_delay = 500\<rparr> commit_request stored_server) st'"
    and "GetLastCommitIndex (raft_log st') = 1"
proof -
  let ?t = "\<lparr>t_now = 0, t_delay = 500\<rparr>"
  obtain st' resp where run: "OnAppendEntries ?t ?t commit_request stored_server = Inr (st', resp)"
    and "GetLastCommitIndex (raft_log st') = 1"
    by (simp add: OnAppendEntries_def ae_append_def ae_commit_def ae_debug_print_def ae_adopt_term_def ae_learn_leader_def
        SetLastCommitIndex_def and_then_def commit_request_def stored_server_def committed_server_def idle_server_def
        new_raft_def new_log_def PostponeElection_def GetLastCommitIndex_def GetLastLogIndex_def Let_def)
  moreover have "Notifies \<in> set (OnAppendEntries_notifier ?t ?t commit_request stored_server)"
    by (simp add: OnAppendEntries_notifier_def run)
      (simp add: ae_append_def commit_request_def stored_server_def committed_server_def idle_server_def
        new_raft_def PostponeElection_def GetLastCommitIndex_def GetLastLogIndex_def)
  ultimately show thesis by (intro that) (auto simp: announcement_def)
qed

theorem wakeup_lost_witness:
  "\<exists>w. (wake_step (\<lambda>_. 0))\<^sup>*\<^sup>* (\<lparr>w_raft = stored_server, w_fs = new_FSNamespace 0, w_phase = Testing\<rparr>, [],
        OnAppendEntries_notifier \<lparr>t_now = 0, t_delay = 500\<rparr> \<lparr>t_now = 0, t_delay = 500\<rparr> commit_request stored_server) (w, [], []) \<and>
      w_phase w = Blocked \<and> must_update (w_raft w) (w_fs w)"
proof -
  obtain st' where st': "announcement stored_server
      (OnAppendEntries_notifier \<lparr>t_now = 0, t_delay = 500\<rparr> \<lparr>t_now = 0, t_delay = 500\<rparr> commit_request stored_server) st'"
    "GetLastCommitIndex (raft_log st') = 1"
    by (rule commit_announced)
  have "GetLastCommitIndex (raft_log stored_server) = 0"
    by (simp add: stored_server_def committed_server_def GetLastCommitIndex_def)
  then have "\<not> must_update stored_server (new_FSNamespace 0)" "must_update st' (new_FSNamespace 0)"
    using st'(2) by (simp_all add: must_update_def server_indices)
  from wakeup_lost [OF this st'(1), of "\<lambda>_. 0"] show ?thesis by blast
qed

text \<open>Asleep or about to sleep, the thread has nothing to do.\<close>

definition idle :: "watch \<Rightarrow> bool" where
  "idle w \<longleftrightarrow> (w_phase w \<in> {Going_to_block, Blocked} \<longrightarrow> \<not> must_update (w_raft w) (w_fs w))"

lemma idle_wait_step:
  assumes "wait_step now w = Inr w'" and "idle w"
  shows "idle w'"
proof (cases "w_phase w")
  case (In_loop i commited)
  with assms(1) obtain th ns where
    "w' = w\<lparr>w_fs := ns, w_phase := case th of Fs_waiting \<Rightarrow> Testing | Fs_running j c \<Rightarrow> In_loop j c\<rparr>"
    by (auto simp: wait_step_def and_then_eq_Inr simp del: update_iter.simps)
  then show ?thesis by (cases th) (simp_all add: idle_def)
qed (use assms in \<open>auto simp: wait_step_def idle_def\<close>)

lemma idle_woken: "idle (w\<lparr>w_phase := woken (w_phase w)\<rparr>) \<longleftrightarrow> w_phase w = Going_to_block \<longrightarrow> idle w"
  by (cases "w_phase w") (auto simp: idle_def woken_def)

text \<open>
  The same code with \<open>fs_m\<close> held around it.  Before the announcement the thread that is about to
  block has nothing to apply; from the new state to the announcement it can neither test nor
  block, since it has let go of \<open>fs_m\<close>; after it a blocked thread has been woken.
\<close>

inductive wakes_up :: "raft \<Rightarrow> watch \<times> mutex list \<times> notifier_act list \<Rightarrow> bool" for st' where
  begins: "idle w \<Longrightarrow> wakes_up st' (w, [], [Takes Fs_m, Takes Raft_m, Becomes st', Notifies, Drops Raft_m, Drops Fs_m])"
| locks: "idle w \<Longrightarrow> \<not> fs_m_held (w_phase w) \<Longrightarrow>
    wakes_up st' (w, [Fs_m], [Takes Raft_m, Becomes st', Notifies, Drops Raft_m, Drops Fs_m])"
| ready: "\<not> fs_m_held (w_phase w) \<Longrightarrow> wakes_up st' (w, [Raft_m, Fs_m], [Becomes st', Notifies, Drops Raft_m, Drops Fs_m])"
| moved: "\<not> fs_m_held (w_phase w) \<Longrightarrow> wakes_up st' (w, [Raft_m, Fs_m], [Notifies, Drops Raft_m, Drops Fs_m])"
| told: "idle w \<Longrightarrow> wakes_up st' (w, [Raft_m, Fs_m], [Drops Raft_m, Drops Fs_m])"
| unlocks: "idle w \<Longrightarrow> wakes_up st' (w, [Fs_m], [Drops Fs_m])"
| ends: "idle w \<Longrightarrow> wakes_up st' (w, [], [])"

inductive_cases wakes_upE: "wakes_up st' (w, held, todo)"

lemma fs_m_held_simps [simp]:
  "fs_m_held Testing" "fs_m_held Going_to_block" "\<not> fs_m_held Blocked" "\<not> fs_m_held Waking" "fs_m_held (In_loop i c)"
  "fs_m_held (woken ph) = fs_m_held ph"
  by (simp_all add: fs_m_held_def woken_def)

lemma locked_out:
  assumes "wait_step now w = Inr w'" and "w_phase w \<noteq> Waking" and "\<not> fs_m_held (w_phase w)"
  shows "w' = w"
  using assms by (cases "w_phase w") (simp_all add: wait_step_def)

lemma wakes_up_phase:
  assumes "wakes_up st' (w, held, todo)" and "idle w \<Longrightarrow> idle w'"
    and "Fs_m \<in> set held \<Longrightarrow> \<not> fs_m_held (w_phase w) \<Longrightarrow> \<not> fs_m_held (w_phase w')"
  shows "wakes_up st' (w', held, todo)"
  using assms(1) by (cases rule: wakes_upE) (use assms(2,3) in \<open>auto intro: wakes_up.intros\<close>)

lemma wakes_up_step:
  assumes "wake_step now c c'" and "wakes_up st' c"
  shows "wakes_up st' c'"
  using assms
proof (induction rule: wake_step.induct)
  case (thread w held w' todo)
  from thread.prems show ?case
  proof (rule wakes_up_phase)
    show "idle w'" if "idle w" by (rule idle_wait_step [OF thread.hyps(2) that])
    show "\<not> fs_m_held (w_phase w')" if "Fs_m \<in> set held" "\<not> fs_m_held (w_phase w)"
      using locked_out [OF thread.hyps(2)] thread.hyps(1) that by auto
  qed
next
  case (spurious w held todo)
  then show ?case by (rule wakes_up_phase) (auto simp: idle_def woken_def split: if_splits)
next
  case (takes l held w todo)
  from takes.prems show ?case by (cases rule: wakes_upE) (use takes.hyps in \<open>auto intro: wakes_up.intros\<close>)
next
  case (drops w held l todo)
  then show ?case by (cases rule: wakes_upE) (auto intro: wakes_up.intros)
next
  case (becomes w held st todo)
  then show ?case by (cases rule: wakes_upE) (auto intro: wakes_up.intros)
next
  case (notifies w held todo)
  have "\<not> fs_m_held (w_phase w) \<Longrightarrow> idle (w\<lparr>w_phase := woken (w_phase w)\<rparr>)"
    by (cases "w_phase w") (simp_all add: idle_def woken_def)
  with notifies show ?case by (auto elim!: wakes_upE intro: wakes_up.intros)
qed

text \<open>
  With \<open>fs_m\<close> held around the announcement, the thread is never left blocked, or on its way
  there, with entries to apply when the code has ended.
\<close>

lemma wakeup_kept:
  assumes "announcement st acts st'"
    and "(wake_step now)\<^sup>*\<^sup>* (\<lparr>w_raft = st, w_fs = ns, w_phase = Testing\<rparr>, [], Takes Fs_m # acts @ [Drops Fs_m]) (w, [], [])"
    and "w_phase w \<in> {Going_to_block, Blocked}"
  shows "\<not> must_update (w_raft w) (w_fs w)"
proof -
  have start: "wakes_up st' (\<lparr>w_raft = st, w_fs = ns, w_phase = Testing\<rparr>, [], Takes Fs_m # acts @ [Drops Fs_m])"
    using announcement_acts [OF assms(1)] wakes_up.begins [of "\<lparr>w_raft = st, w_fs = ns, w_phase = Testing\<rparr>"]
    by (simp add: idle_def)
  from assms(2) have "wakes_up st' (w, [], [])"
    by (rule rtranclp_induct) (rule start, rule wakes_up_step)
  then have "idle w" by (auto elim: wakes_upE)
  with assms(3) show ?thesis by (simp add: idle_def)
qed

text \<open>
  The discipline under which no wake-up is lost, and which the code would follow if it changed
  the commit index with \<open>fs_m\<close> held: the index moves only while the thread is not between its
  test and its block, and each such move is followed by its \<open>notify_all\<close>.
\<close>

fun disciplined :: "cv_event list \<Rightarrow> watch \<Rightarrow> bool" where
  "disciplined [] w \<longleftrightarrow> True"
| "disciplined (Others st # evs) w \<longleftrightarrow>
     (if GetLastCommitIndex (raft_log st) = GetLastCommitIndex (raft_log (w_raft w))
      then disciplined evs (w\<lparr>w_raft := st\<rparr>)
      else w_phase w \<noteq> Going_to_block \<and> (case evs of Notify_all # _ \<Rightarrow> True | _ \<Rightarrow> False) \<and>
        disciplined evs (w\<lparr>w_raft := st\<rparr>))"
| "disciplined (Thread_step now # evs) w \<longleftrightarrow>
     (case wait_step now w of Inl u \<Rightarrow> True | Inr w' \<Rightarrow> disciplined evs w')"
| "disciplined (Notify_all # evs) w \<longleftrightarrow> disciplined evs (w\<lparr>w_phase := woken (w_phase w)\<rparr>)"
| "disciplined (Spurious # evs) w \<longleftrightarrow> disciplined evs (w\<lparr>w_phase := woken (w_phase w)\<rparr>)"

lemma disciplined_idle:
  "disciplined evs w \<Longrightarrow> idle w \<or> w_phase w \<noteq> Going_to_block \<and> (\<exists>rest. evs = Notify_all # rest) \<Longrightarrow>
   cv_run evs w = Inr w' \<Longrightarrow> idle w'"
proof (induction evs w rule: disciplined.induct)
  case (2 st evs w)
  show ?case
  proof (cases "GetLastCommitIndex (raft_log st) = GetLastCommitIndex (raft_log (w_raft w))")
    case True
    with 2 have "idle (w\<lparr>w_raft := st\<rparr>)" by (auto simp: idle_def must_update_def)
    with 2 True show ?thesis by simp
  next
    case False
    with 2 have "w_phase w \<noteq> Going_to_block" "\<exists>rest. evs = Notify_all # rest"
      by (auto split: list.splits cv_event.splits)
    with 2 False show ?thesis by simp
  qed
next
  case (3 now evs w)
  then obtain w1 where w1: "wait_step now w = Inr w1" "cv_run evs w1 = Inr w'"
    by (auto simp: and_then_eq_Inr)
  with 3 idle_wait_step [OF w1(1)] show ?case by auto
next
  case (4 evs w)
  then have "idle (w\<lparr>w_phase := woken (w_phase w)\<rparr>)" by (auto simp: idle_woken)
  with 4 show ?case by simp
next
  case (5 evs w)
  then have "idle (w\<lparr>w_phase := woken (w_phase w)\<rparr>)" by (auto simp: idle_woken)
  with 5 show ?case by simp
qed auto

text \<open>
  Under that discipline a blocked thread has applied what is committed, whatever the order
  of the steps.
\<close>

theorem blocked_means_applied:
  assumes "disciplined evs \<lparr>w_raft = st, w_fs = ns, w_phase = Testing\<rparr>"
    and "cv_run evs \<lparr>w_raft = st, w_fs = ns, w_phase = Testing\<rparr> = Inr w" and "w_phase w = Blocked"
  shows "GetCommitedIndex (w_fs w) = GetLastCommitIndex (raft_log (w_raft w))"
  using disciplined_idle [OF assms(1) _ assms(2)] assms(3) by (simp add: idle_def must_update_def)


theorem blocked_means_applied_witness:
  "\<exists>evs w. cv_run evs \<lparr>w_raft = idle_server, w_fs = new_FSNamespace 0, w_phase = Testing\<rparr> = Inr w \<and>
     Others committed_server \<in> set evs \<and> w_phase w = Blocked \<and> GetCommitedIndex (w_fs w) = 1"
proof -
  let ?t = "Thread_step (\<lambda>_. 0)"
  let ?evs = "[?t, ?t, Others committed_server, Notify_all, ?t, ?t, ?t, ?t, ?t, ?t]"
  let ?w = "\<lparr>w_raft = idle_server, w_fs = new_FSNamespace 0, w_phase = Testing\<rparr>"
  let ?w' = "\<lparr>w_raft = committed_server, w_fs = SetCommitedIndex 1 (new_FSNamespace 0), w_phase = Blocked\<rparr>"
  note eval = wait_step_def must_update_def server_indices may_apply_def apply_entry_def woken_def
    GetCommitedIndex_def SetCommitedIndex_def
  have set1: "commited_index (SetCommitedIndex 1 ns) = 1" for ns by (simp add: SetCommitedIndex_def)
  have get0: "commited_index (new_FSNamespace 0) = 0"
    using server_indices(3) by (simp add: GetCommitedIndex_def)
  have run: "cv_run ?evs ?w = Inr ?w'" by (simp add: eval get0)
  have disc: "disciplined ?evs ?w" by (simp add: eval get0)
  from blocked_means_applied [OF disc run] have "GetCommitedIndex (w_fs ?w') = 1"
    by (simp add: server_indices)
  with run show ?thesis by (intro exI [of _ ?evs] exI [of _ ?w']) simp
qed

end
