(* ===== verification/Election_Round.thy ===== *)
theory Election_Round
  imports Raft_Server
begin

text \<open>
  How an election ends.  A server whose election time has passed asks the others for their
  votes (\<open>CheckLeaderLoop\<close>, the candidate branch of \<open>RemoteHostLoop\<close>); if enough of those it
  reaches have logs that are not ahead of its own, it leads.  This is the other half of
  \<open>replication_round\<close>: the one shows that a leader replicates, this one that there is a leader.
\<close>

section \<open>Votes are given in the present or the past\<close>

definition votes_past :: "raft \<Rightarrow> bool" where
  "votes_past st \<longleftrightarrow> (\<forall>trm. vote_for st trm \<noteq> None \<longrightarrow> trm \<le> current_term st)"

lemma votes_past_next: "votes_past st \<Longrightarrow> current_term st < trm \<Longrightarrow> vote_for st trm = None"
  by (force simp: votes_past_def)

lemma votes_past_grow:
  "votes_past st \<Longrightarrow> vote_for st' = vote_for st \<Longrightarrow> current_term st \<le> current_term st' \<Longrightarrow> votes_past st'"
  by (force simp: votes_past_def)

lemma votes_past_vote: "votes_past st \<Longrightarrow> votes_past (fst (OnRequestVote t1 t2 req st))"
  by (force simp: votes_past_def OnRequestVote_votes raft_frame split: if_splits)

lemma votes_past_election: "votes_past st \<Longrightarrow> votes_past (StartLeaderElection st)"
  by (force simp: votes_past_def StartLeaderElection_votes raft_frame split: option.splits if_splits)

lemma votes_past_append:
  assumes "votes_past st" and "OnAppendEntries t1 t2 req st = Inr (st', resp)"
  shows "votes_past st'"
proof (rule votes_past_grow [OF assms(1)])
  show "vote_for st' = vote_for st" "current_term st \<le> current_term st'"
    using assms(2) by (auto simp: OnAppendEntries_def and_then_eq_Inr Let_def raft_frame
        ae_adopt_term_term split: if_splits)
qed

lemma votes_past_reply:
  assumes "votes_past st" and "on_ae_response t i req resp st = Inr (st', nxt)"
  shows "votes_past st'"
proof (rule votes_past_grow [OF assms(1)])
  from assms(2) show "vote_for st' = vote_for st" "current_term st \<le> current_term st'"
    by (cases rule: on_ae_response_cases; auto simp: raft_frame dest: ae_acknowledged_frame)+
qed

lemma votes_past_step: "server_step st st' \<Longrightarrow> votes_past st \<Longrightarrow> votes_past st'"
proof (induction rule: server_step.induct)
  case (timer st now t)
  then show ?case
    by (auto simp: check_leader_round_state raft_frame intro: votes_past_grow votes_past_election)
next
  case (vote_reply i st resp)
  then show ?case by (auto simp: raft_frame intro: votes_past_grow)
next
  case (client st op path)
  then show ?case by (auto simp: raft_frame intro: votes_past_grow)
qed (auto intro: votes_past_vote votes_past_append votes_past_reply)

lemma votes_past_run: "rtranclp server_step st st' \<Longrightarrow> votes_past st \<Longrightarrow> votes_past st'"
  by (induction rule: rtranclp_induct) (auto intro: votes_past_step)

lemma votes_past_new: "votes_past (new_raft t junk self name hosts)"
  by (simp add: votes_past_def new_raft_fields)



section \<open>Counting the replies\<close>

fun count_replies :: "(int \<times> rv_response) list \<Rightarrow> raft \<Rightarrow> raft" where
  "count_replies [] st = st"
| "count_replies ((i, resp) # replies) st = count_replies replies (fst (on_rv_response i resp st))"

lemma count_replies_frame:
  "self_id (count_replies replies st) = self_id st"
  "map fst (remotes (count_replies replies st)) = map fst (remotes st)"
  "current_term (count_replies replies st) = current_term st"
  "raft_log (count_replies replies st) = raft_log st"
  by (induction replies st rule: count_replies.induct) (simp_all add: raft_frame)

text \<open>A server that is no candidate any more, a leader for one, drops the replies that are left.\<close>

lemma count_replies_over: "current_role st \<noteq> kCandidate \<Longrightarrow> count_replies replies st = st"
  by (induction replies st rule: count_replies.induct) (simp_all add: on_rv_response_def)

definition granted :: "raft \<Rightarrow> int \<times> rv_response \<Rightarrow> bool" where
  "granted st = (\<lambda>(i, resp). rvr_vote_granted resp \<and> rvr_term resp \<le> current_term st)"

lemma count_replies_wins:
  assumes "current_role st = kCandidate" and "finite (vote_pool st)"
    and "list_all (granted st) replies" and "distinct (map fst replies)"
    and "vote_pool st \<inter> fst ` set replies = {}" and "replies \<noteq> []"
    and "quorum_size st \<le> int (card (vote_pool st) + length replies)"
  shows "\<exists>st1. count_replies replies st = ChangeToLeader st1 \<and> remotes st1 = remotes st \<and>
    self_id st1 = self_id st \<and> raft_log st1 = raft_log st \<and> current_term st1 = current_term st"
  using assms
proof (induction replies arbitrary: st)
  case (Cons r replies)
  obtain i resp where r: "r = (i, resp)" by (cases r)
  define st1 where "st1 = st\<lparr>vote_pool := insert i (vote_pool st)\<rparr>"
  have g: "rvr_vote_granted resp" "rvr_term resp \<le> current_term st"
    using Cons.prems(3) by (simp_all add: granted_def r)
  have "i \<notin> vote_pool st" using Cons.prems(5) r by auto
  then have card: "card (vote_pool st1) = Suc (card (vote_pool st))"
    using Cons.prems(2) by (simp add: st1_def)
  show ?case
  proof (cases "quorum_size st \<le> int (card (vote_pool st1))")
    case True
    with Cons.prems(1) g have "fst (on_rv_response i resp st) = ChangeToLeader st1"
      by (simp add: on_rv_response_def st1_def Let_def)
    then have "count_replies (r # replies) st = ChangeToLeader st1"
      by (simp add: r count_replies_over raft_frame)
    then show ?thesis by (intro exI [of _ st1]) (simp add: st1_def)
  next
    case False
    with Cons.prems(1) g have step: "count_replies (r # replies) st = count_replies replies st1"
      by (simp add: r on_rv_response_def st1_def Let_def)
    have "\<exists>st2. count_replies replies st1 = ChangeToLeader st2 \<and> remotes st2 = remotes st1 \<and>
        self_id st2 = self_id st1 \<and> raft_log st2 = raft_log st1 \<and> current_term st2 = current_term st1"
    proof (rule Cons.IH)
      show "replies \<noteq> []" using False Cons.prems(7) card by auto
      show "vote_pool st1 \<inter> fst ` set replies = {}" using Cons.prems(4,5) by (auto simp: r st1_def)
      show "list_all (granted st1) replies" using Cons.prems(3) by (simp add: granted_def st1_def)
    qed (use Cons.prems card in \<open>auto simp: st1_def\<close>)
    then show ?thesis unfolding step by (simp add: st1_def)
  qed
qed simp


section \<open>An election that is won\<close>

text \<open>A voter whose log is not ahead, by the comparison of \<open>OnRequestVote\<close>, and whose term is not.\<close>

definition willing :: "raft \<Rightarrow> raft \<Rightarrow> bool" where
  "willing st v \<longleftrightarrow> current_term v \<le> current_term st \<and> votes_past v \<and>
     Log_pos (GetLastLogTerm (raft_log v)) (GetLastLogIndex (raft_log v))
       \<le> Log_pos (GetLastLogTerm (raft_log st)) (GetLastLogIndex (raft_log st))"

lemma willing_grants:
  assumes "willing st v" and "rv_term req = current_term st + 1"
    and "rv_last_log_index req = GetLastLogIndex (raft_log st)"
    and "rv_last_log_term req = GetLastLogTerm (raft_log st)"
  shows "rvr_vote_granted (snd (OnRequestVote t1 t2 req v)) \<and>
    rvr_term (snd (OnRequestVote t1 t2 req v)) = current_term st + 1"
proof -
  obtain v' resp where run: "OnRequestVote t1 t2 req v = (v', resp)" by (cases "OnRequestVote t1 t2 req v")
  have "vote_for v (rv_term req) = None"
    using assms(1,2) by (intro votes_past_next) (auto simp: willing_def)
  with OnRequestVote_effect(1,2) [OF run] assms run show ?thesis by (auto simp: willing_def)
qed

text \<open>
  C28. An election is won.  A server that is not the leader finds its election time passed and
  asks for votes; when the voters it reaches are other servers, enough for a quorum with its
  own vote, whose terms and logs are not ahead of its own, then counting their replies, in any
  order, makes it the leader of the next term, with its log as it was and the entry behind it
  as the next one for every host.
\<close>

theorem election_round:
  assumes "votes_past st" and "current_role st \<noteq> kLeader" and "next_election st \<le> now"
    and "candidate = fst (check_leader_round now t st)"
    and "\<forall>(i, v) \<in> set voters. willing st v" and "distinct (map fst voters)"
    and "self_id st \<notin> fst ` set voters" and "voters \<noteq> []"
    and "quorum_size st \<le> int (length voters) + 1"
    and "replies = map (\<lambda>(i, v). (i, snd (OnRequestVote (t1 i) (t2 i) (make_rv_request candidate) v))) voters"
  shows "let st' = count_replies replies candidate in
    current_role st' = kLeader \<and> leader_id st' = self_id st \<and> current_term st' = current_term st + 1 \<and>
    raft_log st' = raft_log st \<and> (\<forall>i \<in> peer_ids st. GetNextIndex i st' = GetLastLogIndex (raft_log st) + 1)"
proof -
  have c: "candidate = PostponeElection t (StartLeaderElection st)"
    using assms(2-4) by (simp add: check_leader_round_state)
  have none: "vote_for st (current_term st + 1) = None" using assms(1) by (rule votes_past_next) simp
  have fields: "current_role candidate = kCandidate" "current_term candidate = current_term st + 1"
    "vote_pool candidate = {self_id st}" "quorum_size candidate = quorum_size st"
    "self_id candidate = self_id st" "raft_log candidate = raft_log st"
    "map fst (remotes candidate) = map fst (remotes st)"
    using none by (simp_all add: c raft_frame StartLeaderElection_votes)
  have g: "list_all (granted candidate) replies"
    using assms(5) willing_grants [of st] fields
    unfolding assms(10) granted_def list_all_iff by (fastforce simp: make_rv_request_def)
  have ids: "map fst replies = map fst voters" by (simp add: assms(10) case_prod_unfold comp_def)
  then have set: "fst ` set replies = fst ` set voters" by (metis list.set_map)
  have len: "length replies = length voters" by (simp add: assms(10))
  have "replies \<noteq> []" using assms(8,10) by simp
  then obtain st1 where win: "count_replies replies candidate = ChangeToLeader st1"
    and st1: "remotes st1 = remotes candidate" "self_id st1 = self_id st" "raft_log st1 = raft_log st"
      "current_term st1 = current_term st + 1"
    using count_replies_wins [OF fields(1) _ g] fields ids set len assms(6-9) by auto
  have "GetNextIndex i (ChangeToLeader st1) = GetLastLogIndex (raft_log st) + 1" if "i \<in> peer_ids st" for i
  proof -
    have "i \<in> fst ` set (remotes st1)"
      using that st1(1) fields(7) by (metis peer_ids_def list.set_map)
    then show ?thesis by (simp add: GetNextIndex_ChangeToLeader st1(3))
  qed
  then show ?thesis using win st1 by (simp add: Let_def raft_frame)
qed


text \<open>A server of three with a log, whose other two servers have just started; one of them answers.\<close>

theorem election_round_witness:
  "\<exists>candidate replies. candidate = fst (check_leader_round 900 sample_tick sample_server) \<and>
     length replies = 1 \<and>
     current_role (count_replies replies candidate) = kLeader \<and>
     current_term (count_replies replies candidate) = 3 \<and> leader_id (count_replies replies candidate) = 2"
proof -
  define v where "v = new_raft sample_tick (\<lambda>_. 0) 1 ''a'' [(2, ''b''), (3, ''c'')]"
  define candidate where "candidate = fst (check_leader_round 900 sample_tick sample_server)"
  let ?replies = "map (\<lambda>(i, v). (i, snd (OnRequestVote sample_tick sample_tick (make_rv_request candidate) v))) [(1, v)]"
  have past: "votes_past sample_server"
    by (simp add: votes_past_def sample_server_def new_raft_fields)
  have "willing sample_server v"
    using votes_past_new
    by (simp add: willing_def v_def new_raft_fields new_log_def GetLastLogTerm_def GetLastLogIndex_def
        sample_server_def sample_log_def sample_entry_def)
  moreover have "next_election sample_server \<le> 900" "current_role sample_server \<noteq> kLeader"
    "self_id sample_server = 2" "quorum_size sample_server = 2" "current_term sample_server = 2"
    by (simp_all add: sample_server_def new_raft_fields, simp add: new_raft_def raft_frame sample_tick_def)
  ultimately show ?thesis
    using election_round [OF past _ _ candidate_def, of "[(1, v)]" ?replies "\<lambda>_. sample_tick" "\<lambda>_. sample_tick"]
    unfolding candidate_def [symmetric] Let_def by (intro exI [of _ candidate] exI [of _ ?replies]) simp
qed

end
