(* ===== verification/Remote_Host.thy ===== *)
theory Remote_Host
  imports Raft_Threads
begin

text \<open>
  The socket of \<open>RemoteHost\<close> and the remote call in a round of \<open>RemoteHostLoop\<close>.  The round of
  \<open>Raft_Threads\<close> takes the result of the call as an argument; here it is made from the socket
  as the code makes it: \<open>Connected\<close> opens the socket if need be, the call is made if it is
  open, and a transport exception ends the attempt.
\<close>

text \<open>
  The socket is Thrift's and an argument: whether it is open, and what \<open>open\<close> and \<open>close\<close> make
  of it, \<open>None\<close> standing for a transport exception.
\<close>

record 's socket_ops =
  sock_is_open :: "'s \<Rightarrow> bool"
  sock_open :: "'s \<Rightarrow> 's option"
  sock_close :: "'s \<Rightarrow> 's"

definition delete_RemoteHost :: "'s socket_ops \<Rightarrow> 's \<Rightarrow> 's" where
  "delete_RemoteHost ops s = (if sock_is_open ops s then sock_close ops s else s)"

definition RemoteHost_GetName :: "remote_host \<Rightarrow> string" where
  "RemoteHost_GetName r = r_host r"

definition RemoteHost_GetID :: "remote_host \<Rightarrow> int" where
  "RemoteHost_GetID r = r_id r"

definition Connected :: "'s socket_ops \<Rightarrow> 's \<Rightarrow> ('s \<times> bool) option" where
  "Connected ops s =
     (if sock_is_open ops s then Some (s, True)
      else case sock_open ops s of None \<Rightarrow> None | Some s' \<Rightarrow> Some (s', sock_is_open ops s'))"

text \<open>
  The \<open>try\<close> block around the call: \<open>call\<close> is the RPC over the open socket, \<open>None\<close> if it throws.
\<close>

definition AE_call :: "'s socket_ops \<Rightarrow> ('s \<Rightarrow> ae_response option) \<Rightarrow> 's \<Rightarrow> ae_response rpc_result" where
  "AE_call ops call s =
     (case Connected ops s of
        None \<Rightarrow> Comm_lost
      | Some (s', True) \<Rightarrow> (case call s' of None \<Rightarrow> Comm_lost | Some resp \<Rightarrow> Replied resp)
      | Some (s', False) \<Rightarrow> Not_connected)"

definition RV_call :: "'s socket_ops \<Rightarrow> ('s \<Rightarrow> rv_response option) \<Rightarrow> 's \<Rightarrow> rv_response rpc_result" where
  "RV_call ops call s =
     (case Connected ops s of
        None \<Rightarrow> Comm_lost
      | Some (s', True) \<Rightarrow> (case call s' of None \<Rightarrow> Comm_lost | Some resp \<Rightarrow> Replied resp)
      | Some (s', False) \<Rightarrow> Not_connected)"

text \<open>
  Thrift's \<open>open\<close> leaves an open socket or throws.  Then a round never works on a default
  response: the call is answered or its thread waits for the next round.
\<close>

definition opens_or_throws :: "'s socket_ops \<Rightarrow> bool" where
  "opens_or_throws ops \<longleftrightarrow> (\<forall>s s'. sock_open ops s = Some s' \<longrightarrow> sock_is_open ops s')"

lemma Connected_open:
  "opens_or_throws ops \<Longrightarrow> Connected ops s = Some (s', b) \<Longrightarrow> b \<and> sock_is_open ops s'"
  by (auto simp: Connected_def opens_or_throws_def split: if_splits option.splits)

lemma calls_answered_or_lost:
  assumes "opens_or_throws ops"
  shows "AE_call ops ae_call s \<noteq> Not_connected" and "RV_call ops rv_call s \<noteq> Not_connected"
  using Connected_open [OF assms, of s]
  by (auto simp: AE_call_def RV_call_def split: option.splits bool.splits)

text \<open>A lost call leaves the state of a round as the other threads left it.\<close>

lemma lost_round:
  assumes "AE_call ops ae s = Comm_lost" and "RV_call ops rv s = Comm_lost"
  shows "remote_host_round t i (\<lambda>req st. (others req st, AE_call ops ae s))
      (\<lambda>req st. (others' req st, RV_call ops rv s)) st =
    Inr (case remote_call i st of Call_AE req \<Rightarrow> others req st | No_call \<Rightarrow> st | Call_RV req \<Rightarrow> others' req st,
      Wait_event)"
  by (simp add: remote_host_round_def assms split: rpc_call.split)

end
