(* ===== verification/Test_Runs.thy ===== *)
theory Test_Runs
  imports FS_Properties Raft_Server
begin

text \<open>
  The three test programs of \<open>src/test\<close>, run on the model.  \<open>fs_test\<close> prints what it expects
  beside what it gets and gets what it expects; \<open>log_test\<close> ends in undefined behaviour, and so
  does a fresh server when \<open>server_test\<close> calls it.
\<close>

section \<open>The name space\<close>

text \<open>
  \<open>fs_test\<close>: the results of the operations in their order, the listing of the root, and what
  \<open>GetFileInfo\<close> answers.  The owner is \<open>fakeowner\<close>; \<open>now\<close> are the readings of the clock, one for
  each operation that creates something; the printing in between changes nothing.
\<close>

type_synonym test_results = "(bool list \<times> string list \<times> bool \<times> file_info option) outcome"

definition note_result ::
  "(fs_namespace \<Rightarrow> (bool \<times> fs_namespace) outcome) \<Rightarrow> bool list \<times> fs_namespace \<Rightarrow> (bool list \<times> fs_namespace) outcome"
where
  "note_result op s = and_then (op (snd s)) (\<lambda>(r, ns). Inr (fst s @ [r], ns))"

fun note_results ::
  "(fs_namespace \<Rightarrow> (bool \<times> fs_namespace) outcome) list \<Rightarrow> bool list \<times> fs_namespace \<Rightarrow>
   (bool list \<times> fs_namespace) outcome"
where
  "note_results [] s = Inr s"
| "note_results (op # ops) s = and_then (note_result op s) (note_results ops)"

definition fs_test :: "(nat \<Rightarrow> int) \<Rightarrow> test_results" where
  "fs_test now =
     (let owner = ''fakeowner'' in
      and_then (note_results
        [MakeDir (now 1) ''/aaa'' owner False,
         MakeDir (now 2) ''/abc/def'' owner False,
         MakeDir (now 3) ''/abc/def'' owner True,
         MakeDir (now 4) ''/abc/def/ghk'' owner False,
         DeleteDir ''/abc/def'' owner False,
         DeleteDir ''/abc/def'' owner True,
         CreateFile (now 5) ''/abc/abc'' owner,
         CreateFile (now 6) ''/flaskdfj/asldkfj'' owner] ([], new_FSNamespace (now 0))) (\<lambda>s.
      and_then (ListDir ''/'' (snd s)) (\<lambda>dir_list.
      and_then (GetFileInfo ''/abc/abc'' (snd s)) (\<lambda>(found, info).
      and_then (note_results
        [RemoveFile ''/flaskdfj/asldkfj'' owner,
         RemoveFile ''/abc/abc'' owner] s) (\<lambda>s'.
      Inr (fst s', dir_list, found, info))))))"

text \<open>
  What \<open>fs_test\<close> gets is what it says it should get, at any time it runs.  The size that
  it prints was never initialised, and the creator is not the owner it passed.
\<close>

theorem fs_test_as_expected:
  "fs_test now = Inr ([True, False, True, True, False, True, True, False, False, True],
     [''aaa'', ''abc''], True,
     Some \<lparr>fi_path = ''/abc/abc'', fi_size = None, fi_creator = ''unknown'',
       fi_create_time = now 5 div 1000000000\<rparr>)"
  by code_simp


section \<open>The log\<close>

text \<open>
  \<open>log_test\<close>: ten entries one by one, each followed by a print of the log, a batch of five, and a
  batch of ten that agrees at index 9 and conflicts from index 10 on.  The operations are drawn
  at random: \<open>op i\<close> is the \<open>i\<close>th.  The result is what the two batches return.
\<close>

definition test_entry :: "(nat \<Rightarrow> meta_op) \<Rightarrow> nat \<Rightarrow> int \<Rightarrow> int \<Rightarrow> entry" where
  "test_entry op i trm idx = \<lparr>e_term = trm, e_index = idx, e_op = op i, e_value = []\<rparr>"

fun single_appends :: "entry list \<Rightarrow> log_manager \<Rightarrow> log_manager outcome" where
  "single_appends [] l = Inr l"
| "single_appends (e # es) l =
     (let l' = snd (Append_entry e l) in and_then (print_log l') (\<lambda>_. single_appends es l'))"

definition log_test :: "(nat \<Rightarrow> meta_op) \<Rightarrow> (bool \<times> bool) outcome" where
  "log_test op =
     (let single = map (\<lambda>i. test_entry op i 1 (int i)) [1..<11];
          batch = map (\<lambda>i. test_entry op i 1 (int i)) [11..<16];
          conflict = test_entry op 16 1 9 # map (\<lambda>i. test_entry op (i + 5) 2 (int i - 2)) [12..<21]
      in and_then (single_appends single new_log) (\<lambda>l.
         and_then (Append_entries batch l) (\<lambda>(ok, l1).
         and_then (print_log l1) (\<lambda>_.
         and_then (Append_entries conflict l1) (\<lambda>(ok', l2).
         and_then (print_log l2) (\<lambda>_. Inr (ok, ok')))))))"

text \<open>
  \<open>log_test\<close> runs into the undefined behaviour of \<open>Append\<close>: its last batch runs over the end
  of the log, and the iterator is used after \<open>push_back\<close> has invalidated it, whatever the
  operations are.
\<close>

theorem log_test_undefined: "log_test op = Inl Invalid_iterator"
  by code_simp


section \<open>The server\<close>

text \<open>
  \<open>server_test\<close> asks a running server for a vote and then sends it an append request without
  entries whose indices are made up.  The server is one that has just started.
\<close>

definition server_test :: "tick \<Rightarrow> tick \<Rightarrow> raft \<Rightarrow> (rv_response \<times> ae_response) outcome" where
  "server_test t1 t2 st =
     (let (st1, resp) = RequestVote t1 t2
            \<lparr>rv_term = 1, rv_candidate_id = 2, rv_last_log_index = 123, rv_last_log_term = 0\<rparr> st
      in and_then (AppendEntries t1 t2
           \<lparr>ae_term = 123, ae_leader_id = 345, ae_prev_log_index = 111, ae_prev_log_term = 132849,
            ae_entries = [], ae_leader_commit_index = 4234\<rparr> st1) (\<lambda>(st2, ae_resp).
         Inr (resp, ae_resp)))"

text \<open>
  A server that has just started grants the vote and then has undefined behaviour: it takes
  the commit index of a request it refused, and reads the last entry of an empty log.
\<close>

theorem server_test_undefined:
  "server_test t1 t2 (new_raft t junk self name hosts) = Inl Back_of_empty \<and>
   rvr_vote_granted (snd (RequestVote t1 t2
     \<lparr>rv_term = 1, rv_candidate_id = 2, rv_last_log_index = 123, rv_last_log_term = 0\<rparr>
     (new_raft t junk self name hosts)))"
  by (simp add: server_test_def RequestVote_def AppendEntries_def OnRequestVote_def
      OnAppendEntries_def new_raft_def PostponeElection_def new_log_def GetLastLogTermAndIndex_def
      ChangeToFollower_def ae_adopt_term_def ae_learn_leader_def ae_append_def ae_commit_def
      GetLastLogIndex_def GetLastCommitIndex_def SetLastCommitIndex_def Let_def)

end
