(* ===== verification/Spec2Isabelle.thy ===== *)
theory Spec2Isabelle
  imports Log_Matching Durable_Answers FS_Print FS_Destroy Client_Reads Client_Threads
    Leader_Waits Log_Memory FS_Wakeup Server_Locks Election_Round Remote_Host Test_Runs
begin

text \<open>
  A verification development for RaftFS, a file system whose metadata is replicated with Raft.
  A server keeps a log of metadata operations (\<open>storage/LogManager\<close>), agrees on it with the
  other servers (\<open>server/RaftConsensus\<close>), applies the committed part to its name space
  (\<open>filesystem/\<close>), and answers clients (\<open>server/ClientRPCService\<close>).  A client
  (\<open>client/RaftFS\<close>) sends changes to the leader and reads to some follower.  All of them find
  each other by a hosts file (\<open>utils/Options\<close>).

  The theories, in the order of their imports, with the code they model:

  \<^item> \<open>Raft_Prelude\<close>: outcomes of C++ code (a defined result, or the rule of the language that
    was broken), the binary search of the standard library, facts on lists.
  \<^item> \<open>Raft_Types\<close>: the messages of \<open>protocol/Raft.thrift\<close> and the status codes of
    \<open>protocol/Client.thrift\<close>; the order that \<open>OnRequestVote\<close> compares log positions with.
  \<^item> \<open>Log_Manager\<close>: \<open>storage/LogManager.cpp\<close>, one definition per method.  The log is a list,
    the deque iterator of \<open>Append\<close> is a position or invalidated.  \<open>append_spec\<close> says what
    \<open>Append\<close> of a batch promises on a numbered log, and \<open>append_refines_spec\<close> that the code
    does it; \<open>log_store\<close> and \<open>follower_log\<close> are the interfaces that the consensus code uses.
  \<^item> \<open>Raft_Consensus\<close>: the state of \<open>server/RaftConsensus.h\<close> and its handlers, with the role
    changes and \<open>RaftRPCService\<close>.
  \<^item> \<open>Raft_Threads\<close>: one round of \<open>CheckLeaderLoop\<close> and of \<open>RemoteHostLoop\<close>, \<open>server_step\<close>
    as everything that can happen to one server, and the contract \<open>server_contract\<close> of such
    steps: identity, terms, votes.
  \<^item> \<open>Raft_Server\<close>: what the handlers and rounds do on every branch (\<open>ae_log_spec\<close> is the
    specification of the log part of \<open>OnAppendEntries\<close>), the invariant \<open>raft_ok\<close> of a server,
    when it commits, how replication and backing off end.
  \<^item> \<open>Election_Round\<close>: an election from the timeout to the new leader, when enough voters are not
    ahead of the candidate.
  \<^item> \<open>Remote_Host\<close>: the socket of \<open>RemoteHost\<close>, which decides whether the call of a round is
    answered, lost or skipped.
  \<^item> \<open>Cluster\<close>: servers and a network as a labelled step relation; \<open>reachable P\<close> are the states
    that steps admitted by \<open>P\<close> reach.  Election safety and agreement on the leader by quorum
    intersection (\<open>quorum_system\<close>), in runs that count a vote reply in the term it was asked
    for (\<open>timely\<close>); the code does not make that test.
  \<^item> \<open>Cluster_Logs\<close>: logs and requests of every reachable state are well formed, and the run
    in which a late vote reply gives a term two leaders.
  \<^item> \<open>Cluster_Entries\<close>: the bounds of indices in every reachable state; an entry is known by its term and index, and a leader has every entry
    of its term, in timely runs in which leaders log the operations (\<open>orderly\<close>: the handler
    tests the role before \<open>OnMetaOperation\<close>, which does not test it again).
  \<^item> \<open>INode\<close>, \<open>INode_Tree\<close>: \<open>filesystem/INode\<close> as nodes on a heap of addresses, and the tree
    they form; the recursive deletion removes exactly what is below a node.
  \<^item> \<open>FS_Namespace\<close>, \<open>FS_Spec\<close>, \<open>FS_Properties\<close>: \<open>filesystem/FSNamespace\<close>, its view as a map
    from lists of names to files and directories, and every operation over that view.
  \<^item> \<open>FS_Print\<close>: \<open>Print\<close> and the stream operators as the text they write; \<open>Print\<close> shows one line
    for every path of the view.
  \<^item> \<open>FS_Destroy\<close>: the end of a name space, which frees every node exactly once.
  \<^item> \<open>FS_Update\<close>: \<open>FSUpdateLoop\<close>.  The name space with its applied index is a replicated
    machine (locale \<open>replicated_machine\<close>); a replica shows what the committed entries say.
  \<^item> \<open>FS_Thread\<close>: \<open>FSUpdateLoop\<close> one iteration at a time; the thread does not hold the lock of the
    consensus object, so the log, the role and the acknowledgements may change in between.  A
    pass of \<open>FS_Update\<close> is a run of iterations over one state.
  \<^item> \<open>FS_Wakeup\<close>: the wait of that thread on its condition variable, taken apart, and the code that
    announces a commit with the mutexes it takes.  An announcement that comes between the test
    and the block is lost (\<open>wakeup_lost\<close>); with \<open>fs_m\<close> held around it none would be (\<open>wakeup_kept\<close>).
  \<^item> \<open>Log_Memory\<close>: the log with its entries on a heap.  It refines \<open>Log_Manager\<close>, frees every entry
    once, and a pointer kept by the consensus code is alive as long as its entry is in its place.
  \<^item> \<open>Lock_Order\<close>: threads as lists of locking actions, their interleavings, and two disciplines
    as locales: \<open>ranked_threads\<close> (no deadlock) and \<open>guarded_threads\<close> (no data race).
  \<^item> \<open>Server_Locks\<close>: the mutexes of a server.  What each function of the consensus object, the
    log, the name space and the directories does to mutexes and shared variables; the threads
    take locks in one order, and all of the state is guarded but the log and the
    acknowledgements, on which two threads race.
  \<^item> \<open>Cluster_Run\<close>: runs of the cluster as lists of operations that compute (\<open>do_ops\<close>), and the
    proof that a computed run is a run of the step relation.
  \<^item> \<open>Raft_System\<close>: the cluster with the name spaces and update threads of its servers.  The
    entries that a thread applies are recorded along a run (\<open>applied_run\<close>, \<open>has_applied\<close>), and are
    from the set of all entries ever logged (\<open>system_inv\<close>).  \<open>steady\<close> runs are orderly, and no
    thread in them resets its applied index (\<open>forgets\<close>); \<open>steady_in T\<close> ones log in term \<open>T\<close> only.
  \<^item> \<open>System_Properties\<close>: in steady runs replicas agree on what they applied in the same term,
    and when all operations are logged in one term the slower replica has applied the first of
    the entries of the faster one.  Over several terms this fails: \<open>diverge_run\<close> is a run of five servers in which two of
    them apply different operations at index 1.
  \<^item> \<open>Cluster_Commits\<close>: what a commit index stands for.  Behind every commit index of a reachable
    cluster there is a quorum of servers that have acknowledged and stored an entry at that
    index or a later one; in runs that log in one term it is the same entry.
  \<^item> \<open>Log_Matching\<close>: in orderly runs that log in one term of two logs one is a prefix of the other.  Over
    several terms this fails too: \<open>mismatch_run\<close> puts the same entry behind different ones,
    because \<open>OnAppendEntries\<close> never reads \<open>prev_log_term\<close>.
  \<^item> \<open>Client_RPC\<close>: the handlers of \<open>server/ClientRPCService.cpp\<close>.  A handler that waits sees the
    states its server goes through; the wait is undefined when its entry is freed meanwhile.
  \<^item> \<open>Client_Answers\<close>: handlers that wait while the cluster runs on; in orderly runs an operation
    that is answered \<open>kOK\<close> is committed at the server that answers.
  \<^item> \<open>Durable_Answers\<close>: from there to the trees.  In steady runs that log in one term the entry of
    an operation that is answered \<open>kOK\<close> is applied, at its index, by every replica that gets as far.
  \<^item> \<open>Leader_Waits\<close>: when the wait of a handler is safe.  In orderly runs, while the term of its
    server lasts, a leader keeps its entries, so a handler reads no freed memory and answers \<open>kOK\<close> or \<open>kTimeout\<close>.
  \<^item> \<open>Client_FS\<close>, \<open>Client_Net\<close>: \<open>client/RaftFS.cpp\<close> over a network that is an argument, what the
    client relies on (locale \<open>transport\<close>), and clients connected to the modelled handlers.
    \<open>direct_net\<close> is one such network, in which a call that reaches a running server is its
    handler's run; lemmas over it speak of that network only.
  \<^item> \<open>Client_Reads\<close>: \<open>ListDir\<close> and \<open>GetFileInfo\<close> from the client through the handler to the view
    of the name space of its follower.
  \<^item> \<open>Server_RPC\<close>: \<open>InitRPCServer\<close> and the stubs of \<open>RemoteHost\<close> and \<open>FSClient\<close>: the names, the
    protocol and the port by which a call finds its processor.
  \<^item> \<open>Options_Model\<close>: \<open>utils/Options.cpp\<close>, \<open>server/server_main.cpp\<close> and the constructor of
    \<open>RaftMetaServer\<close>: servers started from one hosts file are an initial cluster, and their stubs
    and those of the clients are served by the right processors.
  \<^item> \<open>Time_Utils\<close>: the time stamps of \<open>utils/time_utils.h\<close>.
  \<^item> \<open>Perf_Test\<close>, \<open>Perf_Report\<close>: the benchmark driver \<open>client/PerfTest.cpp\<close> and what it writes.
    \<open>wanted\<close> says which path a command gets, \<open>accounts_ok\<close> is the invariant of the counters; a
    run is a sequence of rounds (\<open>perf_round\<close>), and with fair random numbers and shares that add
    up to the total it ends.
  \<^item> \<open>Client_Main\<close>, \<open>Client_Threads\<close>: \<open>client/client_main.cpp\<close>, one test thread from start to end,
    and the program with its three threads, the flag under the lock, the shared generator of
    random numbers, which each test seeds anew, and the servers as a step relation.  The flag is
    found set once and only that thread makes the tree, the latencies stay within the time that
    passed, and every interleaving ends if the uninitialised ratio is not positive.
  \<^item> \<open>Test_Runs\<close>: the programs of \<open>src/test\<close>, run on the model.

  Modelling choices.  Every handler and every operation of a name space runs under its mutex, so
  it is one step; \<open>OnMetaOperation\<close> holds no lock while it waits, and the states that the other
  threads bring the server to are an argument.  One iteration of \<open>FSUpdateLoop\<close> is a step, and so
  is one round of the benchmark, with the calls it makes.  Terms and indices are 64-bit integers
  that count up from 0 by one, and are unbounded here; unsigned wrap-around is written out where the code can reach it
  (a path without a slash).  Clock readings, random delays, values of uninitialised members,
  file contents, which files can be opened and the host name are arguments.  A behaviour that the C++ standard leaves
  undefined is an outcome of its own, and the theorems say when it occurs.

  Recursions.  \<open>DeleteChild\<close> and \<open>DeleteAllChild\<close> call each other with fuel \<open>3 n + 3\<close> for \<open>n\<close>
  addresses used: a child's address is larger than its parent's and every round frees a node, and
  \<open>DeleteChild_cut\<close> shows that the fuel suffices.  The climb of \<open>ToFileInfo\<close> and the descent of
  \<open>Print\<close> have one step per address, enough because parents have smaller addresses.  The two
  loops of the benchmark driver, which may run for ever, are partial functions with \<open>None\<close> for a
  run that does not end.  The other loops terminate by a measure.

  Not modelled: the Thrift run time with its sockets, dispatch and thread pool, which the
  theories take as the network; the log messages on \<open>cout\<close> but for those that show
  a tree; code that the preprocessor leaves out; the destructors of
  \<open>PerfTest\<close> and \<open>RaftMetaServer\<close>, which only give memory back; \<open>iNode_test\<close>, which no program calls.
\<close>

end
